(* ===== verification/Rust_Str.thy ===== *)
theory Rust_Str
  imports Prelude
begin

text \<open>
  The parts of Rust's \<open>str\<close> that the sources use. A \<open>String\<close> is the list of its bytes; the
  standard library keeps these well-formed UTF-8, which is the predicate \<open>valid_utf8\<close> here.
  \<open>str::from_utf8\<close> is modelled with the error it reports, \<open>split('.')\<close>, \<open>trim_end_matches('.')\<close>
  and \<open>to_ascii_lowercase\<close> as they act on the bytes. The lemmas say how these operations fit
  together: a name is the join of its labels, and a join is well-formed iff the labels are.
\<close>

section \<open>UTF-8 validation\<close>

record utf8_error =
  valid_up_to :: nat
  error_len :: "u8 option"

text \<open>\<open>(b as i8) < -64\<close> in the standard library's validation: a continuation byte.\<close>

definition is_utf8_cont :: "u8 \<Rightarrow> bool" where
  "is_utf8_cont b \<longleftrightarrow> 0x80 \<le> b \<and> b \<le> 0xBF"

definition utf8_char_width :: "u8 \<Rightarrow> nat" where
  "utf8_char_width b =
     (if b < 0x80 then 1
      else if 0xC2 \<le> b \<and> b \<le> 0xDF then 2
      else if 0xE0 \<le> b \<and> b \<le> 0xEF then 3
      else if 0xF0 \<le> b \<and> b \<le> 0xF4 then 4
      else 0)"

text \<open>Second byte of a three-byte and of a four-byte sequence.\<close>

definition utf8_second3 :: "u8 \<Rightarrow> u8 \<Rightarrow> bool" where
  "utf8_second3 a b \<longleftrightarrow>
     is_utf8_cont b \<and> (a = 0xE0 \<longrightarrow> 0xA0 \<le> b) \<and> (a = 0xED \<longrightarrow> b \<le> 0x9F)"

definition utf8_second4 :: "u8 \<Rightarrow> u8 \<Rightarrow> bool" where
  "utf8_second4 a b \<longleftrightarrow>
     is_utf8_cont b \<and> (a = 0xF0 \<longrightarrow> 0x90 \<le> b) \<and> (a = 0xF4 \<longrightarrow> b \<le> 0x8F)"

text \<open>
  One round of the validation loop: the bytes after the next scalar value, or the \<open>error_len\<close>
  (\<open>None\<close> when the input ends inside a sequence).
\<close>

fun utf8_next :: "bytes \<Rightarrow> u8 option + bytes" where
  "utf8_next [] = Inr []"
| "utf8_next (a # bs) =
     (if utf8_char_width a = 1 then Inr bs
      else if utf8_char_width a = 2 then
        (case bs of [] \<Rightarrow> Inl None
         | b # cs \<Rightarrow> if is_utf8_cont b then Inr cs else Inl (Some 1))
      else if utf8_char_width a = 3 then
        (case bs of [] \<Rightarrow> Inl None
         | b # cs \<Rightarrow> if \<not> utf8_second3 a b then Inl (Some 1) else
            (case cs of [] \<Rightarrow> Inl None
             | c # ds \<Rightarrow> if is_utf8_cont c then Inr ds else Inl (Some 2)))
      else if utf8_char_width a = 4 then
        (case bs of [] \<Rightarrow> Inl None
         | b # cs \<Rightarrow> if \<not> utf8_second4 a b then Inl (Some 1) else
            (case cs of [] \<Rightarrow> Inl None
             | c # ds \<Rightarrow> if \<not> is_utf8_cont c then Inl (Some 2) else
                (case ds of [] \<Rightarrow> Inl None
                 | d # es \<Rightarrow> if is_utf8_cont d then Inr es else Inl (Some 3))))
      else Inl (Some 1))"

lemma utf8_next_shorter: "utf8_next (a # bs) = Inr r \<Longrightarrow> length r < length (a # bs)"
  by (auto split: if_splits list.splits)

declare utf8_next.simps [simp del]

function utf8_validate :: "nat \<Rightarrow> bytes \<Rightarrow> utf8_error option" where
  "utf8_validate i [] = None"
| "utf8_validate i (a # bs) =
     (case utf8_next (a # bs) of
        Inl l \<Rightarrow> Some \<lparr>valid_up_to = i, error_len = l\<rparr>
      | Inr r \<Rightarrow> utf8_validate (i + (length (a # bs) - length r)) r)"
  by pat_completeness auto
termination
  by (relation "measure (length \<circ> snd)") (auto dest: utf8_next_shorter)

definition valid_utf8 :: "bytes \<Rightarrow> bool" where
  "valid_utf8 s \<longleftrightarrow> utf8_validate 0 s = None"

text \<open>\<open>std::str::from_utf8\<close>.\<close>

definition from_utf8 :: "bytes \<Rightarrow> utf8_error + bytes" where
  "from_utf8 s = (case utf8_validate 0 s of Some e \<Rightarrow> Inl e | None \<Rightarrow> Inr s)"

lemma from_utf8_eq_Inr [result_simps]: "from_utf8 s = Inr t \<longleftrightarrow> valid_utf8 s \<and> t = s"
  by (auto simp: from_utf8_def valid_utf8_def split: option.splits)

lemma utf8_validate_offset: "utf8_validate i s = None \<longleftrightarrow> utf8_validate j s = None"
proof (induction i s arbitrary: j rule: utf8_validate.induct)
  case (1 i)
  show ?case by simp
next
  case (2 i a bs)
  show ?case
  proof (cases "utf8_next (a # bs)")
    case (Inl l)
    then show ?thesis by simp
  next
    case (Inr r)
    then show ?thesis using "2.IH" [OF Inr] by simp
  qed
qed

lemma valid_utf8_Nil [simp]: "valid_utf8 []"
  by (simp add: valid_utf8_def)

lemma valid_utf8_Cons:
  "valid_utf8 (a # bs) \<longleftrightarrow> (\<exists>r. utf8_next (a # bs) = Inr r \<and> valid_utf8 r)"
proof (cases "utf8_next (a # bs)")
  case (Inl l)
  then show ?thesis by (simp add: valid_utf8_def)
next
  case (Inr r)
  then show ?thesis
    using utf8_validate_offset [of "length (a # bs) - length r" r 0] by (simp add: valid_utf8_def)
qed

text \<open>Every well-formed string is a sequence of scalar values: the induction the proofs use.\<close>

lemma valid_utf8_induct [consumes 1, case_names Nil Cons]:
  assumes "valid_utf8 s" "P []"
    and "\<And>a bs r. utf8_next (a # bs) = Inr r \<Longrightarrow> valid_utf8 r \<Longrightarrow> P r \<Longrightarrow> P (a # bs)"
  shows "P s"
  using assms(1)
proof (induction s rule: length_induct)
  case (1 s)
  show ?case
  proof (cases s)
    case Nil
    with assms(2) show ?thesis by simp
  next
    case (Cons a bs)
    with "1.prems" obtain r where r: "utf8_next (a # bs) = Inr r" "valid_utf8 r"
      by (auto simp: valid_utf8_Cons)
    from utf8_next_shorter [OF r(1)] "1.IH" r(2) Cons have "P r" by blast
    with r Cons show ?thesis by (auto intro: assms(3))
  qed
qed

lemma ascii_valid_utf8: "\<forall>b\<in>set s. b < 0x80 \<Longrightarrow> valid_utf8 s"
  by (induction s) (auto simp: valid_utf8_Cons utf8_char_width_def utf8_next.simps)

section \<open>The label separator\<close>

definition dot :: u8 where
  "dot = of_char (CHR ''.'')"

lemma dot_val: "dot = 0x2E"
  by (simp add: dot_def)

lemma dot_utf8 [simp]:
  "utf8_char_width dot = 1" "\<not> is_utf8_cont dot"
  "\<not> utf8_second3 a dot" "\<not> utf8_second4 a dot"
  by (simp_all add: dot_val utf8_char_width_def is_utf8_cont_def utf8_second3_def utf8_second4_def)

lemma utf8_next_before_dot:
  "xs \<noteq> [] \<Longrightarrow> utf8_next (xs @ dot # ys) = Inr r \<longleftrightarrow>
     (\<exists>q. utf8_next xs = Inr q \<and> r = q @ dot # ys)"
proof -
  assume "xs \<noteq> []"
  then consider a where "xs = [a]" | a b where "xs = [a, b]" | a b c where "xs = [a, b, c]"
    | a b c d zs where "xs = a # b # c # d # zs"
    by (metis list.exhaust)
  then show ?thesis by cases (auto simp: utf8_next.simps)
qed

lemma valid_utf8_dot_imp: "valid_utf8 s \<Longrightarrow> s = xs @ dot # ys \<Longrightarrow> valid_utf8 xs \<and> valid_utf8 ys"
proof (induction s arbitrary: xs rule: valid_utf8_induct)
  case Nil
  then show ?case by simp
next
  case (Cons a bs r)
  show ?case
  proof (cases xs)
    case Nil
    with Cons show ?thesis by (simp add: utf8_next.simps)
  next
    case (Cons b xs')
    then obtain q where q: "utf8_next xs = Inr q" "r = q @ dot # ys"
      using Cons.hyps Cons.prems utf8_next_before_dot [of xs ys r] by auto
    then have "valid_utf8 q \<and> valid_utf8 ys" by (intro Cons.IH)
    then show ?thesis using q Cons by (auto simp: valid_utf8_Cons)
  qed
qed

lemma valid_utf8_dotI: "valid_utf8 xs \<Longrightarrow> valid_utf8 ys \<Longrightarrow> valid_utf8 (xs @ dot # ys)"
proof (induction xs rule: valid_utf8_induct)
  case Nil
  then show ?case by (simp add: valid_utf8_Cons utf8_next.simps)
next
  case (Cons a bs r)
  then have "utf8_next ((a # bs) @ dot # ys) = Inr (r @ dot # ys)"
    using utf8_next_before_dot [of "a # bs" ys "r @ dot # ys"] by auto
  with Cons show ?case by (simp add: valid_utf8_Cons)
qed

lemma valid_utf8_dot: "valid_utf8 (xs @ dot # ys) \<longleftrightarrow> valid_utf8 xs \<and> valid_utf8 ys"
  by (blast intro: valid_utf8_dotI dest: valid_utf8_dot_imp)

section \<open>Splitting, joining and trimming\<close>

text \<open>
  \<open>name.split('.')\<close> as a list: the pieces between the separators, one empty piece for the empty
  string. \<open>join_dots\<close> is what \<open>Reader::read_name\<close> builds up from the labels it meets.
\<close>

fun split_dots :: "bytes \<Rightarrow> bytes list" where
  "split_dots [] = [[]]"
| "split_dots (c # cs) =
     (if c = dot then [] # split_dots cs
      else (case split_dots cs of [] \<Rightarrow> [[c]] | l # ls \<Rightarrow> (c # l) # ls))"

fun join_dots :: "bytes list \<Rightarrow> bytes" where
  "join_dots [] = []"
| "join_dots [l] = l"
| "join_dots (l # m # ls) = l @ dot # join_dots (m # ls)"

fun trim_end_dots :: "bytes \<Rightarrow> bytes" where
  "trim_end_dots [] = []"
| "trim_end_dots (c # cs) =
     (case trim_end_dots cs of [] \<Rightarrow> if c = dot then [] else [c] | t \<Rightarrow> c # t)"

definition to_ascii_lowercase :: "u8 \<Rightarrow> u8" where
  "to_ascii_lowercase b = (if 0x41 \<le> b \<and> b \<le> 0x5A then b OR 0x20 else b)"

definition str_to_ascii_lowercase :: "bytes \<Rightarrow> bytes" where
  "str_to_ascii_lowercase s = map to_ascii_lowercase s"

lemma split_dots_nonempty [simp]: "split_dots s \<noteq> []"
  by (cases s) (auto split: list.splits)

lemma join_split_dots [simp]: "join_dots (split_dots s) = s"
proof (induction s)
  case Nil
  show ?case by simp
next
  case (Cons c cs)
  obtain l ls where "split_dots cs = l # ls" by (meson list.exhaust split_dots_nonempty)
  with Cons show ?case by (cases ls) auto
qed

lemma split_dots_no_dot: "l \<in> set (split_dots s) \<Longrightarrow> dot \<notin> set l"
  by (induction s arbitrary: l) (auto split: if_splits list.splits)

lemma split_dots_single: "dot \<notin> set l \<Longrightarrow> split_dots l = [l]"
  by (induction l) auto

lemma split_dots_append: "dot \<notin> set l \<Longrightarrow> split_dots (l @ dot # s) = l # split_dots s"
  by (induction l) auto

lemma split_join_dots:
  "ls \<noteq> [] \<Longrightarrow> (\<And>l. l \<in> set ls \<Longrightarrow> dot \<notin> set l) \<Longrightarrow> split_dots (join_dots ls) = ls"
  by (induction ls rule: join_dots.induct) (auto simp: split_dots_single split_dots_append)

lemma join_dots_Cons: "join_dots (l # ls) = (if ls = [] then l else l @ dot # join_dots ls)"
  by (cases ls) auto

lemma length_join_dots_Cons:
  "length (join_dots (l # ls)) = length l + (if ls = [] then 0 else 1 + length (join_dots ls))"
  by (simp add: join_dots_Cons)

lemma join_dots_nonempty: "ls \<noteq> [] \<Longrightarrow> [] \<notin> set ls \<Longrightarrow> join_dots ls \<noteq> []"
  by (cases ls) (auto simp: join_dots_Cons)

text \<open>Non-empty labels cost at least two bytes each but for the last.\<close>

lemma length_join_dots_ge:
  "[] \<notin> set ls \<Longrightarrow> 2 * length ls \<le> length (join_dots ls) + 1"
proof (induction ls rule: join_dots.induct)
  case (2 l)
  then show ?case by (cases l) auto
next
  case (3 l m ls)
  then show ?case by (cases l) auto
qed simp

lemma valid_utf8_join_dots:
  "valid_utf8 (join_dots ls) \<longleftrightarrow> (\<forall>l\<in>set ls. valid_utf8 l)"
  by (induction ls rule: join_dots.induct) (auto simp: valid_utf8_dot)

lemma trim_end_dots_id: "s = [] \<or> last s \<noteq> dot \<Longrightarrow> trim_end_dots s = s"
  by (induction s) (auto split: list.splits if_splits)

lemma trim_end_dots_last: "trim_end_dots s = [] \<or> last (trim_end_dots s) \<noteq> dot"
  by (induction s) (auto split: list.splits if_splits)

lemma trim_end_dots_decomp: "\<exists>n. s = trim_end_dots s @ replicate n dot"
proof (induction s)
  case Nil
  show ?case by simp
next
  case (Cons c cs)
  then obtain n where n: "cs = trim_end_dots cs @ replicate n dot" by blast
  show ?case
  proof (cases "trim_end_dots cs")
    case Nil
    with n have "c = dot \<longrightarrow> c # cs = replicate (Suc n) dot" by simp
    with Nil n show ?thesis by (cases "c = dot") (auto intro: exI [of _ "Suc n"] exI [of _ n])
  next
    case (Cons t ts)
    with n show ?thesis by (auto intro: exI [of _ n])
  qed
qed

lemma length_trim_end_dots: "length (trim_end_dots s) \<le> length s"
  by (metis le_add1 length_append trim_end_dots_decomp)

lemma to_ascii_lowercase_idem [simp]:
  "to_ascii_lowercase (to_ascii_lowercase b) = to_ascii_lowercase b"
  by (simp add: to_ascii_lowercase_def or.assoc)

lemma str_to_ascii_lowercase_simps [simp]:
  "length (str_to_ascii_lowercase s) = length s"
  "str_to_ascii_lowercase (str_to_ascii_lowercase s) = str_to_ascii_lowercase s"
  by (simp_all add: str_to_ascii_lowercase_def)

end
