(* ===== verification/Codes.thy ===== *)
theory Codes
  imports Rust_Str
begin

text \<open>
  The code points of the wire format (\<open>dnser-proto\<close>: \<open>class.rs\<close>, \<open>opcode.rs\<close>, \<open>rcode.rs\<close>,
  \<open>record_type.rs\<close>) and the error types (\<open>error.rs\<close>). A \<open>#[repr(u16)]\<close> enum is a datatype with
  its discriminant function; \<open>TryFrom\<close> is a function into a sum that hands back the number it does
  not know. The lemmas say that each conversion is the exact inverse of the discriminant.
\<close>

section \<open>Enums with a wire representation\<close>

text \<open>
  The contract between a \<open>#[repr]\<close> enum and its \<open>TryFrom\<close>: a number is accepted iff it is the
  discriminant of the result, and a rejected number is handed back as it is.
\<close>

locale repr_enum =
  fixes val :: "'a \<Rightarrow> 'n::len word"
    and try_from :: "'n word \<Rightarrow> 'n word + 'a"
  assumes try_from_ok: "try_from n = Inr t \<longleftrightarrow> n = val t"
    and try_from_err: "try_from n = Inl e \<Longrightarrow> e = n"
begin

lemma try_from_val: "try_from (val t) = Inr t"
  by (simp add: try_from_ok)

lemma val_inject: "val s = val t \<longleftrightarrow> s = t"
  by (metis sum.inject(2) try_from_val)

lemma try_from_rejects: "try_from n = Inl e \<longleftrightarrow> e = n \<and> n \<notin> range val"
proof (cases "try_from n")
  case (Inl m)
  then show ?thesis using try_from_err [OF Inl] try_from_val by (auto simp: image_iff)
next
  case (Inr t)
  then show ?thesis using try_from_ok [of n t] by auto
qed

end

section \<open>Errors\<close>

datatype parse_error =
    UnexpectedEof
  | InvalidPointer
  | PointerLoop
  | LabelTooLong
  | NameTooLong
  | RdataLengthMismatch
  | UnknownRecordType u16
  | UnknownClass u16
  | InvalidUtf8 utf8_error
  | ReservedBitSet

datatype write_error = WLabelTooLong | WEmptyLabel | WTxtChunkTooLong

section \<open>Classes\<close>

datatype dns_class = DnsClass (class_val: u16)

definition class_IN :: dns_class where "class_IN = DnsClass 1"
definition class_CS :: dns_class where "class_CS = DnsClass 2"
definition class_CH :: dns_class where "class_CH = DnsClass 3"
definition class_HS :: dns_class where "class_HS = DnsClass 4"
definition class_ANY :: dns_class where "class_ANY = DnsClass 255"

definition class_is_known :: "dns_class \<Rightarrow> bool" where
  "class_is_known c \<longleftrightarrow> class_val c \<in> {1, 2, 3, 4, 255}"

definition class_from_u16 :: "u16 \<Rightarrow> dns_class" where
  "class_from_u16 v = DnsClass v"

definition u16_from_class :: "dns_class \<Rightarrow> u16" where
  "u16_from_class c = class_val c"

lemma class_roundtrip [simp]:
  "u16_from_class (class_from_u16 v) = v" "class_from_u16 (u16_from_class c) = c"
  by (simp_all add: u16_from_class_def class_from_u16_def)

lemma class_is_known_iff:
  "class_is_known c \<longleftrightarrow> c \<in> {class_IN, class_CS, class_CH, class_HS, class_ANY}"
  by (cases c)
    (auto simp: class_is_known_def class_IN_def class_CS_def class_CH_def class_HS_def class_ANY_def)

section \<open>Opcodes\<close>

datatype opcode = OpQuery | OpIQuery | OpStatus | OpNotify | OpUpdate

fun opcode_val :: "opcode \<Rightarrow> u8" where
  "opcode_val OpQuery = 0"
| "opcode_val OpIQuery = 1"
| "opcode_val OpStatus = 2"
| "opcode_val OpNotify = 4"
| "opcode_val OpUpdate = 5"

definition opcode_try_from :: "u8 \<Rightarrow> u8 + opcode" where
  "opcode_try_from n =
     (if n = 0 then Inr OpQuery
      else if n = 1 then Inr OpIQuery
      else if n = 2 then Inr OpStatus
      else if n = 4 then Inr OpNotify
      else if n = 5 then Inr OpUpdate
      else Inl n)"

interpretation oc: repr_enum opcode_val opcode_try_from
proof
  show "opcode_try_from n = Inr t \<longleftrightarrow> n = opcode_val t" for n t
    by (cases t) (auto simp: opcode_try_from_def)
  show "opcode_try_from n = Inl e \<Longrightarrow> e = n" for n e
    by (simp add: opcode_try_from_def split: if_splits)
qed

section \<open>Response codes\<close>

datatype rcode = NoError | FormErr | ServFail | NXDomain | NotImp | Refused

fun rcode_val :: "rcode \<Rightarrow> u8" where
  "rcode_val NoError = 0"
| "rcode_val FormErr = 1"
| "rcode_val ServFail = 2"
| "rcode_val NXDomain = 3"
| "rcode_val NotImp = 4"
| "rcode_val Refused = 5"

definition rcode_try_from :: "u8 \<Rightarrow> u8 + rcode" where
  "rcode_try_from n =
     (if n = 0 then Inr NoError
      else if n = 1 then Inr FormErr
      else if n = 2 then Inr ServFail
      else if n = 3 then Inr NXDomain
      else if n = 4 then Inr NotImp
      else if n = 5 then Inr Refused
      else Inl n)"

interpretation rc: repr_enum rcode_val rcode_try_from
proof
  show "rcode_try_from n = Inr t \<longleftrightarrow> n = rcode_val t" for n t
    by (cases t) (auto simp: rcode_try_from_def)
  show "rcode_try_from n = Inl e \<Longrightarrow> e = n" for n e
    by (simp add: rcode_try_from_def split: if_splits)
qed

section \<open>Record types\<close>

datatype record_type =
    RT_A | RT_NS | RT_CNAME | RT_SOA | RT_PTR | RT_MX | RT_TXT | RT_AAAA | RT_SRV | RT_OPT
  | RT_IXFR | RT_AXFR | RT_ANY

fun record_type_val :: "record_type \<Rightarrow> u16" where
  "record_type_val RT_A = 1"
| "record_type_val RT_NS = 2"
| "record_type_val RT_CNAME = 5"
| "record_type_val RT_SOA = 6"
| "record_type_val RT_PTR = 12"
| "record_type_val RT_MX = 15"
| "record_type_val RT_TXT = 16"
| "record_type_val RT_AAAA = 28"
| "record_type_val RT_SRV = 33"
| "record_type_val RT_OPT = 41"
| "record_type_val RT_IXFR = 251"
| "record_type_val RT_AXFR = 252"
| "record_type_val RT_ANY = 255"

definition record_type_try_from :: "u16 \<Rightarrow> u16 + record_type" where
  "record_type_try_from n =
     (if n = 1 then Inr RT_A
      else if n = 2 then Inr RT_NS
      else if n = 5 then Inr RT_CNAME
      else if n = 6 then Inr RT_SOA
      else if n = 12 then Inr RT_PTR
      else if n = 15 then Inr RT_MX
      else if n = 16 then Inr RT_TXT
      else if n = 28 then Inr RT_AAAA
      else if n = 33 then Inr RT_SRV
      else if n = 41 then Inr RT_OPT
      else if n = 251 then Inr RT_IXFR
      else if n = 252 then Inr RT_AXFR
      else if n = 255 then Inr RT_ANY
      else Inl n)"

interpretation rt: repr_enum record_type_val record_type_try_from
proof
  show "record_type_try_from n = Inr t \<longleftrightarrow> n = record_type_val t" for n t
    by (cases t) (auto simp: record_type_try_from_def)
  show "record_type_try_from n = Inl e \<Longrightarrow> e = n" for n e
    by (simp add: record_type_try_from_def split: if_splits)
qed

lemma record_type_numbers [simp]:
  "record_type_try_from 1 = Inr RT_A" "record_type_try_from 2 = Inr RT_NS"
  "record_type_try_from 5 = Inr RT_CNAME" "record_type_try_from 6 = Inr RT_SOA"
  "record_type_try_from 12 = Inr RT_PTR" "record_type_try_from 15 = Inr RT_MX"
  "record_type_try_from 16 = Inr RT_TXT" "record_type_try_from 28 = Inr RT_AAAA"
  "record_type_try_from 33 = Inr RT_SRV" "record_type_try_from 41 = Inr RT_OPT"
  by (simp_all add: record_type_try_from_def)

end
