(* ===== verification/Reader.thy ===== *)
theory Reader
  imports Codes
begin

text \<open>
  \<open>dnser-proto/src/reader.rs\<close>: a cursor over a byte buffer. Each method is a function from the
  reader to a \<^typ>\<open>parse_error\<close> or the value read and the advanced reader. \<open>read_name\<close> follows
  compression pointers; its loop is a \<open>function\<close> whose termination needs both the jump limit and
  the growth of the position, since a pointer may go backwards.

  \<open>wire_parser\<close> is the interface every parser of the development meets: it keeps the buffer,
  never moves backwards and never leaves the buffer.
\<close>

section \<open>State and fixed-width reads\<close>

record reader =
  rd_buf :: bytes
  rd_pos :: nat

definition reader_new :: "bytes \<Rightarrow> reader" where
  "reader_new b = \<lparr>rd_buf = b, rd_pos = 0\<rparr>"

definition read_u8 :: "reader \<Rightarrow> parse_error + u8 \<times> reader" where
  "read_u8 r =
     (if rd_pos r < length (rd_buf r)
      then Inr (rd_buf r ! rd_pos r, r\<lparr>rd_pos := rd_pos r + 1\<rparr>)
      else Inl UnexpectedEof)"

definition read_u16 :: "reader \<Rightarrow> parse_error + u16 \<times> reader" where
  "read_u16 r =
     (if rd_pos r + 2 \<le> length (rd_buf r)
      then Inr (u16_from_be_bytes (rd_buf r ! rd_pos r) (rd_buf r ! (rd_pos r + 1)),
                r\<lparr>rd_pos := rd_pos r + 2\<rparr>)
      else Inl UnexpectedEof)"

definition read_u32 :: "reader \<Rightarrow> parse_error + u32 \<times> reader" where
  "read_u32 r =
     (if rd_pos r + 4 \<le> length (rd_buf r)
      then Inr (u32_from_be_bytes (rd_buf r ! rd_pos r) (rd_buf r ! (rd_pos r + 1))
                  (rd_buf r ! (rd_pos r + 2)) (rd_buf r ! (rd_pos r + 3)),
                r\<lparr>rd_pos := rd_pos r + 4\<rparr>)
      else Inl UnexpectedEof)"

definition read_bytes :: "nat \<Rightarrow> reader \<Rightarrow> parse_error + bytes \<times> reader" where
  "read_bytes n r =
     (if rd_pos r + n > length (rd_buf r) then Inl UnexpectedEof
      else Inr (take n (drop (rd_pos r) (rd_buf r)), r\<lparr>rd_pos := rd_pos r + n\<rparr>))"

section \<open>Names\<close>

definition MAX_JUMPS :: nat where "MAX_JUMPS = 128"
definition MAX_NAME_LEN :: nat where "MAX_NAME_LEN = 253"

text \<open>\<open>((byte & 0b0011_1111) as usize) << 8 | buf[pos + 1] as usize\<close>\<close>

definition pointer_offset :: "u8 \<Rightarrow> u8 \<Rightarrow> nat" where
  "pointer_offset hi lo = push_bit 8 (unat (hi AND 0x3F)) OR unat lo"

text \<open>
  The loop of \<open>read_name\<close>. \<open>self_pos\<close> is \<open>self.pos\<close>, written only while no jump has been taken;
  \<open>nm\<close> is the accumulated \<open>name\<close>.
\<close>

function read_name_loop ::
    "bytes \<Rightarrow> bytes \<Rightarrow> nat \<Rightarrow> bool \<Rightarrow> nat \<Rightarrow> nat \<Rightarrow> parse_error + bytes \<times> nat" where
  "read_name_loop buf nm pos jumped jumps self_pos =
     (if jumps \<ge> MAX_JUMPS then Inl PointerLoop
      else if pos \<ge> length buf then Inl UnexpectedEof
      else if buf ! pos = 0 then
        Inr (nm, if \<not> jumped then pos + 1 else self_pos)
      else if buf ! pos AND 0xC0 = 0xC0 then
        (if pos + 1 \<ge> length buf then Inl UnexpectedEof
         else if pointer_offset (buf ! pos) (buf ! (pos + 1)) \<ge> length buf then Inl InvalidPointer
         else read_name_loop buf nm (pointer_offset (buf ! pos) (buf ! (pos + 1))) True (jumps + 1)
                (if \<not> jumped then pos + 2 else self_pos))
      else if unat (buf ! pos) > 63 then Inl LabelTooLong
      else if pos + 1 + unat (buf ! pos) > length buf then Inl UnexpectedEof
      else and_then (map_err InvalidUtf8 (from_utf8 (take (unat (buf ! pos)) (drop (pos + 1) buf))))
        (\<lambda>label.
          if length ((if nm \<noteq> [] then nm @ [dot] else nm) @ label) > MAX_NAME_LEN
          then Inl NameTooLong
          else read_name_loop buf ((if nm \<noteq> [] then nm @ [dot] else nm) @ label)
                 (pos + 1 + unat (buf ! pos)) jumped jumps self_pos))"
  by pat_completeness auto
termination
  by (relation "measures [\<lambda>(buf, nm, pos, jumped, jumps, self_pos). MAX_JUMPS - jumps,
        \<lambda>(buf, nm, pos, jumped, jumps, self_pos). length buf - pos]")
    auto

declare read_name_loop.simps [simp del]

definition read_name :: "reader \<Rightarrow> parse_error + bytes \<times> reader" where
  "read_name r =
     and_then (read_name_loop (rd_buf r) [] (rd_pos r) False 0 (rd_pos r))
       (\<lambda>(nm, p). Inr (nm, r\<lparr>rd_pos := p\<rparr>))"

section \<open>The parser interface\<close>

definition reader_ok :: "reader \<Rightarrow> bool" where
  "reader_ok r \<longleftrightarrow> rd_pos r \<le> length (rd_buf r)"

definition reader_le :: "reader \<Rightarrow> reader \<Rightarrow> bool" where
  "reader_le r r' \<longleftrightarrow>
     rd_buf r' = rd_buf r \<and> rd_pos r \<le> rd_pos r' \<and> rd_pos r' \<le> length (rd_buf r)"

lemma reader_le_trans [trans]: "reader_le r s \<Longrightarrow> reader_le s t \<Longrightarrow> reader_le r t"
  by (auto simp: reader_le_def)

lemma reader_le_ok: "reader_le r s \<Longrightarrow> reader_ok s"
  by (auto simp: reader_le_def reader_ok_def)

lemma reader_le_refl: "reader_ok r \<Longrightarrow> reader_le r r"
  by (auto simp: reader_le_def reader_ok_def)

locale wire_parser =
  fixes p :: "reader \<Rightarrow> parse_error + 'a \<times> reader"
  assumes advances: "p r = Inr (x, r') \<Longrightarrow> reader_ok r \<Longrightarrow> reader_le r r'"
begin

lemma keeps_ok: "p r = Inr (x, r') \<Longrightarrow> reader_ok r \<Longrightarrow> reader_ok r'"
  by (blast intro: reader_le_ok advances)

lemma then_advances:
  assumes "and_then (p r) k = Inr (y, r'')" "reader_ok r"
    and "\<And>x r'. p r = Inr (x, r') \<Longrightarrow> reader_ok r' \<Longrightarrow> k (x, r') = Inr (y, r'') \<Longrightarrow> reader_le r' r''"
  shows "reader_le r r''"
proof -
  from assms(1) obtain x r' where "p r = Inr (x, r')" "k (x, r') = Inr (y, r'')"
    by (auto simp: and_then_eq_Inr)
  with assms(2,3) show ?thesis by (blast intro: reader_le_trans advances keeps_ok)
qed

end

interpretation u8: wire_parser read_u8
  by unfold_locales (auto simp: read_u8_def reader_le_def split: if_splits)

interpretation u16: wire_parser read_u16
  by unfold_locales (auto simp: read_u16_def reader_le_def split: if_splits)

interpretation u32: wire_parser read_u32
  by unfold_locales (auto simp: read_u32_def reader_le_def split: if_splits)

interpretation raw: wire_parser "read_bytes n" for n
  by unfold_locales (auto simp: read_bytes_def reader_le_def split: if_splits)

lemma read_name_loop_pos:
  "read_name_loop buf nm pos jumped jumps sp = Inr (nm', p) \<Longrightarrow>
     (\<not> jumped \<longrightarrow> pos < p \<and> p \<le> length buf) \<and> (jumped \<longrightarrow> p = sp)"
proof (induction buf nm pos jumped jumps sp rule: read_name_loop.induct)
  case (1 buf nm pos jumped jumps sp)
  show ?case
    using "1.prems"
    by (subst (asm) read_name_loop.simps)
      (auto simp: result_simps dest: "1.IH" split: if_splits)
qed

interpretation nm: wire_parser read_name
proof unfold_locales
  fix r x r' assume *: "read_name r = Inr (x, r')" and "reader_ok r"
  from * obtain q where q: "read_name_loop (rd_buf r) [] (rd_pos r) False 0 (rd_pos r) = Inr (x, q)"
    "r' = r\<lparr>rd_pos := q\<rparr>"
    by (auto simp: read_name_def result_simps)
  with read_name_loop_pos [OF q(1)] show "reader_le r r'" by (simp add: reader_le_def)
qed

section \<open>What a name read off the wire looks like\<close>

text \<open>A property of the accumulated name that every appended label keeps holds of the result.\<close>

lemma read_name_loop_acc:
  assumes "read_name_loop buf nm pos jumped jumps sp = Inr (nm', p)" "P nm"
    and step: "\<And>nm l. P nm \<Longrightarrow> valid_utf8 l \<Longrightarrow> length l \<le> 63 \<Longrightarrow>
      length ((if nm \<noteq> [] then nm @ [dot] else nm) @ l) \<le> MAX_NAME_LEN \<Longrightarrow>
      P ((if nm \<noteq> [] then nm @ [dot] else nm) @ l)"
  shows "P nm'"
  using assms(1,2)
proof (induction buf nm pos jumped jumps sp rule: read_name_loop.induct)
  case (1 buf nm pos jumped jumps sp)
  let ?l = "take (unat (buf ! pos)) (drop (pos + 1) buf)"
  let ?ext = "(if nm \<noteq> [] then nm @ [dot] else nm) @ ?l"
  note run = "1.prems"(1) [unfolded read_name_loop.simps [of buf nm pos]]
  show ?case
  proof (cases "buf ! pos = 0 \<or> buf ! pos AND 0xC0 = 0xC0")
    case True
    with run "1.prems"(2) "1.IH"(1) show ?thesis by (auto split: if_splits)
  next
    case False
    with run have guard: "\<not> jumps \<ge> MAX_JUMPS" "\<not> pos \<ge> length buf" "\<not> unat (buf ! pos) > 63"
      "\<not> pos + 1 + unat (buf ! pos) > length buf"
      by (auto split: if_splits)
    with run False have lab: "map_err InvalidUtf8 (from_utf8 ?l) = Inr ?l" "valid_utf8 ?l"
      "\<not> length ?ext > MAX_NAME_LEN"
      and rec: "read_name_loop buf ?ext (pos + 1 + unat (buf ! pos)) jumped jumps sp = Inr (nm', p)"
      by (auto simp: result_simps split: if_splits)
    have "P ?ext" using guard lab "1.prems"(2) by (intro step) auto
    with "1.IH"(2) [OF guard(1,2) _ _ guard(3,4) lab(1,3) rec] False show ?thesis by blast
  qed
qed

lemma read_name_loop_name:
  assumes "read_name_loop buf [] pos jumped jumps sp = Inr (nm', p)"
  shows "length nm' \<le> MAX_NAME_LEN \<and> valid_utf8 nm'"
  by (rule read_name_loop_acc [OF assms]) (auto simp: valid_utf8_dot)

lemma read_name_wf:
  "read_name r = Inr (nm, r') \<Longrightarrow> length nm \<le> MAX_NAME_LEN \<and> valid_utf8 nm"
  by (auto simp: read_name_def result_simps dest: read_name_loop_name)

lemma read_name_progress:
  "read_name r = Inr (nm, r') \<Longrightarrow> rd_pos r < rd_pos r'"
  by (auto simp: read_name_def result_simps dest!: read_name_loop_pos)

end
