(* ===== verification/Writer.thy ===== *)
theory Writer
  imports Reader
begin

text \<open>
  \<open>dnser-proto/src/writer.rs\<close>: the output buffer and the table of name suffixes already written,
  which \<open>write_name\<close> consults to emit compression pointers. A method is a function on the writer;
  only \<open>write_name\<close> can fail.

  The lemmas come in three layers: every operation only appends, and what it appends depends on the
  length of the buffer and on the table but not on the bytes before it; the relation \<open>name_at\<close>
  describes the names a buffer holds at a position, and \<open>read_name\<close> reads exactly those; and
  \<open>writer_inv\<close>, which every write keeps, says that the table points at such names.
\<close>

section \<open>State and operations\<close>

record writer =
  wr_buf :: bytes
  name_offsets :: "bytes \<rightharpoonup> u16"

definition writer_new :: writer where
  "writer_new = \<lparr>wr_buf = [], name_offsets = Map.empty\<rparr>"

definition wr_pos :: "writer \<Rightarrow> nat" where
  "wr_pos w = length (wr_buf w)"

definition write_bytes :: "bytes \<Rightarrow> writer \<Rightarrow> writer" where
  "write_bytes b w = w\<lparr>wr_buf := wr_buf w @ b\<rparr>"

definition write_u8 :: "u8 \<Rightarrow> writer \<Rightarrow> writer" where
  "write_u8 v w = w\<lparr>wr_buf := wr_buf w @ [v]\<rparr>"

definition write_u16 :: "u16 \<Rightarrow> writer \<Rightarrow> writer" where
  "write_u16 v w = w\<lparr>wr_buf := wr_buf w @ u16_to_be_bytes v\<rparr>"

definition write_u32 :: "u32 \<Rightarrow> writer \<Rightarrow> writer" where
  "write_u32 v w = w\<lparr>wr_buf := wr_buf w @ u32_to_be_bytes v\<rparr>"

definition reserve_u16 :: "writer \<Rightarrow> nat \<times> writer" where
  "reserve_u16 w = (length (wr_buf w), write_u16 0 w)"

definition backfill_u16 :: "nat \<Rightarrow> u16 \<Rightarrow> writer \<Rightarrow> writer" where
  "backfill_u16 p v w =
     w\<lparr>wr_buf := (wr_buf w)[p := u16_to_be_bytes v ! 0, p + 1 := u16_to_be_bytes v ! 1]\<rparr>"

text \<open>
  The loop of \<open>write_name\<close>: \<open>nm\<close> is the trimmed name, \<open>offset\<close> the start of the current label in
  it, the list holds the labels still to come. The suffix is registered before the label is checked,
  as in the source.
\<close>

fun write_name_loop :: "bytes \<Rightarrow> nat \<Rightarrow> bytes list \<Rightarrow> writer \<Rightarrow> write_error + writer" where
  "write_name_loop nm offset [] w = Inr (write_u8 0 w)"
| "write_name_loop nm offset (label # ls) w =
     (case name_offsets w (drop offset nm) of
        Some ptr \<Rightarrow> Inr (write_u16 (0xC000 OR ptr) w)
      | None \<Rightarrow>
         (let w1 = (if wr_pos w \<le> 0x3FFF
                    then w\<lparr>name_offsets := (name_offsets w)(drop offset nm \<mapsto> of_nat (wr_pos w))\<rparr>
                    else w)
          in if label = [] then Inl WEmptyLabel
             else if length label > 63 then Inl WLabelTooLong
             else write_name_loop nm (offset + length label + 1) ls
                    (write_bytes label (write_u8 (of_nat (length label)) w1))))"

definition write_name :: "bytes \<Rightarrow> writer \<Rightarrow> write_error + writer" where
  "write_name name w =
     (let nm = trim_end_dots name
      in if nm = [] then Inr (write_u8 0 w)
         else write_name_loop nm 0 (split_dots nm) w)"

definition finish :: "writer \<Rightarrow> bytes" where
  "finish w = wr_buf w"

definition into_inner :: "writer \<Rightarrow> bytes" where
  "into_inner w = wr_buf w"

lemmas write_defs = write_bytes_def write_u8_def write_u16_def write_u32_def wr_pos_def

section \<open>Writes append\<close>

text \<open>
  An append-only operation: it adds bytes at the end, and the bytes it adds and the table it leaves
  are the same for every buffer of the same length.
\<close>

definition appends :: "(writer \<Rightarrow> 'e + writer) \<Rightarrow> bool" where
  "appends f \<longleftrightarrow>
     (\<forall>b m w'. f \<lparr>wr_buf = b, name_offsets = m\<rparr> = Inr w' \<longrightarrow>
        (\<exists>out. wr_buf w' = b @ out \<and>
           (\<forall>c. length c = length b \<longrightarrow>
              f \<lparr>wr_buf = c, name_offsets = m\<rparr> = Inr \<lparr>wr_buf = c @ out, name_offsets = name_offsets w'\<rparr>)))"

lemma appendsE:
  assumes "appends f" "f w = Inr w'"
  obtains out where "wr_buf w' = wr_buf w @ out"
    and "\<And>c. length c = length (wr_buf w) \<Longrightarrow>
           f \<lparr>wr_buf = c, name_offsets = name_offsets w\<rparr>
             = Inr \<lparr>wr_buf = c @ out, name_offsets = name_offsets w'\<rparr>"
proof -
  have "f \<lparr>wr_buf = wr_buf w, name_offsets = name_offsets w\<rparr> = Inr w'"
    using assms(2) by (cases w) simp
  with assms(1) that show thesis unfolding appends_def by blast
qed

lemma appends_pure:
  "(\<And>w. g w = w\<lparr>wr_buf := wr_buf w @ out\<rparr>) \<Longrightarrow> appends (\<lambda>w. Inr (g w))"
  by (auto simp: appends_def)

lemma appends_fail: "appends (\<lambda>w. Inl e)"
  by (simp add: appends_def)

lemma appends_and_then:
  assumes "appends f" "appends g"
  shows "appends (\<lambda>w. and_then (f w) g)"
  unfolding appends_def
proof (intro allI impI)
  fix b m w'
  assume "and_then (f \<lparr>wr_buf = b, name_offsets = m\<rparr>) g = Inr w'"
  then obtain w1 where w1: "f \<lparr>wr_buf = b, name_offsets = m\<rparr> = Inr w1" "g w1 = Inr w'"
    by (auto simp: result_simps)
  obtain o1 where o1: "wr_buf w1 = b @ o1"
    "\<And>c. length c = length b \<Longrightarrow> f \<lparr>wr_buf = c, name_offsets = m\<rparr>
       = Inr \<lparr>wr_buf = c @ o1, name_offsets = name_offsets w1\<rparr>"
    using appendsE [OF assms(1) w1(1)] by auto
  obtain o2 where o2: "wr_buf w' = wr_buf w1 @ o2"
    "\<And>c. length c = length (wr_buf w1) \<Longrightarrow> g \<lparr>wr_buf = c, name_offsets = name_offsets w1\<rparr>
       = Inr \<lparr>wr_buf = c @ o2, name_offsets = name_offsets w'\<rparr>"
    using appendsE [OF assms(2) w1(2)] by auto
  show "\<exists>out. wr_buf w' = b @ out \<and> (\<forall>c. length c = length b \<longrightarrow>
      and_then (f \<lparr>wr_buf = c, name_offsets = m\<rparr>) g
        = Inr \<lparr>wr_buf = c @ out, name_offsets = name_offsets w'\<rparr>)"
    using o1 o2 by (intro exI [of _ "o1 @ o2"]) simp
qed

lemma appends_comp:
  "appends f \<Longrightarrow> (\<And>w. g w = w\<lparr>wr_buf := wr_buf w @ out\<rparr>) \<Longrightarrow> appends (\<lambda>w. f (g w))"
  using appends_and_then [OF appends_pure, of g out f] by simp

lemma appends_basic [intro]:
  "appends (\<lambda>w. Inr (write_u8 a w))"
  "appends (\<lambda>w. Inr (write_u16 b w))"
  "appends (\<lambda>w. Inr (write_u32 c w))"
  "appends (\<lambda>w. Inr (write_bytes d w))"
  by (auto simp: write_defs intro: appends_pure)

lemma appends_write_name_loop: "appends (write_name_loop nm offset ls)"
proof (induction ls arbitrary: offset)
  case Nil
  show ?case by (simp add: appends_basic)
next
  case (Cons l ls)
  show ?case
    unfolding appends_def
  proof (intro allI impI)
    fix b m w'
    assume *: "write_name_loop nm offset (l # ls) \<lparr>wr_buf = b, name_offsets = m\<rparr> = Inr w'"
    show "\<exists>out. wr_buf w' = b @ out \<and> (\<forall>c. length c = length b \<longrightarrow>
        write_name_loop nm offset (l # ls) \<lparr>wr_buf = c, name_offsets = m\<rparr>
          = Inr \<lparr>wr_buf = c @ out, name_offsets = name_offsets w'\<rparr>)"
    proof (cases "m (drop offset nm)")
      case (Some ptr)
      with * show ?thesis by (auto simp: write_defs)
    next
      case None
      define m1 where "m1 = (if length b \<le> 0x3FFF then m(drop offset nm \<mapsto> of_nat (length b)) else m)"
      have l: "l \<noteq> []" "\<not> length l > 63"
        using * None by (auto simp: Let_def split: if_splits)
      have unf: "write_name_loop nm offset (l # ls) \<lparr>wr_buf = c, name_offsets = m\<rparr>
          = write_name_loop nm (offset + length l + 1) ls
              \<lparr>wr_buf = c @ of_nat (length l) # l, name_offsets = m1\<rparr>"
        if "length c = length b" for c
        using None l that by (simp add: write_defs m1_def)
      have "write_name_loop nm (offset + length l + 1) ls
              \<lparr>wr_buf = b @ of_nat (length l) # l, name_offsets = m1\<rparr> = Inr w'"
        using * unf [of b] by simp
      from appendsE [OF Cons.IH this] obtain out where out:
        "wr_buf w' = (b @ of_nat (length l) # l) @ out"
        "\<And>c. length c = length (b @ of_nat (length l) # l :: bytes) \<Longrightarrow>
           write_name_loop nm (offset + length l + 1) ls \<lparr>wr_buf = c, name_offsets = m1\<rparr>
             = Inr \<lparr>wr_buf = c @ out, name_offsets = name_offsets w'\<rparr>"
        by auto
      show ?thesis
        by (intro exI [of _ "of_nat (length l) # l @ out"])
          (use out unf in simp)
    qed
  qed
qed

lemma appends_write_name [intro]: "appends (write_name nm)"
  unfolding write_name_def Let_def
  by (cases "trim_end_dots nm = []") (simp_all add: appends_write_name_loop appends_basic)

section \<open>Names in a buffer\<close>

text \<open>
  \<open>name_at buf p ls k e\<close>: from position \<open>p\<close> the buffer holds the labels \<open>ls\<close>, reached through \<open>k\<close>
  pointers; \<open>e\<close> is the first position behind the name at \<open>p\<close> itself.
\<close>

inductive name_at :: "bytes \<Rightarrow> nat \<Rightarrow> bytes list \<Rightarrow> nat \<Rightarrow> nat \<Rightarrow> bool" for buf where
  root: "p < length buf \<Longrightarrow> buf ! p = 0 \<Longrightarrow> name_at buf p [] 0 (p + 1)"
| label: "p < length buf \<Longrightarrow> unat (buf ! p) = length l \<Longrightarrow> 0 < length l \<Longrightarrow> length l \<le> 63 \<Longrightarrow>
    p + 1 + length l \<le> length buf \<Longrightarrow> take (length l) (drop (p + 1) buf) = l \<Longrightarrow>
    name_at buf (p + 1 + length l) ls k e \<Longrightarrow> name_at buf p (l # ls) k e"
| pointer: "p + 1 < length buf \<Longrightarrow> buf ! p AND 0xC0 = 0xC0 \<Longrightarrow>
    pointer_offset (buf ! p) (buf ! (p + 1)) = q \<Longrightarrow> q < length buf \<Longrightarrow>
    name_at buf q ls k e \<Longrightarrow> name_at buf p ls (Suc k) (p + 2)"

lemma name_at_append: "name_at buf p ls k e \<Longrightarrow> name_at (buf @ rest) p ls k e"
proof (induction rule: name_at.induct)
  case (root p)
  then show ?case by (intro name_at.root) (simp_all add: nth_append)
next
  case (label p l ls k e)
  then show ?case by (intro name_at.label) (simp_all add: nth_append)
next
  case (pointer p q ls k e)
  then show ?case by (intro name_at.pointer [where q = q]) (simp_all add: nth_append)
qed

lemma label_byte_not_pointer: "unat (b :: u8) \<le> 63 \<Longrightarrow> b AND 0xC0 \<noteq> 0xC0"
proof
  assume "unat b \<le> 63" "b AND 0xC0 = 0xC0"
  then have "unat (0xC0 :: u8) \<le> unat b" by (metis word_and_le2 word_le_nat_alt)
  with \<open>unat b \<le> 63\<close> show False by simp
qed

text \<open>What the loop of \<open>read_name\<close> accumulates.\<close>

definition extend_name :: "bytes \<Rightarrow> bytes list \<Rightarrow> bytes" where
  "extend_name acc ls = (if acc = [] then join_dots ls else if ls = [] then acc
     else acc @ dot # join_dots ls)"

lemma extend_name_Cons:
  "l \<noteq> [] \<Longrightarrow> extend_name ((if acc \<noteq> [] then acc @ [dot] else acc) @ l) ls = extend_name acc (l # ls)"
  by (auto simp: extend_name_def join_dots_Cons)

lemma length_extend_name_ge: "length acc \<le> length (extend_name acc ls)"
  by (auto simp: extend_name_def)

lemma read_name_loop_name_at:
  "name_at buf p ls k e \<Longrightarrow> jumps + k < MAX_JUMPS \<Longrightarrow> \<forall>l\<in>set ls. valid_utf8 l \<Longrightarrow>
     length (extend_name acc ls) \<le> MAX_NAME_LEN \<Longrightarrow>
     read_name_loop buf acc p jumped jumps sp
       = Inr (extend_name acc ls, if \<not> jumped then e else sp)"
proof (induction arbitrary: acc jumped jumps sp rule: name_at.induct)
  case (root p)
  then show ?case by (simp add: read_name_loop.simps extend_name_def)
next
  case (label p l ls k e)
  define acc' where "acc' = (if acc \<noteq> [] then acc @ [dot] else acc) @ l"
  have ext: "extend_name acc' ls = extend_name acc (l # ls)"
    unfolding acc'_def using label.hyps(3) by (intro extend_name_Cons) auto
  then have len: "length acc' \<le> MAX_NAME_LEN"
    using label.prems(3) length_extend_name_ge [of acc' ls] by simp
  have utf8: "from_utf8 l = Inr l"
    using label.prems(2) by (simp add: from_utf8_eq_Inr)
  have nz: "buf ! p \<noteq> 0" using label.hyps(2,3) by auto
  have "read_name_loop buf acc p jumped jumps sp
      = read_name_loop buf acc' (p + 1 + length l) jumped jumps sp"
    using label.hyps label.prems(1) len utf8 nz label_byte_not_pointer [of "buf ! p"]
    by (subst read_name_loop.simps) (auto simp: acc'_def)
  also have "\<dots> = Inr (extend_name acc' ls, if \<not> jumped then e else sp)"
    using label.prems ext by (intro label.IH) auto
  finally show ?case by (simp only: ext)
next
  case (pointer p q ls k e)
  have "buf ! p \<noteq> 0" using pointer.hyps(2) by auto
  then have "read_name_loop buf acc p jumped jumps sp
      = read_name_loop buf acc q True (jumps + 1) (if \<not> jumped then p + 2 else sp)"
    using pointer.hyps pointer.prems by (subst read_name_loop.simps) auto
  then show ?case using pointer.IH [of "jumps + 1" acc] pointer.prems by simp
qed

lemma read_name_at:
  assumes "name_at buf p ls k e" "k < MAX_JUMPS" "valid_utf8 (join_dots ls)"
    and "length (join_dots ls) \<le> MAX_NAME_LEN"
  shows "read_name \<lparr>rd_buf = buf, rd_pos = p\<rparr> = Inr (join_dots ls, \<lparr>rd_buf = buf, rd_pos = e\<rparr>)"
  using assms read_name_loop_name_at [OF assms(1), of 0 "[]" False p]
  by (simp add: read_name_def extend_name_def valid_utf8_join_dots)

section \<open>The table of written suffixes\<close>

text \<open>
  A suffix is well placed when the buffer holds its labels there, with fewer pointers than labels:
  a registered position starts with a label, so every jump is paid for by a label.
\<close>

definition suffix_at :: "bytes \<Rightarrow> bytes \<Rightarrow> u16 \<Rightarrow> bool" where
  "suffix_at buf s p \<longleftrightarrow> unat p \<le> 0x3FFF \<and> unat p < length buf \<and>
     (\<exists>k e. name_at buf (unat p) (split_dots s) k e \<and> k < length (split_dots s))"

definition writer_inv :: "writer \<Rightarrow> bool" where
  "writer_inv w \<longleftrightarrow> (\<forall>s p. name_offsets w s = Some p \<longrightarrow> suffix_at (wr_buf w) s p)"

lemma writer_inv_new [simp]: "writer_inv writer_new"
  by (simp add: writer_inv_def writer_new_def)

lemma wr_buf_new [simp]: "wr_buf writer_new = []"
  by (simp add: writer_new_def)

lemma suffix_at_append: "suffix_at buf s p \<Longrightarrow> suffix_at (buf @ rest) s p"
  unfolding suffix_at_def by (auto dest: name_at_append)

lemma writer_inv_append:
  "writer_inv w \<Longrightarrow> writer_inv (w\<lparr>wr_buf := wr_buf w @ out\<rparr>)"
  by (auto simp: writer_inv_def intro: suffix_at_append)

lemma writer_inv_basic [simp, intro]:
  "writer_inv w \<Longrightarrow> writer_inv (write_u8 a w)"
  "writer_inv w \<Longrightarrow> writer_inv (write_u16 b w)"
  "writer_inv w \<Longrightarrow> writer_inv (write_u32 c w)"
  "writer_inv w \<Longrightarrow> writer_inv (write_bytes d w)"
  by (simp_all add: write_defs writer_inv_append)

lemma pointer_tag: "ucast (0xC0 OR drop_bit 8 (ptr :: u16)) AND (0xC0 :: u8) = 0xC0"
  by (rule bit_word_eqI) (auto simp: bit_simps)

lemma pointer_roundtrip:
  assumes "unat (ptr :: u16) \<le> 0x3FFF"
  shows "pointer_offset (ucast (0xC0 OR drop_bit 8 ptr)) (ucast (0xC000 OR ptr)) = unat ptr"
proof (rule bit_eqI)
  fix n
  have hi: "n < 14" if "bit ptr n"
  proof -
    have "take_bit 14 (unat ptr) = unat ptr" using assms by (intro take_bit_nat_eq_self) simp
    with that show ?thesis by (metis bit_take_bit_iff bit_unsigned_iff bit_imp_possible_bit possible_bit_nat)
  qed
  have tags: "(0x3F :: u8) = mask 6" "(0xC0 :: u16) = push_bit 6 (mask 2)"
    "(0xC000 :: u16) = push_bit 14 (mask 2)"
    by (simp_all add: mask_eq_decr_exp)
  show "bit (pointer_offset (ucast (0xC0 OR drop_bit 8 ptr)) (ucast (0xC000 OR ptr))) n
      \<longleftrightarrow> bit (unat ptr) n"
    unfolding pointer_offset_def tags
    using hi by (cases "n < 8") (auto simp: bit_simps simp del: push_bit_numeral push_bit_mask_eq)
qed

lemma name_at_pointer_written:
  assumes "suffix_at buf s ptr"
  shows "\<exists>k. k \<le> length (split_dots s) \<and>
    name_at (buf @ u16_to_be_bytes (0xC000 OR ptr)) (length buf) (split_dots s) k (length buf + 2)"
proof -
  from assms obtain k e where k: "name_at buf (unat ptr) (split_dots s) k e" "k < length (split_dots s)"
    and ptr: "unat ptr \<le> 0x3FFF" "unat ptr < length buf"
    by (auto simp: suffix_at_def)
  have "name_at (buf @ u16_to_be_bytes (0xC000 OR ptr)) (length buf) (split_dots s) (Suc k) (length buf + 2)"
    using ptr k(1)
    by (intro name_at.pointer [where q = "unat ptr" and e = e])
      (simp_all add: u16_to_be_bytes_def nth_append pointer_tag pointer_roundtrip name_at_append)
  with k(2) show ?thesis by (meson Suc_leI)
qed

text \<open>
  The loop, from any point of the name. Suffixes longer than what is left to write may already be in
  the table without being in the buffer yet; the caller has registered them and completes them.
\<close>

lemma write_name_loop_correct:
  assumes "write_name_loop nm off ls w = Inr w'"
    and "drop off nm = join_dots ls" "\<forall>l\<in>set ls. dot \<notin> set l"
    and "\<forall>s p. name_offsets w s = Some p \<longrightarrow> length s \<le> length (join_dots ls) \<longrightarrow>
           suffix_at (wr_buf w) s p"
  shows "(\<exists>k. k \<le> length ls \<and> name_at (wr_buf w') (length (wr_buf w)) ls k (length (wr_buf w')))
    \<and> (\<forall>s p. name_offsets w' s = Some p \<longrightarrow> name_offsets w s = Some p \<or> suffix_at (wr_buf w') s p)"
  using assms
proof (induction ls arbitrary: off w)
  case Nil
  have "name_at (wr_buf w @ [0]) (length (wr_buf w)) [] 0 (length (wr_buf w) + 1)"
    by (rule name_at.root) simp_all
  with Nil show ?case by (auto simp: write_u8_def)
next
  case (Cons l ls)
  have split: "split_dots (join_dots (l # ls)) = l # ls"
    using Cons.prems(3) by (intro split_join_dots) auto
  show ?case
  proof (cases "name_offsets w (drop off nm)")
    case (Some ptr)
    then have "suffix_at (wr_buf w) (join_dots (l # ls)) ptr"
      using Cons.prems(2,4) by simp
    from name_at_pointer_written [OF this] show ?thesis
      using Some Cons.prems(1-3) split by (auto simp: write_u16_def)
  next
    case None
    define w1 where "w1 =
      (if wr_pos w \<le> 0x3FFF
       then w\<lparr>name_offsets := (name_offsets w)(drop off nm \<mapsto> of_nat (wr_pos w))\<rparr> else w)
        \<lparr>wr_buf := wr_buf w @ of_nat (length l) # l\<rparr>"
    have l: "l \<noteq> []" "length l \<le> 63" and rec: "write_name_loop nm (off + length l + 1) ls w1 = Inr w'"
      using Cons.prems(1) None
      by (auto simp: w1_def write_defs Let_def split: if_splits)
    have "drop (off + length l + 1) nm = drop (length l + 1) (join_dots (l # ls))"
      using Cons.prems(2) by (metis drop_drop add.assoc add.commute)
    then have drop: "drop (off + length l + 1) nm = join_dots ls"
      by (simp add: join_dots_Cons)
    have shorter: "length (join_dots ls) < length (join_dots (l # ls))"
      using l by (simp add: join_dots_Cons)
    have "\<forall>s p. name_offsets w1 s = Some p \<longrightarrow> length s \<le> length (join_dots ls) \<longrightarrow>
        suffix_at (wr_buf w1) s p"
      using Cons.prems(2,4) shorter by (auto simp: w1_def suffix_at_append split: if_splits)
    from Cons.IH [OF rec drop _ this] Cons.prems(3) obtain k where
      k: "k \<le> length ls" "name_at (wr_buf w') (length (wr_buf w1)) ls k (length (wr_buf w'))"
      and tab: "\<forall>s p. name_offsets w' s = Some p \<longrightarrow> name_offsets w1 s = Some p \<or> suffix_at (wr_buf w') s p"
      by auto
    obtain out where out: "wr_buf w' = wr_buf w1 @ out"
      using appendsE [OF appends_write_name_loop rec] by blast
    have here: "name_at (wr_buf w') (length (wr_buf w)) (l # ls) k (length (wr_buf w'))"
      using k(2) l out by (intro name_at.label) (simp_all add: w1_def nth_append unat_of_nat_u8)
    have "suffix_at (wr_buf w') (drop off nm) (of_nat (wr_pos w))" if "wr_pos w \<le> 0x3FFF"
      using that here k(1) out Cons.prems(2,3) split
      by (auto simp: suffix_at_def unat_of_nat_u16 wr_pos_def w1_def)
    then show ?thesis using here k(1) tab
      by (intro conjI exI [of _ k]) (auto simp: w1_def split: if_splits)
  qed
qed

section \<open>Names that have a wire form\<close>

definition wf_name :: "bytes \<Rightarrow> bool" where
  "wf_name n \<longleftrightarrow> length n \<le> MAX_NAME_LEN \<and> valid_utf8 n \<and>
     (n = [] \<or> (\<forall>l\<in>set (split_dots n). l \<noteq> [] \<and> length l \<le> 63))"

lemma split_dots_snoc: "split_dots (t @ [dot]) = split_dots t @ [[]]"
  by (induction t) (auto split: list.splits)

lemma split_dots_snoc_dot: "s \<noteq> [] \<Longrightarrow> last s = dot \<Longrightarrow> [] \<in> set (split_dots s)"
  using split_dots_snoc [of "butlast s"] by (metis append_butlast_last_id in_set_conv_decomp)

lemma wf_name_trim: "wf_name n \<Longrightarrow> trim_end_dots n = n"
  using split_dots_snoc_dot [of n] by (intro trim_end_dots_id) (auto simp: wf_name_def)

lemma write_name_loop_ok:
  "\<forall>l\<in>set ls. l \<noteq> [] \<and> length l \<le> 63 \<Longrightarrow> \<exists>w'. write_name_loop nm off ls w = Inr w'"
  by (induction ls arbitrary: off w) (auto simp: Let_def not_less split: option.splits)

lemma write_name_ok: "wf_name n \<Longrightarrow> \<exists>w'. write_name n w = Inr w'"
  using write_name_loop_ok [of "split_dots n" n 0]
  by (auto simp: write_name_def wf_name_trim Let_def) (auto simp: wf_name_def)

lemma write_name_loop_length:
  "write_name_loop nm off ls w = Inr w' \<Longrightarrow>
     length (wr_buf w') \<le> length (wr_buf w) + (if ls = [] then 1 else length (join_dots ls) + 2)"
proof (induction ls arbitrary: off w)
  case Nil
  then show ?case by (auto simp: write_u8_def)
next
  case (Cons l ls)
  show ?case
  proof (cases "name_offsets w (drop off nm)")
    case (Some ptr)
    with Cons.prems show ?thesis by (auto simp: write_u16_def)
  next
    case None
    then obtain w1 where "write_name_loop nm (off + length l + 1) ls w1 = Inr w'"
      "length (wr_buf w1) = length (wr_buf w) + 1 + length l"
      using Cons.prems
      by (cases "wr_pos w \<le> 0x3FFF") (force simp: write_defs Let_def split: if_splits)+
    from Cons.IH [OF this(1)] this(2) show ?thesis
      by (simp add: length_join_dots_Cons split: if_splits)
  qed
qed

lemma write_name_length:
  "write_name n w = Inr w' \<Longrightarrow> length (wr_buf w') \<le> length (wr_buf w) + length n + 2"
  using length_trim_end_dots [of n]
  by (auto simp: write_name_def write_u8_def Let_def dest!: write_name_loop_length split: if_splits)

lemma wf_name_labels:
  assumes "wf_name n" "n \<noteq> []"
  shows "length (split_dots n) < MAX_JUMPS"
proof -
  have "2 * length (split_dots n) \<le> length (join_dots (split_dots n)) + 1"
    using assms by (intro length_join_dots_ge) (auto simp: wf_name_def)
  with assms(1) show ?thesis by (simp add: wf_name_def MAX_NAME_LEN_def MAX_JUMPS_def)
qed

text \<open>A name just written can be read back at the place it was written, whatever follows it.\<close>

lemma write_name_correct:
  assumes "write_name n w = Inr w'" "wf_name n" "writer_inv w"
  shows "writer_inv w'"
    and "read_name \<lparr>rd_buf = wr_buf w' @ rest, rd_pos = length (wr_buf w)\<rparr>
      = Inr (n, \<lparr>rd_buf = wr_buf w' @ rest, rd_pos = length (wr_buf w')\<rparr>)"
proof -
  let ?ls = "if n = [] then [] else split_dots n"
  have "(\<exists>k. k \<le> length ?ls \<and> name_at (wr_buf w') (length (wr_buf w)) ?ls k (length (wr_buf w')))
    \<and> (\<forall>s p. name_offsets w' s = Some p \<longrightarrow> name_offsets w s = Some p \<or> suffix_at (wr_buf w') s p)"
  proof (rule write_name_loop_correct [of n 0])
    show "write_name_loop n 0 ?ls w = Inr w'"
      using assms(1) wf_name_trim [OF assms(2)] by (auto simp: write_name_def split: if_splits)
    show "\<forall>l\<in>set ?ls. dot \<notin> set l" using split_dots_no_dot by auto
    show "\<forall>s p. name_offsets w s = Some p \<longrightarrow> length s \<le> length (join_dots ?ls) \<longrightarrow> suffix_at (wr_buf w) s p"
      using assms(3) by (simp add: writer_inv_def)
  qed simp
  then obtain k where k: "k \<le> length ?ls" "name_at (wr_buf w') (length (wr_buf w)) ?ls k (length (wr_buf w'))"
    and tab: "\<forall>s p. name_offsets w' s = Some p \<longrightarrow> name_offsets w s = Some p \<or> suffix_at (wr_buf w') s p"
    by blast
  obtain out where "wr_buf w' = wr_buf w @ out" using appendsE [OF appends_write_name assms(1)] .
  with tab assms(3) show "writer_inv w'"
    unfolding writer_inv_def by (metis suffix_at_append)
  have "k < MAX_JUMPS" using k(1) wf_name_labels [OF assms(2)] by (auto simp: MAX_JUMPS_def split: if_splits)
  moreover have "join_dots ?ls = n" by simp
  ultimately show "read_name \<lparr>rd_buf = wr_buf w' @ rest, rd_pos = length (wr_buf w)\<rparr>
      = Inr (n, \<lparr>rd_buf = wr_buf w' @ rest, rd_pos = length (wr_buf w')\<rparr>)"
    using read_name_at [OF name_at_append [OF k(2)]] assms(2) by (simp add: wf_name_def)
qed

end
