(* ===== verification/Codec.thy ===== *)
theory Codec
  imports Writer
begin

text \<open>
  The contract between a \<open>write\<close> method and the \<open>parse\<close> function of the same type. A value in the
  domain \<open>wf\<close> is always written, writing appends and keeps the table of suffixes sound, and the
  parser started where the value was written returns it and stops behind it, whatever follows.
  \<open>parse_section\<close> (from \<open>message.rs\<close>) and the loop that writes a section are clients of the
  interface: the round trip of a whole section is proved once, in the locale.
\<close>

section \<open>Fixed-width fields\<close>

abbreviation reader_at :: "bytes \<Rightarrow> nat \<Rightarrow> reader" where
  "reader_at b p \<equiv> \<lparr>rd_buf = b, rd_pos = p\<rparr>"

lemma read_u8_written:
  "read_u8 (reader_at (pre @ v # rest) (length pre)) = Inr (v, reader_at (pre @ v # rest) (length pre + 1))"
  by (simp add: read_u8_def)

lemma read_u16_written:
  "read_u16 (reader_at (pre @ u16_to_be_bytes v @ rest) (length pre))
     = Inr (v, reader_at (pre @ u16_to_be_bytes v @ rest) (length pre + 2))"
  by (simp add: read_u16_def nth_append u16_to_be_bytes_def be_simps)

lemma read_u32_written:
  "read_u32 (reader_at (pre @ u32_to_be_bytes v @ rest) (length pre))
     = Inr (v, reader_at (pre @ u32_to_be_bytes v @ rest) (length pre + 4))"
  by (simp add: read_u32_def nth_append u32_to_be_bytes_def be_simps)

lemma read_bytes_written:
  "n = length d \<Longrightarrow> read_bytes n (reader_at (pre @ d @ rest) (length pre))
     = Inr (d, reader_at (pre @ d @ rest) (length pre + n))"
  by (simp add: read_bytes_def)

section \<open>Sections\<close>

fun parse_section ::
    "(reader \<Rightarrow> parse_error + 'a \<times> reader) \<Rightarrow> nat \<Rightarrow> reader \<Rightarrow> parse_error + 'a list \<times> reader" where
  "parse_section p 0 r = Inr ([], r)"
| "parse_section p (Suc n) r =
     and_then (p r) (\<lambda>(x, r). and_then (parse_section p n r) (\<lambda>(xs, r). Inr (x # xs, r)))"

fun write_section :: "('a \<Rightarrow> writer \<Rightarrow> write_error + writer) \<Rightarrow> 'a list \<Rightarrow> writer \<Rightarrow> write_error + writer" where
  "write_section f [] w = Inr w"
| "write_section f (x # xs) w = and_then (f x w) (write_section f xs)"

lemma parse_section_length: "parse_section p n r = Inr (xs, r') \<Longrightarrow> length xs = n"
  by (induction p n r arbitrary: xs r' rule: parse_section.induct) (auto simp: result_simps)

lemma parse_section_elems:
  "parse_section p n r = Inr (xs, r') \<Longrightarrow> x \<in> set xs \<Longrightarrow> \<exists>s s'. p s = Inr (x, s')"
proof (induction n arbitrary: r xs r')
  case (Suc n)
  then obtain y s ys where "p r = Inr (y, s)" "parse_section p n s = Inr (ys, r')" "xs = y # ys"
    by (auto simp: result_simps)
  with Suc show ?case by auto
qed simp

lemma appends_write_section: "(\<And>x. appends (f x)) \<Longrightarrow> appends (write_section f xs)"
proof (induction xs)
  case Nil
  have "appends (\<lambda>w. Inr w)" by (rule appends_pure [of _ "[]"]) simp
  then show ?case by (simp add: fun_eq_iff)
next
  case (Cons x xs)
  then have "appends (\<lambda>w. and_then (f x w) (write_section f xs))" by (intro appends_and_then) auto
  moreover have "write_section f (x # xs) = (\<lambda>w. and_then (f x w) (write_section f xs))"
    by (simp add: fun_eq_iff)
  ultimately show ?case by simp
qed

context wire_parser
begin

lemma section_advances:
  "parse_section p n r = Inr (xs, r') \<Longrightarrow> reader_ok r \<Longrightarrow> reader_le r r'"
proof (induction n arbitrary: r xs r')
  case 0
  then show ?case by (simp add: reader_le_refl)
next
  case (Suc n)
  then obtain x s ys where "p r = Inr (x, s)" "parse_section p n s = Inr (ys, r')"
    by (auto simp: result_simps)
  with Suc show ?case by (blast intro: reader_le_trans advances keeps_ok)
qed

end

section \<open>The codec interface\<close>

locale wire_codec = wire_parser parse
  for parse :: "reader \<Rightarrow> parse_error + 'a \<times> reader" +
  fixes put :: "'a \<Rightarrow> writer \<Rightarrow> write_error + writer"
    and wf :: "'a \<Rightarrow> bool"
  assumes write_appends: "appends (put x)"
    and write_ok: "wf x \<Longrightarrow> \<exists>w'. put x w = Inr w'"
    and write_inv: "wf x \<Longrightarrow> writer_inv w \<Longrightarrow> put x w = Inr w' \<Longrightarrow> writer_inv w'"
    and parse_written: "wf x \<Longrightarrow> writer_inv w \<Longrightarrow> put x w = Inr w' \<Longrightarrow>
      parse (reader_at (wr_buf w' @ rest) (length (wr_buf w)))
        = Inr (x, reader_at (wr_buf w' @ rest) (length (wr_buf w')))"
begin

lemma section_write_ok: "\<forall>x\<in>set xs. wf x \<Longrightarrow> \<exists>w'. write_section put xs w = Inr w'"
proof (induction xs arbitrary: w)
  case (Cons x xs)
  then obtain w1 where "put x w = Inr w1" using write_ok [of x w] by auto
  with Cons show ?case by auto
qed simp

lemma section_write_inv:
  "\<forall>x\<in>set xs. wf x \<Longrightarrow> writer_inv w \<Longrightarrow> write_section put xs w = Inr w' \<Longrightarrow> writer_inv w'"
  by (induction xs arbitrary: w) (auto simp: result_simps intro: write_inv)

lemma section_parse_written:
  "\<forall>x\<in>set xs. wf x \<Longrightarrow> writer_inv w \<Longrightarrow> write_section put xs w = Inr w' \<Longrightarrow>
     parse_section parse (length xs) (reader_at (wr_buf w' @ rest) (length (wr_buf w)))
       = Inr (xs, reader_at (wr_buf w' @ rest) (length (wr_buf w')))"
proof (induction xs arbitrary: w)
  case Nil
  then show ?case by simp
next
  case (Cons x xs)
  then obtain w1 where w1: "put x w = Inr w1" "write_section put xs w1 = Inr w'"
    by (auto simp: result_simps)
  have inv: "writer_inv w1" using Cons.prems w1 by (auto intro: write_inv)
  obtain out where out: "wr_buf w' = wr_buf w1 @ out"
    using appendsE [OF appends_write_section [OF write_appends] w1(2)] .
  have "parse (reader_at (wr_buf w1 @ out @ rest) (length (wr_buf w)))
      = Inr (x, reader_at (wr_buf w1 @ out @ rest) (length (wr_buf w1)))"
    using Cons.prems w1(1) by (intro parse_written) auto
  with Cons.IH [OF _ inv w1(2)] Cons.prems(1) show ?case by (simp add: out)
qed

end

interpretation nm: wire_codec read_name write_name wf_name
  by unfold_locales
    (blast intro: appends_write_name write_name_ok write_name_correct)+

section \<open>Reading behind later writes\<close>

text \<open>
  \<open>extends w w'\<close>: \<open>w'\<close> has the bytes of \<open>w\<close> and perhaps more. A field written into \<open>w\<close> is read
  back from every extension, which lets the fields of a record be checked one after the other.
\<close>

definition extends :: "writer \<Rightarrow> writer \<Rightarrow> bool" where
  "extends w w' \<longleftrightarrow> (\<exists>out. wr_buf w' = wr_buf w @ out)"

lemma extends_refl [simp, intro]: "extends w w"
  by (simp add: extends_def)

lemma extends_trans [trans]: "extends w1 w2 \<Longrightarrow> extends w2 w3 \<Longrightarrow> extends w1 w3"
  by (auto simp: extends_def)

lemma extends_basic [intro]:
  "extends w (write_u8 a w)" "extends w (write_u16 b w)" "extends w (write_u32 c w)"
  "extends w (write_bytes d w)"
  by (simp_all add: extends_def write_defs)

lemma appends_extends: "appends f \<Longrightarrow> f w = Inr w' \<Longrightarrow> extends w w'"
  by (auto simp: extends_def elim!: appendsE)

lemma read_u16_extends:
  "extends (write_u16 v w) w' \<Longrightarrow>
     read_u16 (reader_at (wr_buf w' @ rest) (length (wr_buf w)))
       = Inr (v, reader_at (wr_buf w' @ rest) (length (wr_buf (write_u16 v w))))"
  using read_u16_written [of "wr_buf w" v] by (auto simp: extends_def write_u16_def)

lemma read_u32_extends:
  "extends (write_u32 v w) w' \<Longrightarrow>
     read_u32 (reader_at (wr_buf w' @ rest) (length (wr_buf w)))
       = Inr (v, reader_at (wr_buf w' @ rest) (length (wr_buf (write_u32 v w))))"
  using read_u32_written [of "wr_buf w" v] by (auto simp: extends_def write_u32_def)

lemma read_name_extends:
  "write_name n w = Inr w1 \<Longrightarrow> wf_name n \<Longrightarrow> writer_inv w \<Longrightarrow> extends w1 w' \<Longrightarrow>
     read_name (reader_at (wr_buf w' @ rest) (length (wr_buf w)))
       = Inr (n, reader_at (wr_buf w' @ rest) (length (wr_buf w1)))"
  using nm.parse_written [of n w w1] by (auto simp: extends_def)

end
