(* ===== verification/Header.thy ===== *)
theory Header
  imports Codec
begin

text \<open>
  \<open>dnser-proto/src/header.rs\<close> and \<open>question.rs\<close>: the twelve-byte header with its flag accessors,
  \<open>Header::reply_to\<close>, and the entries of the question section. Both types meet the codec interface.
\<close>

section \<open>Header\<close>

record header =
  h_id :: u16
  h_flags :: u16
  qd_count :: u16
  an_count :: u16
  ns_count :: u16
  ar_count :: u16

definition header_default :: header where
  "header_default = \<lparr>h_id = 0, h_flags = 0, qd_count = 0, an_count = 0, ns_count = 0, ar_count = 0\<rparr>"

definition H_QR :: u16 where "H_QR = 0x8000"
definition H_OPCODE :: u16 where "H_OPCODE = 0x7800"
definition H_AA :: u16 where "H_AA = 0x0400"
definition H_TC :: u16 where "H_TC = 0x0200"
definition H_RD :: u16 where "H_RD = 0x0100"
definition H_RA :: u16 where "H_RA = 0x0080"
definition H_Z :: u16 where "H_Z = 0x0040"
definition H_AD :: u16 where "H_AD = 0x0020"
definition H_CD :: u16 where "H_CD = 0x0010"
definition H_RCODE :: u16 where "H_RCODE = 0x000F"

lemmas flag_defs = H_QR_def H_OPCODE_def H_AA_def H_TC_def H_RD_def H_RA_def H_Z_def H_AD_def
  H_CD_def H_RCODE_def

definition is_response :: "header \<Rightarrow> bool" where "is_response h \<longleftrightarrow> h_flags h AND H_QR \<noteq> 0"
definition is_query :: "header \<Rightarrow> bool" where "is_query h \<longleftrightarrow> h_flags h AND H_QR = 0"
definition is_authoritative :: "header \<Rightarrow> bool" where "is_authoritative h \<longleftrightarrow> h_flags h AND H_AA \<noteq> 0"
definition is_truncated :: "header \<Rightarrow> bool" where "is_truncated h \<longleftrightarrow> h_flags h AND H_TC \<noteq> 0"
definition recursion_desired :: "header \<Rightarrow> bool" where
  "recursion_desired h \<longleftrightarrow> h_flags h AND H_RD \<noteq> 0"
definition recursion_available :: "header \<Rightarrow> bool" where
  "recursion_available h \<longleftrightarrow> h_flags h AND H_RA \<noteq> 0"
definition authentic_data :: "header \<Rightarrow> bool" where "authentic_data h \<longleftrightarrow> h_flags h AND H_AD \<noteq> 0"
definition checking_disabled :: "header \<Rightarrow> bool" where
  "checking_disabled h \<longleftrightarrow> h_flags h AND H_CD \<noteq> 0"

definition header_opcode :: "header \<Rightarrow> u8 + opcode" where
  "header_opcode h = opcode_try_from (ucast (drop_bit 11 (h_flags h AND H_OPCODE)))"

definition header_rcode :: "header \<Rightarrow> u8 + rcode" where
  "header_rcode h = rcode_try_from (ucast (h_flags h AND H_RCODE))"

definition reply_to :: "header \<Rightarrow> u16 \<Rightarrow> header" where
  "reply_to query extra_flags = header_default
     \<lparr>h_id := h_id query,
      h_flags := H_QR OR extra_flags OR (h_flags query AND H_RD),
      qd_count := qd_count query\<rparr>"

definition header_parse :: "reader \<Rightarrow> parse_error + header \<times> reader" where
  "header_parse r =
     and_then (read_u16 r) (\<lambda>(i, r).
     and_then (read_u16 r) (\<lambda>(fl, r).
     if fl AND H_Z \<noteq> 0 then Inl ReservedBitSet
     else
     and_then (read_u16 r) (\<lambda>(qd, r).
     and_then (read_u16 r) (\<lambda>(an, r).
     and_then (read_u16 r) (\<lambda>(ns, r).
     and_then (read_u16 r) (\<lambda>(ar, r).
     Inr (\<lparr>h_id = i, h_flags = fl, qd_count = qd, an_count = an, ns_count = ns, ar_count = ar\<rparr>, r)))))))"

definition header_write :: "header \<Rightarrow> writer \<Rightarrow> writer" where
  "header_write h w =
     (let w = write_u16 (h_id h) w;
          w = write_u16 (h_flags h) w;
          w = write_u16 (qd_count h) w;
          w = write_u16 (an_count h) w;
          w = write_u16 (ns_count h) w
      in write_u16 (ar_count h) w)"

subsection \<open>Flags as bits\<close>

lemma flag_bit:
  "(w AND H_QR = 0) \<longleftrightarrow> \<not> bit w 15" "(w AND H_AA = 0) \<longleftrightarrow> \<not> bit w 10"
  "(w AND H_TC = 0) \<longleftrightarrow> \<not> bit w 9" "(w AND H_RD = 0) \<longleftrightarrow> \<not> bit w 8"
  "(w AND H_RA = 0) \<longleftrightarrow> \<not> bit w 7" "(w AND H_Z = 0) \<longleftrightarrow> \<not> bit w 6"
  "(w AND H_AD = 0) \<longleftrightarrow> \<not> bit w 5" "(w AND H_CD = 0) \<longleftrightarrow> \<not> bit w 4"
proof -
  have *: "(w AND f = 0) \<longleftrightarrow> \<not> bit w n" if "f = push_bit n 1" for f :: u16 and n
    using that bit_iff_and_push_bit_not_eq_0 [of w n] by simp
  show "(w AND H_QR = 0) \<longleftrightarrow> \<not> bit w 15" "(w AND H_AA = 0) \<longleftrightarrow> \<not> bit w 10"
    "(w AND H_TC = 0) \<longleftrightarrow> \<not> bit w 9" "(w AND H_RD = 0) \<longleftrightarrow> \<not> bit w 8"
    "(w AND H_RA = 0) \<longleftrightarrow> \<not> bit w 7" "(w AND H_Z = 0) \<longleftrightarrow> \<not> bit w 6"
    "(w AND H_AD = 0) \<longleftrightarrow> \<not> bit w 5" "(w AND H_CD = 0) \<longleftrightarrow> \<not> bit w 4"
    by (rule *, simp add: flag_defs)+
qed

lemmas flag_bits = is_response_def is_query_def is_authoritative_def is_truncated_def
  recursion_desired_def recursion_available_def authentic_data_def checking_disabled_def flag_bit

lemma query_or_response: "is_query h \<longleftrightarrow> \<not> is_response h"
  by (simp add: is_query_def is_response_def)

subsection \<open>Replies\<close>

lemma reply_to_sel [simp]:
  "h_id (reply_to q x) = h_id q" "qd_count (reply_to q x) = qd_count q"
  "an_count (reply_to q x) = 0" "ns_count (reply_to q x) = 0" "ar_count (reply_to q x) = 0"
  "h_flags (reply_to q x) = H_QR OR x OR (h_flags q AND H_RD)"
  by (simp_all add: reply_to_def header_default_def)

lemma bit_single: "f = push_bit m 1 \<Longrightarrow> m < 16 \<Longrightarrow> bit (f :: u16) n \<longleftrightarrow> n = m"
  by (auto simp: bit_simps bit_1_iff)

lemma bit_reply_flags:
  "bit (H_QR OR x OR (f AND H_RD)) n \<longleftrightarrow> n = 15 \<or> bit x n \<or> n = 8 \<and> bit f 8"
proof -
  have "bit H_QR n \<longleftrightarrow> n = 15" "bit H_RD n \<longleftrightarrow> n = 8"
    by (rule bit_single; simp add: flag_defs)+
  then show ?thesis by (auto simp: bit_simps)
qed

subsection \<open>Codec\<close>

lemma header_write_buf:
  "wr_buf (header_write h w) = wr_buf w @ u16_to_be_bytes (h_id h) @ u16_to_be_bytes (h_flags h)
     @ u16_to_be_bytes (qd_count h) @ u16_to_be_bytes (an_count h) @ u16_to_be_bytes (ns_count h)
     @ u16_to_be_bytes (ar_count h)"
  "name_offsets (header_write h w) = name_offsets w"
  by (simp_all add: header_write_def write_u16_def Let_def)

lemma length_header_write: "length (wr_buf (header_write h w)) = length (wr_buf w) + 12"
  by (simp add: header_write_buf)

definition wf_header :: "header \<Rightarrow> bool" where
  "wf_header h \<longleftrightarrow> h_flags h AND H_Z = 0"

interpretation hd: wire_codec header_parse "\<lambda>h w. Inr (header_write h w)" wf_header
proof unfold_locales
  show "reader_le r r'" if "header_parse r = Inr (x, r')" "reader_ok r" for r x r'
    using that
    by (auto simp: header_parse_def result_simps read_u16_def reader_le_def split: if_splits)
  show "appends (\<lambda>w. Inr (header_write x w))" for x
    by (rule appends_pure) (simp add: header_write_def write_u16_def Let_def)
  show "\<exists>w'. Inr (header_write x w) = Inr w'" for x w by simp
  show "writer_inv w'" if "writer_inv w" "Inr (header_write x w) = Inr w'" for x w w'
    using that by (auto simp: header_write_def Let_def)
  show "header_parse (reader_at (wr_buf w' @ rest) (length (wr_buf w)))
      = Inr (x, reader_at (wr_buf w' @ rest) (length (wr_buf w')))"
    if "wf_header x" "Inr (header_write x w) = Inr w'" for x w w' rest
    using that
    by (auto simp: header_write_buf header_parse_def read_u16_def u16_to_be_bytes_def nth_append
        wf_header_def be_simps)
qed

lemma header_parse_wf: "header_parse r = Inr (h, r') \<Longrightarrow> wf_header h"
  by (auto simp: header_parse_def result_simps wf_header_def split: if_splits)

section \<open>Question\<close>

record question =
  q_name :: bytes
  qtype :: record_type
  qclass :: dns_class

definition question_parse :: "reader \<Rightarrow> parse_error + question \<times> reader" where
  "question_parse r =
     and_then (read_name r) (\<lambda>(name, r).
     and_then (read_u16 r) (\<lambda>(t, r).
     and_then (map_err UnknownRecordType (record_type_try_from t)) (\<lambda>qtype.
     and_then (read_u16 r) (\<lambda>(qclass_raw, r).
     let qclass = class_from_u16 qclass_raw
     in if \<not> class_is_known qclass then Inl (UnknownClass qclass_raw)
        else Inr (\<lparr>q_name = name, qtype = qtype, qclass = qclass\<rparr>, r)))))"

definition question_write :: "question \<Rightarrow> writer \<Rightarrow> write_error + writer" where
  "question_write q w =
     and_then (write_name (q_name q) w) (\<lambda>w.
     let w = write_u16 (record_type_val (qtype q)) w
     in Inr (write_u16 (u16_from_class (qclass q)) w))"

definition wf_question :: "question \<Rightarrow> bool" where
  "wf_question q \<longleftrightarrow> wf_name (q_name q) \<and> class_is_known (qclass q)"

lemma read_u16_advances:
  "read_u16 r = Inr (v, r') \<Longrightarrow> reader_ok r \<Longrightarrow> reader_le r r' \<and> reader_ok r'"
  by (blast intro: u16.advances u16.keeps_ok)

lemma question_write_length:
  "question_write q w = Inr w' \<Longrightarrow> length (wr_buf w') \<le> length (wr_buf w) + length (q_name q) + 6"
  by (auto simp: question_write_def result_simps write_u16_def dest!: write_name_length)

interpretation qu: wire_codec question_parse question_write wf_question
proof unfold_locales
  show "reader_le r r'" if "question_parse r = Inr (x, r')" "reader_ok r" for r x r'
    using that
    by (auto simp: question_parse_def result_simps Let_def split: if_splits
        dest!: read_u16_advances nm.advances intro: reader_le_trans reader_le_ok)
  show "appends (question_write x)" for x
    unfolding question_write_def Let_def
    by (intro appends_and_then appends_write_name appends_pure) (simp add: write_u16_def)
  show "\<exists>w'. question_write x w = Inr w'" if "wf_question x" for x w
    using that write_name_ok [of "q_name x" w] by (auto simp: wf_question_def question_write_def)
  show "writer_inv w'" if "wf_question x" "writer_inv w" "question_write x w = Inr w'" for x w w'
    using that by (auto simp: wf_question_def question_write_def result_simps intro: nm.write_inv)
  fix x w w' rest
  assume wf: "wf_question x" and inv: "writer_inv w" and wr: "question_write x w = Inr w'"
  from wr obtain w1 where w1: "write_name (q_name x) w = Inr w1"
    "wr_buf w' = wr_buf w1 @ u16_to_be_bytes (record_type_val (qtype x))
      @ u16_to_be_bytes (u16_from_class (qclass x))"
    by (auto simp: question_write_def result_simps write_u16_def)
  have "read_name (reader_at (wr_buf w' @ rest) (length (wr_buf w)))
      = Inr (q_name x, reader_at (wr_buf w' @ rest) (length (wr_buf w1)))"
    using wf inv nm.parse_written [OF _ inv w1(1)] by (simp add: wf_question_def w1(2))
  then show "question_parse (reader_at (wr_buf w' @ rest) (length (wr_buf w)))
      = Inr (x, reader_at (wr_buf w' @ rest) (length (wr_buf w')))"
    using wf
    by (simp add: question_parse_def w1(2) read_u16_def u16_to_be_bytes_def nth_append be_simps
        rt.try_from_val wf_question_def)
qed

end
