(* ===== verification/RData.thy ===== *)
theory RData
  imports Header
begin

text \<open>
  \<open>dnser-proto/src/rdata.rs\<close>: the typed record data, its parser with the two counted loops (TXT
  chunks and EDNS options) and its writer. \<open>wf_rdata\<close> is the domain on which writing and parsing
  are inverse to each other: names with a wire form, chunks of at most 255 bytes, and no more than
  65535 bytes in all, since \<open>RDLENGTH\<close> is a \<open>u16\<close>.
\<close>

section \<open>Data\<close>

datatype ipv4_addr = Ipv4Addr u8 u8 u8 u8

datatype ipv6_addr = Ipv6Addr (v6_octets: bytes)

fun v4_octets :: "ipv4_addr \<Rightarrow> bytes" where
  "v4_octets (Ipv4Addr a b c d) = [a, b, c, d]"

record edns_option =
  opt_code :: u16
  opt_data :: bytes

datatype rdata =
    RD_A ipv4_addr
  | RD_AAAA ipv6_addr
  | RD_NS bytes
  | RD_CNAME bytes
  | RD_SOA bytes bytes u32 u32 u32 u32 u32
  | RD_PTR bytes
  | RD_MX u16 bytes
  | RD_TXT "bytes list"
  | RD_SRV u16 u16 u16 bytes
  | RD_OPT "edns_option list"
  | RD_Unknown u16 bytes

section \<open>Parsing\<close>

text \<open>The loops \<open>while remaining > 0\<close>; each round takes at least the length octets off \<open>remaining\<close>.\<close>

function parse_txt :: "nat \<Rightarrow> reader \<Rightarrow> parse_error + bytes list \<times> reader" where
  "parse_txt remaining r =
     (if remaining = 0 then Inr ([], r)
      else
        and_then (read_u8 r) (\<lambda>(len, r).
        and_then (ok_or RdataLengthMismatch (checked_sub remaining (1 + unat len))) (\<lambda>remaining.
        and_then (read_bytes (unat len) r) (\<lambda>(chunk, r).
        and_then (parse_txt remaining r) (\<lambda>(chunks, r). Inr (chunk # chunks, r))))))"
  by pat_completeness auto
termination
  by (relation "measure fst") (auto simp: result_simps checked_sub_eq_Some)

function parse_options :: "nat \<Rightarrow> reader \<Rightarrow> parse_error + edns_option list \<times> reader" where
  "parse_options remaining r =
     (if remaining = 0 then Inr ([], r)
      else
        and_then (read_u16 r) (\<lambda>(code, r).
        and_then (read_u16 r) (\<lambda>(len, r).
        and_then (ok_or RdataLengthMismatch (checked_sub remaining (4 + unat len))) (\<lambda>remaining.
        and_then (read_bytes (unat len) r) (\<lambda>(data, r).
        and_then (parse_options remaining r) (\<lambda>(options, r).
        Inr (\<lparr>opt_code = code, opt_data = data\<rparr> # options, r)))))))"
  by pat_completeness auto
termination
  by (relation "measure fst") (auto simp: result_simps checked_sub_eq_Some)

declare parse_txt.simps [simp del] parse_options.simps [simp del]

definition rdata_parse_inner :: "u16 \<Rightarrow> u16 \<Rightarrow> reader \<Rightarrow> parse_error + rdata \<times> reader" where
  "rdata_parse_inner rtype rdlen r =
     (case record_type_try_from rtype of
        Inr RT_A \<Rightarrow>
          (if rdlen \<noteq> 4 then Inl RdataLengthMismatch
           else and_then (read_bytes 4 r) (\<lambda>(b, r).
             Inr (RD_A (Ipv4Addr (b ! 0) (b ! 1) (b ! 2) (b ! 3)), r)))
      | Inr RT_AAAA \<Rightarrow>
          (if rdlen \<noteq> 16 then Inl RdataLengthMismatch
           else and_then (read_bytes 16 r) (\<lambda>(b, r). Inr (RD_AAAA (Ipv6Addr b), r)))
      | Inr RT_NS \<Rightarrow> and_then (read_name r) (\<lambda>(n, r). Inr (RD_NS n, r))
      | Inr RT_CNAME \<Rightarrow> and_then (read_name r) (\<lambda>(n, r). Inr (RD_CNAME n, r))
      | Inr RT_PTR \<Rightarrow> and_then (read_name r) (\<lambda>(n, r). Inr (RD_PTR n, r))
      | Inr RT_MX \<Rightarrow>
          and_then (read_u16 r) (\<lambda>(preference, r).
          and_then (read_name r) (\<lambda>(exchange, r).
          Inr (RD_MX preference exchange, r)))
      | Inr RT_TXT \<Rightarrow>
          and_then (parse_txt (unat rdlen) r) (\<lambda>(chunks, r). Inr (RD_TXT chunks, r))
      | Inr RT_SOA \<Rightarrow>
          and_then (read_name r) (\<lambda>(mname, r).
          and_then (read_name r) (\<lambda>(rname, r).
          and_then (read_u32 r) (\<lambda>(serial, r).
          and_then (read_u32 r) (\<lambda>(refresh, r).
          and_then (read_u32 r) (\<lambda>(retry, r).
          and_then (read_u32 r) (\<lambda>(expire, r).
          and_then (read_u32 r) (\<lambda>(minimum, r).
          Inr (RD_SOA mname rname serial refresh retry expire minimum, r))))))))
      | Inr RT_SRV \<Rightarrow>
          and_then (read_u16 r) (\<lambda>(priority, r).
          and_then (read_u16 r) (\<lambda>(weight, r).
          and_then (read_u16 r) (\<lambda>(port, r).
          and_then (read_name r) (\<lambda>(target, r).
          Inr (RD_SRV priority weight port target, r)))))
      | Inr RT_OPT \<Rightarrow>
          and_then (parse_options (unat rdlen) r) (\<lambda>(options, r). Inr (RD_OPT options, r))
      | _ \<Rightarrow> and_then (read_bytes (unat rdlen) r) (\<lambda>(data, r). Inr (RD_Unknown rtype data, r)))"

definition rdata_parse :: "u16 \<Rightarrow> u16 \<Rightarrow> reader \<Rightarrow> parse_error + rdata \<times> reader" where
  "rdata_parse rtype rdlen r =
     and_then (rdata_parse_inner rtype rdlen r) (\<lambda>(d, r').
       if rd_pos r' - rd_pos r \<noteq> unat rdlen then Inl RdataLengthMismatch else Inr (d, r'))"

section \<open>Writing\<close>

fun write_txt :: "bytes list \<Rightarrow> writer \<Rightarrow> write_error + writer" where
  "write_txt [] w = Inr w"
| "write_txt (chunk # chunks) w =
     (if length chunk > 255 then Inl WTxtChunkTooLong
      else write_txt chunks (write_bytes chunk (write_u8 (of_nat (length chunk)) w)))"

fun write_options :: "edns_option list \<Rightarrow> writer \<Rightarrow> writer" where
  "write_options [] w = w"
| "write_options (x # xs) w =
     write_options xs
       (write_bytes (opt_data x) (write_u16 (of_nat (length (opt_data x))) (write_u16 (opt_code x) w)))"

fun rdata_write :: "rdata \<Rightarrow> writer \<Rightarrow> write_error + writer" where
  "rdata_write (RD_A addr) w = Inr (write_bytes (v4_octets addr) w)"
| "rdata_write (RD_AAAA addr) w = Inr (write_bytes (v6_octets addr) w)"
| "rdata_write (RD_NS name) w = write_name name w"
| "rdata_write (RD_CNAME name) w = write_name name w"
| "rdata_write (RD_PTR name) w = write_name name w"
| "rdata_write (RD_MX preference exchange) w = write_name exchange (write_u16 preference w)"
| "rdata_write (RD_TXT chunks) w = write_txt chunks w"
| "rdata_write (RD_SOA mname rname serial refresh retry expire minimum) w =
     and_then (write_name mname w) (\<lambda>w.
     and_then (write_name rname w) (\<lambda>w.
     let w = write_u32 serial w;
         w = write_u32 refresh w;
         w = write_u32 retry w;
         w = write_u32 expire w
     in Inr (write_u32 minimum w)))"
| "rdata_write (RD_SRV priority weight port target) w =
     (let w = write_u16 priority w;
          w = write_u16 weight w;
          w = write_u16 port w
      in write_name target w)"
| "rdata_write (RD_OPT options) w = Inr (write_options options w)"
| "rdata_write (RD_Unknown rtype data) w = Inr (write_bytes data w)"

text \<open>The type number a record of this data is written with (\<open>ResourceRecord::record_type\<close>).\<close>

fun rdata_record_type :: "rdata \<Rightarrow> u16 + record_type" where
  "rdata_record_type (RD_A _) = Inr RT_A"
| "rdata_record_type (RD_AAAA _) = Inr RT_AAAA"
| "rdata_record_type (RD_NS _) = Inr RT_NS"
| "rdata_record_type (RD_CNAME _) = Inr RT_CNAME"
| "rdata_record_type (RD_SOA _ _ _ _ _ _ _) = Inr RT_SOA"
| "rdata_record_type (RD_PTR _) = Inr RT_PTR"
| "rdata_record_type (RD_MX _ _) = Inr RT_MX"
| "rdata_record_type (RD_TXT _) = Inr RT_TXT"
| "rdata_record_type (RD_SRV _ _ _ _) = Inr RT_SRV"
| "rdata_record_type (RD_OPT _) = Inr RT_OPT"
| "rdata_record_type (RD_Unknown rtype _) = Inl rtype"

definition rdata_type_num :: "rdata \<Rightarrow> u16" where
  "rdata_type_num d = (case rdata_record_type d of Inr t \<Rightarrow> record_type_val t | Inl n \<Rightarrow> n)"

section \<open>Parsing stays in the buffer\<close>

lemma read_name_advances:
  "read_name r = Inr (v, r') \<Longrightarrow> reader_ok r \<Longrightarrow> reader_le r r' \<and> reader_ok r'"
  by (blast intro: nm.advances nm.keeps_ok)

lemma read_u32_advances:
  "read_u32 r = Inr (v, r') \<Longrightarrow> reader_ok r \<Longrightarrow> reader_le r r' \<and> reader_ok r'"
  by (blast intro: u32.advances u32.keeps_ok)

lemma read_u8_advances:
  "read_u8 r = Inr (v, r') \<Longrightarrow> reader_ok r \<Longrightarrow> reader_le r r' \<and> reader_ok r'"
  by (blast intro: u8.advances u8.keeps_ok)

lemma read_bytes_advances:
  "read_bytes n r = Inr (v, r') \<Longrightarrow> reader_ok r \<Longrightarrow> reader_le r r' \<and> reader_ok r'"
  by (blast intro: raw.advances raw.keeps_ok)

lemmas reads_advance = read_u8_advances read_u16_advances read_u32_advances read_bytes_advances
  read_name_advances

lemma parse_zero [simp]: "parse_txt 0 r = Inr ([], r)" "parse_options 0 r = Inr ([], r)"
  by (simp_all add: parse_txt.simps parse_options.simps)

lemma parse_txt_advances:
  "parse_txt n r = Inr (cs, r') \<Longrightarrow> reader_ok r \<Longrightarrow> reader_le r r' \<and> reader_ok r'"
proof (induction n r arbitrary: cs r' rule: parse_txt.induct)
  case (1 n r)
  show ?case
  proof (cases "n = 0")
    case True
    with "1.prems" show ?thesis by (auto simp: reader_le_refl)
  next
    case False
    with "1.prems"(1) obtain len r1 m c r2 cs2 where
      s: "read_u8 r = Inr (len, r1)" "ok_or RdataLengthMismatch (checked_sub n (1 + unat len)) = Inr m"
        "read_bytes (unat len) r1 = Inr (c, r2)" "parse_txt m r2 = Inr (cs2, r')"
      by (auto simp: parse_txt.simps [of n r] result_simps)
    with "1.IH" [OF False s(1) _ s(2) s(3)] "1.prems"(2) show ?thesis
      by (auto dest!: reads_advance intro: reader_le_trans)
  qed
qed

lemma parse_options_advances:
  "parse_options n r = Inr (cs, r') \<Longrightarrow> reader_ok r \<Longrightarrow> reader_le r r' \<and> reader_ok r'"
proof (induction n r arbitrary: cs r' rule: parse_options.induct)
  case (1 n r)
  show ?case
  proof (cases "n = 0")
    case True
    with "1.prems" show ?thesis by (auto simp: reader_le_refl)
  next
    case False
    with "1.prems"(1) obtain code r1 len r2 m c r3 cs2 where
      s: "read_u16 r = Inr (code, r1)" "read_u16 r1 = Inr (len, r2)"
        "ok_or RdataLengthMismatch (checked_sub n (4 + unat len)) = Inr m"
        "read_bytes (unat len) r2 = Inr (c, r3)" "parse_options m r3 = Inr (cs2, r')"
      by (auto simp: parse_options.simps [of n r] result_simps)
    have "reader_ok r3 \<Longrightarrow> reader_le r3 r' \<and> reader_ok r'"
      using "1.IH" [OF False s(1) _ s(2) _ s(3) s(4) _ s(5)] by auto
    with s "1.prems"(2) show ?thesis by (auto simp: reader_le_def dest!: reads_advance)
  qed
qed

lemma rdata_parse_inner_advances:
  assumes "rdata_parse_inner t n r = Inr (d, r')" "reader_ok r"
  shows "reader_le r r'"
  using assms
  by (auto simp: rdata_parse_inner_def result_simps reader_le_def
      split: sum.splits record_type.splits if_splits
      dest!: reads_advance parse_txt_advances parse_options_advances)

interpretation rdat: wire_parser "rdata_parse t n" for t n
  by unfold_locales (auto simp: rdata_parse_def result_simps split: if_splits
      intro: rdata_parse_inner_advances)

lemma rdata_parse_exact:
  "rdata_parse t n r = Inr (d, r') \<Longrightarrow> reader_ok r \<Longrightarrow> rd_pos r' = rd_pos r + unat n"
  using rdat.advances [of t n r d r'] by (auto simp: rdata_parse_def reader_le_def result_simps split: if_splits)

section \<open>Writing and parsing back\<close>

definition txt_bytes :: "bytes list \<Rightarrow> bytes" where
  "txt_bytes cs = concat (map (\<lambda>c. of_nat (length c) # c) cs)"

definition option_bytes :: "edns_option list \<Rightarrow> bytes" where
  "option_bytes xs = concat (map (\<lambda>x. u16_to_be_bytes (opt_code x)
     @ u16_to_be_bytes (of_nat (length (opt_data x))) @ opt_data x) xs)"

lemma txt_bytes_simps [simp]:
  "txt_bytes [] = []" "txt_bytes (c # cs) = of_nat (length c) # c @ txt_bytes cs"
  by (simp_all add: txt_bytes_def)

lemma option_bytes_simps [simp]:
  "option_bytes [] = []"
  "option_bytes (x # xs) = u16_to_be_bytes (opt_code x)
     @ u16_to_be_bytes (of_nat (length (opt_data x))) @ opt_data x @ option_bytes xs"
  by (simp_all add: option_bytes_def)

lemma write_txt_eq:
  "write_txt cs w = (if \<forall>c\<in>set cs. length c \<le> 255
     then Inr (w\<lparr>wr_buf := wr_buf w @ txt_bytes cs\<rparr>) else Inl WTxtChunkTooLong)"
  by (induction cs arbitrary: w) (auto simp: write_defs)

lemma write_options_eq: "write_options xs w = w\<lparr>wr_buf := wr_buf w @ option_bytes xs\<rparr>"
  by (induction xs arbitrary: w) (auto simp: write_defs)

lemma parse_txt_written:
  "\<forall>c\<in>set cs. length c \<le> 255 \<Longrightarrow> n = length (txt_bytes cs) \<Longrightarrow>
     parse_txt n (reader_at (pre @ txt_bytes cs @ rest) (length pre))
       = Inr (cs, reader_at (pre @ txt_bytes cs @ rest) (length pre + n))"
proof (induction cs arbitrary: pre n)
  case Nil
  then show ?case by simp
next
  case (Cons c cs)
  let ?b = "of_nat (length c) :: u8" and ?all = "pre @ txt_bytes (c # cs) @ rest"
  have len: "unat ?b = length c" using Cons.prems by (simp add: unat_of_nat_u8)
  have "read_u8 (reader_at ?all (length pre)) = Inr (?b, reader_at ?all (length pre + 1))"
    using read_u8_written [of pre ?b] by simp
  moreover have "checked_sub n (1 + unat ?b) = Some (length (txt_bytes cs))"
    using Cons.prems(2) len by (simp add: checked_sub_eq_Some)
  moreover have "read_bytes (unat ?b) (reader_at ?all (length pre + 1))
      = Inr (c, reader_at ?all (length (pre @ ?b # c)))"
    using read_bytes_written [of "unat ?b" c "pre @ [?b]" "txt_bytes cs @ rest"] len by simp
  moreover have "parse_txt (length (txt_bytes cs)) (reader_at ?all (length (pre @ ?b # c)))
      = Inr (cs, reader_at ?all (length pre + n))"
    using Cons.IH [of "length (txt_bytes cs)" "pre @ ?b # c"] Cons.prems by (simp add: add.assoc)
  ultimately show ?case using Cons.prems(2) by (subst parse_txt.simps) simp
qed

lemma parse_options_written:
  "\<forall>x\<in>set xs. length (opt_data x) < 65536 \<Longrightarrow> n = length (option_bytes xs) \<Longrightarrow>
     parse_options n (reader_at (pre @ option_bytes xs @ rest) (length pre))
       = Inr (xs, reader_at (pre @ option_bytes xs @ rest) (length pre + n))"
proof (induction xs arbitrary: pre n)
  case Nil
  then show ?case by simp
next
  case (Cons x xs)
  let ?b = "of_nat (length (opt_data x)) :: u16" and ?all = "pre @ option_bytes (x # xs) @ rest"
  let ?p1 = "pre @ u16_to_be_bytes (opt_code x)"
  let ?p2 = "?p1 @ u16_to_be_bytes ?b"
  have len: "unat ?b = length (opt_data x)" using Cons.prems by (simp add: unat_of_nat_u16)
  have "read_u16 (reader_at ?all (length pre)) = Inr (opt_code x, reader_at ?all (length ?p1))"
    using read_u16_written [of pre "opt_code x"] by simp
  moreover have "read_u16 (reader_at ?all (length ?p1)) = Inr (?b, reader_at ?all (length ?p2))"
    using read_u16_written [of ?p1 ?b] by simp
  moreover have "checked_sub n (4 + unat ?b) = Some (length (option_bytes xs))"
    using Cons.prems(2) len by (simp add: checked_sub_eq_Some)
  moreover have "read_bytes (unat ?b) (reader_at ?all (length ?p2))
      = Inr (opt_data x, reader_at ?all (length (?p2 @ opt_data x)))"
    using read_bytes_written [of "unat ?b" "opt_data x" ?p2 "option_bytes xs @ rest"] len by simp
  moreover have "parse_options (length (option_bytes xs)) (reader_at ?all (length (?p2 @ opt_data x)))
      = Inr (xs, reader_at ?all (length pre + n))"
    using Cons.IH [of "length (option_bytes xs)" "?p2 @ opt_data x"] Cons.prems
    by (simp add: add.assoc)
  ultimately show ?case using Cons.prems(2) by (subst parse_options.simps) simp
qed

text \<open>The data a record can carry over the wire.\<close>

fun wf_rdata :: "rdata \<Rightarrow> bool" where
  "wf_rdata (RD_A _) = True"
| "wf_rdata (RD_AAAA a) = (length (v6_octets a) = 16)"
| "wf_rdata (RD_NS n) = wf_name n"
| "wf_rdata (RD_CNAME n) = wf_name n"
| "wf_rdata (RD_PTR n) = wf_name n"
| "wf_rdata (RD_MX _ n) = wf_name n"
| "wf_rdata (RD_SOA m r _ _ _ _ _) = (wf_name m \<and> wf_name r)"
| "wf_rdata (RD_SRV _ _ _ n) = wf_name n"
| "wf_rdata (RD_TXT cs) = ((\<forall>c\<in>set cs. length c \<le> 255) \<and> length (txt_bytes cs) < 65536)"
| "wf_rdata (RD_OPT xs) = (length (option_bytes xs) < 65536)"
| "wf_rdata (RD_Unknown t d) =
     (length d < 65536 \<and> record_type_try_from t \<notin> Inr ` {RT_A, RT_NS, RT_CNAME, RT_SOA, RT_PTR,
        RT_MX, RT_TXT, RT_AAAA, RT_SRV, RT_OPT})"

lemma option_bytes_data: "x \<in> set xs \<Longrightarrow> length (opt_data x) \<le> length (option_bytes xs)"
  by (induction xs) auto

lemma appends_eq: "appends g \<Longrightarrow> (\<And>w. f w = g w) \<Longrightarrow> appends f"
  by (simp add: appends_def)

lemma appends_rdata_write [intro]: "appends (rdata_write d)"
proof (cases d)
  case (RD_SOA m r a b c e f)
  have "appends (\<lambda>w. and_then (write_name m w) (\<lambda>w. and_then (write_name r w) (\<lambda>w.
      Inr (write_u32 f (write_u32 e (write_u32 c (write_u32 b (write_u32 a w))))))))"
    by (intro appends_and_then appends_write_name appends_pure) (simp add: write_u32_def)
  then show ?thesis by (rule appends_eq) (simp add: RD_SOA)
next
  case (RD_MX p n)
  have "appends (\<lambda>w. write_name n (write_u16 p w))"
    by (rule appends_comp [OF appends_write_name]) (simp add: write_u16_def)
  then show ?thesis by (rule appends_eq) (simp add: RD_MX)
next
  case (RD_SRV p q t n)
  have "appends (\<lambda>w. write_name n (write_u16 t (write_u16 q (write_u16 p w))))"
    by (rule appends_comp [OF appends_write_name]) (simp add: write_u16_def)
  then show ?thesis by (rule appends_eq) (simp add: RD_SRV)
next
  case (RD_TXT cs)
  then show ?thesis by (auto simp: appends_def write_txt_eq split: if_splits)
next
  case (RD_OPT xs)
  then show ?thesis by (auto simp: appends_def write_options_eq)
qed (auto intro: appends_eq [OF appends_write_name] appends_eq [OF appends_basic(4)])

lemma rdata_write_ok: "wf_rdata d \<Longrightarrow> \<exists>w'. rdata_write d w = Inr w'"
proof (cases d)
  case (RD_SOA m r a b c e f)
  assume "wf_rdata d"
  then obtain w1 where "write_name m w = Inr w1" using write_name_ok [of m w] by (auto simp: RD_SOA)
  moreover obtain w2 where "write_name r w1 = Inr w2"
    using write_name_ok [of r w1] \<open>wf_rdata d\<close> by (auto simp: RD_SOA)
  ultimately show ?thesis by (simp add: RD_SOA)
qed (auto simp: write_txt_eq Let_def intro: write_name_ok)

lemma rdata_write_inv:
  "wf_rdata d \<Longrightarrow> writer_inv w \<Longrightarrow> rdata_write d w = Inr w' \<Longrightarrow> writer_inv w'"
proof (cases d)
  case (RD_SOA m r a b c e f)
  assume "wf_rdata d" "writer_inv w" "rdata_write d w = Inr w'"
  then show ?thesis by (auto simp: RD_SOA result_simps Let_def) (metis nm.write_inv writer_inv_basic(3))
next
  case (RD_SRV p q t n)
  assume "wf_rdata d" "writer_inv w" "rdata_write d w = Inr w'"
  then show ?thesis
    using nm.write_inv [of n "write_u16 t (write_u16 q (write_u16 p w))" w'] by (simp add: RD_SRV)
qed (auto simp: write_txt_eq write_options_eq writer_inv_append split: if_splits intro: nm.write_inv)

lemma wf_name_length: "wf_name n \<Longrightarrow> length n \<le> 253"
  by (simp add: wf_name_def MAX_NAME_LEN_def)

lemma write_name_length_wf:
  "write_name n w = Inr w' \<Longrightarrow> wf_name n \<Longrightarrow> length (wr_buf w') \<le> length (wr_buf w) + 255"
  using write_name_length [of n w w'] wf_name_length [of n] by simp

lemma rdata_write_length:
  assumes "wf_rdata d" "rdata_write d w = Inr w'"
  shows "length (wr_buf w') < length (wr_buf w) + 65536"
proof (cases d)
  case (RD_A a)
  with assms show ?thesis by (cases a) (auto simp: write_defs)
qed (use assms in \<open>auto simp: write_txt_eq write_options_eq write_defs result_simps Let_def
      split: if_splits dest!: write_name_length_wf\<close>)

lemma rdata_written_mx:
  assumes wf: "wf_rdata d" and inv: "writer_inv w" and wr: "rdata_write d w = Inr w'"
    and RD_MX: "d = RD_MX p x"
  shows "rdata_parse_inner (rdata_type_num d) n (reader_at (wr_buf w' @ rest) (length (wr_buf w)))
    = Inr (d, reader_at (wr_buf w' @ rest) (length (wr_buf w')))"
proof -
  have "read_u16 (reader_at (wr_buf w' @ rest) (length (wr_buf w)))
      = Inr (p, reader_at (wr_buf w' @ rest) (length (wr_buf (write_u16 p w))))"
    using wr RD_MX by (intro read_u16_extends appends_extends [OF appends_write_name]) simp
  moreover have "read_name (reader_at (wr_buf w' @ rest) (length (wr_buf (write_u16 p w))))
      = Inr (x, reader_at (wr_buf w' @ rest) (length (wr_buf w')))"
    using wr wf inv RD_MX by (intro read_name_extends) auto
  ultimately show ?thesis
    by (simp add: RD_MX rdata_parse_inner_def rdata_type_num_def)
qed

lemma rdata_written_srv:
  assumes wf: "wf_rdata d" and inv: "writer_inv w" and wr: "rdata_write d w = Inr w'"
    and RD_SRV: "d = RD_SRV p q t x"
  shows "rdata_parse_inner (rdata_type_num d) n (reader_at (wr_buf w' @ rest) (length (wr_buf w)))
    = Inr (d, reader_at (wr_buf w' @ rest) (length (wr_buf w')))"
proof -
  let ?w1 = "write_u16 p w"
  let ?w2 = "write_u16 q ?w1"
  let ?w3 = "write_u16 t ?w2"
  have e3: "extends ?w3 w'" using wr RD_SRV by (intro appends_extends [OF appends_write_name]) simp
  have e2: "extends ?w2 w'" by (rule extends_trans [OF extends_basic(2) e3])
  have e1: "extends ?w1 w'" by (rule extends_trans [OF extends_basic(2) e2])
  have "read_name (reader_at (wr_buf w' @ rest) (length (wr_buf ?w3)))
      = Inr (x, reader_at (wr_buf w' @ rest) (length (wr_buf w')))"
    using wr wf inv RD_SRV by (intro read_name_extends) auto
  with e1 e2 e3 show ?thesis
    by (simp add: RD_SRV rdata_parse_inner_def rdata_type_num_def read_u16_extends)
qed

lemma rdata_written_soa:
  assumes wf: "wf_rdata d" and inv: "writer_inv w" and wr: "rdata_write d w = Inr w'"
    and RD_SOA: "d = RD_SOA m r a b c e f"
  shows "rdata_parse_inner (rdata_type_num d) n (reader_at (wr_buf w' @ rest) (length (wr_buf w)))
    = Inr (d, reader_at (wr_buf w' @ rest) (length (wr_buf w')))"
proof -
  from wr obtain w1 w2 where w1: "write_name m w = Inr w1" and w2: "write_name r w1 = Inr w2"
    and w': "w' = write_u32 f (write_u32 e (write_u32 c (write_u32 b (write_u32 a w2))))"
    by (auto simp: RD_SOA result_simps Let_def)
  have inv1: "writer_inv w1" using w1 wf inv RD_SOA by (auto intro: nm.write_inv)
  have ext: "extends (write_u32 a w2) w'" "extends (write_u32 b (write_u32 a w2)) w'"
    "extends (write_u32 c (write_u32 b (write_u32 a w2))) w'"
    "extends (write_u32 e (write_u32 c (write_u32 b (write_u32 a w2)))) w'"
    unfolding w' by (simp_all add: extends_def write_u32_def)
  have e2: "extends w2 w'" by (rule extends_trans [OF extends_basic(3) ext(1)])
  have e1: "extends w1 w'" by (rule extends_trans [OF appends_extends [OF appends_write_name w2] e2])
  have "read_name (reader_at (wr_buf w' @ rest) (length (wr_buf w)))
      = Inr (m, reader_at (wr_buf w' @ rest) (length (wr_buf w1)))"
    "read_name (reader_at (wr_buf w' @ rest) (length (wr_buf w1)))
      = Inr (r, reader_at (wr_buf w' @ rest) (length (wr_buf w2)))"
    using wf inv inv1 RD_SOA e1 e2 by (auto intro: read_name_extends w1 w2)
  moreover have "read_u32 (reader_at (wr_buf w' @ rest)
        (length (wr_buf (write_u32 e (write_u32 c (write_u32 b (write_u32 a w2)))))))
      = Inr (f, reader_at (wr_buf w' @ rest) (length (wr_buf w')))"
    unfolding w' by (intro read_u32_extends) simp
  ultimately show ?thesis using ext
    by (simp add: RD_SOA rdata_parse_inner_def rdata_type_num_def read_u32_extends)
qed

lemma rdata_parse_inner_written:
  assumes wf: "wf_rdata d" and inv: "writer_inv w" and wr: "rdata_write d w = Inr w'"
    and n: "unat n = length (wr_buf w') - length (wr_buf w)"
  shows "rdata_parse_inner (rdata_type_num d) n (reader_at (wr_buf w' @ rest) (length (wr_buf w)))
    = Inr (d, reader_at (wr_buf w' @ rest) (length (wr_buf w')))"
proof (cases d)
  case (RD_A a)
  with n wr have "n = 4" by (cases a) (auto simp: write_bytes_def word_unat_eq_iff)
  with wr RD_A show ?thesis
    by (cases a) (auto simp: rdata_parse_inner_def rdata_type_num_def write_bytes_def
        read_bytes_def)
next
  case (RD_AAAA a)
  with n wr wf have "n = 16" by (cases a) (auto simp: write_bytes_def word_unat_eq_iff)
  with wr wf RD_AAAA show ?thesis
    by (cases a) (auto simp: rdata_parse_inner_def rdata_type_num_def write_bytes_def
        read_bytes_def)
next
  case (RD_TXT cs)
  then have "wr_buf w' = wr_buf w @ txt_bytes cs"
    using wr by (auto simp: write_txt_eq split: if_splits)
  with RD_TXT wf n show ?thesis
    using parse_txt_written [of cs "unat n" "wr_buf w" rest]
    by (simp add: rdata_parse_inner_def rdata_type_num_def)
next
  case (RD_OPT xs)
  then have "wr_buf w' = wr_buf w @ option_bytes xs"
    using wr by (auto simp: write_options_eq)
  moreover have "\<forall>x\<in>set xs. length (opt_data x) < 65536"
    using wf RD_OPT option_bytes_data [of _ xs] by fastforce
  ultimately show ?thesis
    using RD_OPT n parse_options_written [of xs "unat n" "wr_buf w" rest]
    by (simp add: rdata_parse_inner_def rdata_type_num_def)
next
  case (RD_Unknown t x)
  with wr wf n show ?thesis
    by (auto simp: rdata_parse_inner_def rdata_type_num_def write_bytes_def read_bytes_def
        split: sum.splits record_type.splits)
next
  case (RD_MX p x)
  with wf inv wr show ?thesis by (rule rdata_written_mx)
next
  case (RD_SRV p q t x)
  with wf inv wr show ?thesis by (rule rdata_written_srv)
next
  case (RD_SOA m r a b c e f)
  with wf inv wr show ?thesis by (rule rdata_written_soa)
qed (use wf inv wr in \<open>auto simp: rdata_parse_inner_def rdata_type_num_def nm.parse_written\<close>)

lemma rdata_parse_written:
  assumes "wf_rdata d" "writer_inv w" "rdata_write d w = Inr w'"
    and "n = of_nat (length (wr_buf w') - length (wr_buf w))"
  shows "rdata_parse (rdata_type_num d) n (reader_at (wr_buf w' @ rest) (length (wr_buf w)))
    = Inr (d, reader_at (wr_buf w' @ rest) (length (wr_buf w')))"
proof -
  have "unat n = length (wr_buf w') - length (wr_buf w)"
    using rdata_write_length [OF assms(1,3)] assms(4) by (simp add: unat_of_nat_u16)
  with rdata_parse_inner_written [OF assms(1-3) this] show ?thesis by (simp add: rdata_parse_def)
qed

end
