(* ===== verification/Resource_Record.thy ===== *)
theory Resource_Record
  imports RData
begin

text \<open>
  \<open>dnser-proto/src/resource_record.rs\<close>: resource records, the EDNS(0) accessors on the OPT
  pseudo-record, and the codec. The writer reserves \<open>RDLENGTH\<close>, writes the data and patches the
  length in afterwards; since what the data writer appends does not depend on the bytes before it,
  this gives the same buffer as writing the length first (\<open>write_counted_first\<close>).
\<close>

section \<open>Record and EDNS accessors\<close>

record resource_record =
  rr_name :: bytes
  rr_class :: dns_class
  rr_ttl :: u32
  rr_rdata :: rdata

definition edns_opt :: "u16 \<Rightarrow> resource_record" where
  "edns_opt udp_size =
     \<lparr>rr_name = [], rr_class = class_from_u16 udp_size, rr_ttl = 0, rr_rdata = RD_OPT []\<rparr>"

definition is_opt :: "resource_record \<Rightarrow> bool" where
  "is_opt rr = (case rr_rdata rr of RD_OPT _ \<Rightarrow> True | _ \<Rightarrow> False)"

definition then_some :: "bool \<Rightarrow> 'a \<Rightarrow> 'a option" where
  "then_some b x = (if b then Some x else None)"

definition edns_udp_size :: "resource_record \<Rightarrow> u16 option" where
  "edns_udp_size rr = then_some (is_opt rr) (u16_from_class (rr_class rr))"

definition edns_extended_rcode :: "resource_record \<Rightarrow> u8 option" where
  "edns_extended_rcode rr = then_some (is_opt rr) (ucast (drop_bit 24 (rr_ttl rr) AND 0xFF))"

definition edns_version :: "resource_record \<Rightarrow> u8 option" where
  "edns_version rr = then_some (is_opt rr) (ucast (drop_bit 16 (rr_ttl rr) AND 0xFF))"

definition set_edns_extended_rcode :: "u8 \<Rightarrow> resource_record \<Rightarrow> resource_record" where
  "set_edns_extended_rcode ext_rcode rr =
     (if is_opt rr
      then rr\<lparr>rr_ttl := (rr_ttl rr AND 0x00FFFFFF) OR push_bit 24 (ucast ext_rcode)\<rparr> else rr)"

definition set_edns_version :: "u8 \<Rightarrow> resource_record \<Rightarrow> resource_record" where
  "set_edns_version version rr =
     (if is_opt rr
      then rr\<lparr>rr_ttl := (rr_ttl rr AND 0xFF00FFFF) OR push_bit 16 (ucast version)\<rparr> else rr)"

definition rr_record_type :: "resource_record \<Rightarrow> u16 + record_type" where
  "rr_record_type rr = rdata_record_type (rr_rdata rr)"

section \<open>Wire form\<close>

definition rr_parse :: "reader \<Rightarrow> parse_error + resource_record \<times> reader" where
  "rr_parse r =
     and_then (read_name r) (\<lambda>(name, r).
     and_then (read_u16 r) (\<lambda>(rtype, r).
     and_then (read_u16 r) (\<lambda>(class, r).
     and_then (read_u32 r) (\<lambda>(ttl, r).
     and_then (read_u16 r) (\<lambda>(rdlen, r).
     and_then (rdata_parse rtype rdlen r) (\<lambda>(rdata, r).
     Inr (\<lparr>rr_name = name, rr_class = class_from_u16 class, rr_ttl = ttl, rr_rdata = rdata\<rparr>, r)))))))"

definition rr_write :: "resource_record \<Rightarrow> writer \<Rightarrow> write_error + writer" where
  "rr_write rr w =
     and_then (write_name (rr_name rr) w) (\<lambda>w.
     let w = (case rr_record_type rr of
                Inr rt \<Rightarrow> write_u16 (record_type_val rt) w
              | Inl n \<Rightarrow> write_u16 n w);
         w = write_u16 (u16_from_class (rr_class rr)) w;
         w = write_u32 (rr_ttl rr) w;
         (rdlen_pos, w) = reserve_u16 w;
         rdata_start = wr_pos w
     in and_then (rdata_write (rr_rdata rr) w) (\<lambda>w.
        let rdlen = of_nat (wr_pos w - rdata_start)
        in Inr (backfill_u16 rdlen_pos rdlen w)))"

definition wf_rr :: "resource_record \<Rightarrow> bool" where
  "wf_rr rr \<longleftrightarrow> wf_name (rr_name rr) \<and> wf_rdata (rr_rdata rr)"

section \<open>EDNS bytes of the TTL\<close>

lemma is_opt_edns_opt [simp]: "is_opt (edns_opt n)"
  by (simp add: is_opt_def edns_opt_def)

lemma is_opt_set [simp]:
  "is_opt (set_edns_extended_rcode c rr) = is_opt rr" "is_opt (set_edns_version v rr) = is_opt rr"
  by (simp_all add: set_edns_extended_rcode_def set_edns_version_def is_opt_def)

lemma byte_mask: "(x AND 0xFF :: u32) = take_bit 8 x"
  by (simp add: take_bit_eq_mask mask_eq_decr_exp)

lemma ttl_top_byte: "ucast (drop_bit 24 ((t AND 0x00FFFFFF) OR push_bit 24 (ucast c)) AND 0xFF) = (c :: u8)"
  for t :: u32
proof -
  have m: "(0x00FFFFFF :: u32) = mask 24" by (simp add: mask_eq_decr_exp)
  show ?thesis unfolding byte_mask m by (rule bit_word_eqI) (auto simp: bit_simps)
qed

lemma ttl_version_byte:
  "ucast (drop_bit 16 ((t AND 0x00FFFFFF) OR push_bit 24 (ucast c)) AND 0xFF)
     = (ucast (drop_bit 16 t AND 0xFF) :: u8)" for t :: u32 and c :: u8
proof -
  have m: "(0x00FFFFFF :: u32) = mask 24" by (simp add: mask_eq_decr_exp)
  show ?thesis unfolding byte_mask m by (rule bit_word_eqI) (auto simp: bit_simps)
qed

section \<open>The patched length\<close>

text \<open>The second half of \<open>rr_write\<close>: reserve, write the data, patch the length in.\<close>

definition write_counted :: "rdata \<Rightarrow> writer \<Rightarrow> write_error + writer" where
  "write_counted d w =
     (let (rdlen_pos, w) = reserve_u16 w; rdata_start = wr_pos w
      in and_then (rdata_write d w) (\<lambda>w.
           let rdlen = of_nat (wr_pos w - rdata_start)
           in Inr (backfill_u16 rdlen_pos rdlen w)))"

definition write_fixed :: "resource_record \<Rightarrow> writer \<Rightarrow> writer" where
  "write_fixed rr w =
     write_u32 (rr_ttl rr) (write_u16 (u16_from_class (rr_class rr))
       (write_u16 (rdata_type_num (rr_rdata rr)) w))"

lemma rr_write_split:
  "rr_write rr w = and_then (write_name (rr_name rr) w) (\<lambda>w. write_counted (rr_rdata rr) (write_fixed rr w))"
  unfolding rr_write_def write_counted_def write_fixed_def rr_record_type_def rdata_type_num_def Let_def
  by (rule and_then_cong [OF refl]) (auto split: sum.splits)

lemma write_counted_Inr:
  assumes "rdata_write d (write_u16 0 \<lparr>wr_buf = b, name_offsets = m\<rparr>) = Inr w1"
  obtains out where
    "\<And>c. length c = length b \<Longrightarrow> write_counted d \<lparr>wr_buf = c, name_offsets = m\<rparr>
       = Inr \<lparr>wr_buf = c @ u16_to_be_bytes (of_nat (length out)) @ out, name_offsets = name_offsets w1\<rparr>"
    "\<And>c. length c = length b + 2 \<Longrightarrow> rdata_write d \<lparr>wr_buf = c, name_offsets = m\<rparr>
       = Inr \<lparr>wr_buf = c @ out, name_offsets = name_offsets w1\<rparr>"
proof -
  obtain out where out: "\<And>c. length c = length b + 2 \<Longrightarrow> rdata_write d \<lparr>wr_buf = c, name_offsets = m\<rparr>
       = Inr \<lparr>wr_buf = c @ out, name_offsets = name_offsets w1\<rparr>"
    using appendsE [OF appends_rdata_write assms] by (auto simp: write_u16_def)
  have "write_counted d \<lparr>wr_buf = c, name_offsets = m\<rparr>
       = Inr \<lparr>wr_buf = c @ u16_to_be_bytes (of_nat (length out)) @ out, name_offsets = name_offsets w1\<rparr>"
    if "length c = length b" for c
    using out [of "c @ u16_to_be_bytes 0"] that
    by (simp add: write_counted_def reserve_u16_def write_u16_def wr_pos_def backfill_u16_def
        u16_to_be_bytes_def list_update_append Let_def)
  with out show thesis by (rule that [rotated])
qed

lemma write_counted_Inl: "rdata_write d (write_u16 0 w) = Inl e \<Longrightarrow> write_counted d w = Inl e"
  by (simp add: write_counted_def reserve_u16_def)

lemma write_counted_base:
  "write_counted d w = Inr w' \<Longrightarrow> \<exists>w1. rdata_write d (write_u16 0 w) = Inr w1"
  by (cases "rdata_write d (write_u16 0 w)") (auto dest: write_counted_Inl)

lemma appends_write_counted: "appends (write_counted d)"
  unfolding appends_def
proof (intro allI impI)
  fix b m w'
  assume *: "write_counted d \<lparr>wr_buf = b, name_offsets = m\<rparr> = Inr w'"
  then obtain w1 where w1: "rdata_write d (write_u16 0 \<lparr>wr_buf = b, name_offsets = m\<rparr>) = Inr w1"
    using write_counted_base by blast
  obtain out where out: "\<And>c. length c = length b \<Longrightarrow> write_counted d \<lparr>wr_buf = c, name_offsets = m\<rparr>
       = Inr \<lparr>wr_buf = c @ u16_to_be_bytes (of_nat (length out)) @ out, name_offsets = name_offsets w1\<rparr>"
    "\<And>c. length c = length b + 2 \<Longrightarrow> rdata_write d \<lparr>wr_buf = c, name_offsets = m\<rparr>
       = Inr \<lparr>wr_buf = c @ out, name_offsets = name_offsets w1\<rparr>"
    using write_counted_Inr [OF w1] by blast
  with * [unfolded out(1) [OF refl]] show "\<exists>out. wr_buf w' = b @ out \<and> (\<forall>c. length c = length b \<longrightarrow>
      write_counted d \<lparr>wr_buf = c, name_offsets = m\<rparr>
        = Inr \<lparr>wr_buf = c @ out, name_offsets = name_offsets w'\<rparr>)" by auto
qed

lemma write_counted_first:
  assumes "write_counted d w = Inr w'"
  obtains n where "rdata_write d (write_u16 n w) = Inr w'"
    and "n = of_nat (length (wr_buf w') - length (wr_buf (write_u16 n w)))"
proof -
  obtain w1 where w1: "rdata_write d (write_u16 0 \<lparr>wr_buf = wr_buf w, name_offsets = name_offsets w\<rparr>) = Inr w1"
    using write_counted_base [OF assms] by (cases w) auto
  obtain out where out: "\<And>c. length c = length (wr_buf w) \<Longrightarrow>
      write_counted d \<lparr>wr_buf = c, name_offsets = name_offsets w\<rparr>
       = Inr \<lparr>wr_buf = c @ u16_to_be_bytes (of_nat (length out)) @ out, name_offsets = name_offsets w1\<rparr>"
    "\<And>c. length c = length (wr_buf w) + 2 \<Longrightarrow> rdata_write d \<lparr>wr_buf = c, name_offsets = name_offsets w\<rparr>
       = Inr \<lparr>wr_buf = c @ out, name_offsets = name_offsets w1\<rparr>"
    using write_counted_Inr [OF w1] by blast
  let ?n = "of_nat (length out) :: u16"
  have w: "w = \<lparr>wr_buf = wr_buf w, name_offsets = name_offsets w\<rparr>" by (cases w) simp
  have "write_counted d w = Inr \<lparr>wr_buf = wr_buf w @ u16_to_be_bytes ?n @ out, name_offsets = name_offsets w1\<rparr>"
    by (subst w, rule out(1)) simp
  moreover have "write_u16 ?n w = \<lparr>wr_buf = wr_buf w @ u16_to_be_bytes ?n, name_offsets = name_offsets w\<rparr>"
    by (cases w) (simp add: write_u16_def)
  ultimately show thesis using that [of ?n] out(2) [of "wr_buf w @ u16_to_be_bytes ?n"] assms by simp
qed

section \<open>Codec\<close>

interpretation rr: wire_codec rr_parse rr_write wf_rr
proof unfold_locales
  show "reader_le r r'" if "rr_parse r = Inr (x, r')" "reader_ok r" for r x r'
    using that
    by (auto simp: rr_parse_def result_simps dest!: reads_advance rdat.advances)
      (auto simp: reader_le_def)
  show "appends (rr_write x)" for x
    unfolding rr_write_split
    by (intro appends_and_then appends_write_name appends_comp [OF appends_write_counted])
      (simp add: write_fixed_def write_defs)
  show "\<exists>w'. rr_write x w = Inr w'" if "wf_rr x" for x w
  proof -
    note wf = that
    obtain w1 where w1: "write_name (rr_name x) w = Inr w1"
      using wf write_name_ok [of "rr_name x" w] by (auto simp: wf_rr_def)
    obtain w2 where "rdata_write (rr_rdata x) (write_u16 0 (write_fixed x w1)) = Inr w2"
      using wf rdata_write_ok [of "rr_rdata x"] by (auto simp: wf_rr_def)
    with w1 show ?thesis by (simp add: rr_write_split write_counted_def reserve_u16_def)
  qed
  fix x w w'
  assume wf: "wf_rr x" and inv: "writer_inv w" and wr: "rr_write x w = Inr w'"
  from wr obtain w1 where w1: "write_name (rr_name x) w = Inr w1"
    and wc: "write_counted (rr_rdata x) (write_fixed x w1) = Inr w'"
    by (auto simp: rr_write_split result_simps)
  obtain n where n: "rdata_write (rr_rdata x) (write_u16 n (write_fixed x w1)) = Inr w'"
    "n = of_nat (length (wr_buf w') - length (wr_buf (write_u16 n (write_fixed x w1))))"
    using write_counted_first [OF wc] .
  have inv1: "writer_inv w1" using w1 wf inv by (auto simp: wf_rr_def intro: nm.write_inv)
  then have inv2: "writer_inv (write_u16 n (write_fixed x w1))" by (simp add: write_fixed_def)
  with n(1) wf show "writer_inv w'" by (auto simp: wf_rr_def intro: rdata_write_inv)
  show "rr_parse (reader_at (wr_buf w' @ rest) (length (wr_buf w)))
      = Inr (x, reader_at (wr_buf w' @ rest) (length (wr_buf w')))" for rest
  proof -
    let ?w2 = "write_u16 (rdata_type_num (rr_rdata x)) w1"
    let ?w3 = "write_u16 (u16_from_class (rr_class x)) ?w2"
    let ?w4 = "write_u32 (rr_ttl x) ?w3"
    have e5: "extends (write_u16 n ?w4) w'"
      using appends_extends [OF appends_rdata_write n(1)] by (simp add: write_fixed_def)
    then have e4: "extends ?w4 w'" by (rule extends_trans [OF extends_basic(2)])
    then have e3: "extends ?w3 w'" by (rule extends_trans [OF extends_basic(3)])
    then have e2: "extends ?w2 w'" by (rule extends_trans [OF extends_basic(2)])
    then have e1: "extends w1 w'" by (rule extends_trans [OF extends_basic(2)])
    have "read_name (reader_at (wr_buf w' @ rest) (length (wr_buf w)))
        = Inr (rr_name x, reader_at (wr_buf w' @ rest) (length (wr_buf w1)))"
      using wf inv e1 by (intro read_name_extends [OF w1]) (auto simp: wf_rr_def)
    moreover have "rdata_parse (rdata_type_num (rr_rdata x)) n
        (reader_at (wr_buf w' @ rest) (length (wr_buf (write_u16 n ?w4))))
        = Inr (rr_rdata x, reader_at (wr_buf w' @ rest) (length (wr_buf w')))"
      using wf inv2 n by (intro rdata_parse_written) (auto simp: wf_rr_def write_fixed_def)
    ultimately show ?thesis using e2 e3 e4 e5
      by (simp add: rr_parse_def read_u16_extends read_u32_extends)
  qed
qed

end
