(* ===== verification/Message.thy ===== *)
theory Message
  imports Resource_Record
begin

text \<open>
  \<open>dnser-proto/src/message.rs\<close>: whole messages. The header carries the section counts and \<open>parse\<close>
  trusts them; \<open>to_bytes\<close> writes the header as it stands. \<open>wf_message\<close> is the domain of the wire
  format: counts that match the sections, a clear \<open>Z\<close> bit and well-formed entries.
\<close>

section \<open>Messages\<close>

record message =
  header :: header
  questions :: "question list"
  answers :: "resource_record list"
  authority :: "resource_record list"
  additional :: "resource_record list"

definition MAX_UDP_SIZE :: nat where "MAX_UDP_SIZE = 4096"

definition message_default :: message where
  "message_default =
     \<lparr>header = header_default, questions = [], answers = [], authority = [], additional = []\<rparr>"

definition message_parse :: "bytes \<Rightarrow> parse_error + message" where
  "message_parse buf =
     (let r = reader_new buf in
      and_then (header_parse r) (\<lambda>(h, r).
      and_then (parse_section question_parse (unat (qd_count h)) r) (\<lambda>(qs, r).
      and_then (parse_section rr_parse (unat (an_count h)) r) (\<lambda>(an, r).
      and_then (parse_section rr_parse (unat (ns_count h)) r) (\<lambda>(ns, r).
      and_then (parse_section rr_parse (unat (ar_count h)) r) (\<lambda>(ar, r).
      Inr \<lparr>header = h, questions = qs, answers = an, authority = ns, additional = ar\<rparr>))))))"

text \<open>\<open>TryFrom<Bytes>\<close> and \<open>TryFrom<&[u8]>\<close>: the slice is copied first.\<close>

definition message_try_from :: "bytes \<Rightarrow> parse_error + message" where
  "message_try_from buf = message_parse buf"

definition build_writer :: "message \<Rightarrow> write_error + writer" where
  "build_writer m =
     (let w = header_write (header m) writer_new in
      and_then (write_section question_write (questions m) w) (\<lambda>w.
      and_then (write_section rr_write (answers m) w) (\<lambda>w.
      and_then (write_section rr_write (authority m) w) (\<lambda>w.
      write_section rr_write (additional m) w))))"

definition to_bytes :: "message \<Rightarrow> write_error + bytes" where
  "to_bytes m = and_then (build_writer m) (\<lambda>w. Inr (finish w))"

definition to_bytes_mut :: "message \<Rightarrow> write_error + bytes" where
  "to_bytes_mut m = and_then (build_writer m) (\<lambda>w. Inr (into_inner w))"

definition message_opt :: "message \<Rightarrow> resource_record option" where
  "message_opt m = find is_opt (additional m)"

definition wf_message :: "message \<Rightarrow> bool" where
  "wf_message m \<longleftrightarrow> wf_header (header m) \<and>
     unat (qd_count (header m)) = length (questions m) \<and>
     unat (an_count (header m)) = length (answers m) \<and>
     unat (ns_count (header m)) = length (authority m) \<and>
     unat (ar_count (header m)) = length (additional m) \<and>
     (\<forall>q\<in>set (questions m). wf_question q) \<and>
     (\<forall>x\<in>set (answers m) \<union> set (authority m) \<union> set (additional m). wf_rr x)"

section \<open>Round trip\<close>

lemma to_bytes_mut_eq: "to_bytes_mut m = to_bytes m"
  by (simp add: to_bytes_mut_def to_bytes_def finish_def into_inner_def)

lemma build_writer_stages:
  assumes "build_writer m = Inr w"
  obtains w1 w2 w3 where
    "write_section question_write (questions m) (header_write (header m) writer_new) = Inr w1"
    "write_section rr_write (answers m) w1 = Inr w2"
    "write_section rr_write (authority m) w2 = Inr w3"
    "write_section rr_write (additional m) w3 = Inr w"
  using assms by (auto simp: build_writer_def result_simps)

lemma section_extends:
  "write_section question_write qs w = Inr w' \<Longrightarrow> extends w w'"
  "write_section rr_write xs w = Inr w' \<Longrightarrow> extends w w'"
  by (blast intro: appends_extends appends_write_section qu.write_appends rr.write_appends)+

lemma parse_built:
  assumes wf: "wf_message m" and wr: "build_writer m = Inr w"
  shows "message_parse (wr_buf w @ rest) = Inr m"
proof -
  let ?h = "header_write (header m) writer_new" and ?at = "\<lambda>n. reader_at (wr_buf w @ rest) n"
  obtain w1 w2 w3 where w1: "write_section question_write (questions m) ?h = Inr w1"
    and w2: "write_section rr_write (answers m) w1 = Inr w2"
    and w3: "write_section rr_write (authority m) w2 = Inr w3"
    and w4: "write_section rr_write (additional m) w3 = Inr w"
    using build_writer_stages [OF wr] .
  have i0: "writer_inv ?h" by (simp add: header_write_def Let_def)
  then have i1: "writer_inv w1" using wf w1 by (auto simp: wf_message_def intro: qu.section_write_inv)
  then have i2: "writer_inv w2" using wf w2 by (auto simp: wf_message_def intro: rr.section_write_inv)
  then have i3: "writer_inv w3" using wf w3 by (auto simp: wf_message_def intro: rr.section_write_inv)
  have e3: "extends w3 w" by (rule section_extends(2) [OF w4])
  have e2: "extends w2 w" by (rule extends_trans [OF section_extends(2) [OF w3] e3])
  have e1: "extends w1 w" by (rule extends_trans [OF section_extends(2) [OF w2] e2])
  have e0: "extends ?h w" by (rule extends_trans [OF section_extends(1) [OF w1] e1])
  have "header_parse (?at 0) = Inr (header m, ?at (length (wr_buf ?h)))"
    using e0 wf hd.parse_written [of "header m" writer_new ?h]
    by (auto simp: extends_def wf_message_def)
  moreover have "parse_section question_parse (length (questions m)) (?at (length (wr_buf ?h)))
      = Inr (questions m, ?at (length (wr_buf w1)))"
    using e1 wf qu.section_parse_written [OF _ i0 w1] by (auto simp: extends_def wf_message_def)
  moreover have "parse_section rr_parse (length (answers m)) (?at (length (wr_buf w1)))
      = Inr (answers m, ?at (length (wr_buf w2)))"
    using e2 wf rr.section_parse_written [OF _ i1 w2] by (auto simp: extends_def wf_message_def)
  moreover have "parse_section rr_parse (length (authority m)) (?at (length (wr_buf w2)))
      = Inr (authority m, ?at (length (wr_buf w3)))"
    using e3 wf rr.section_parse_written [OF _ i2 w3] by (auto simp: extends_def wf_message_def)
  moreover have "parse_section rr_parse (length (additional m)) (?at (length (wr_buf w3)))
      = Inr (additional m, ?at (length (wr_buf w)))"
    using wf rr.section_parse_written [OF _ i3 w4] by (auto simp: wf_message_def)
  ultimately show ?thesis
    using wf by (simp add: message_parse_def reader_new_def wf_message_def)
qed

lemma build_writer_ok: "wf_message m \<Longrightarrow> \<exists>w. build_writer m = Inr w"
proof -
  assume wf: "wf_message m"
  obtain w1 where w1: "write_section question_write (questions m) (header_write (header m) writer_new) = Inr w1"
    using qu.section_write_ok [of "questions m"] wf unfolding wf_message_def by blast
  obtain w2 where w2: "write_section rr_write (answers m) w1 = Inr w2"
    using rr.section_write_ok [of "answers m"] wf unfolding wf_message_def by blast
  obtain w3 where w3: "write_section rr_write (authority m) w2 = Inr w3"
    using rr.section_write_ok [of "authority m"] wf unfolding wf_message_def by blast
  obtain w4 where w4: "write_section rr_write (additional m) w3 = Inr w4"
    using rr.section_write_ok [of "additional m"] wf unfolding wf_message_def by blast
  from w1 w2 w3 w4 show ?thesis by (simp add: build_writer_def)
qed

section \<open>The header is a prefix\<close>

text \<open>
  The twelve header bytes come first and nothing after them depends on them: another header gives the
  same message with another prefix.
\<close>

definition header_bytes :: "header \<Rightarrow> bytes" where
  "header_bytes h = wr_buf (header_write h writer_new)"

lemma length_header_bytes [simp]: "length (header_bytes h) = 12"
  by (simp add: header_bytes_def length_header_write)

lemma header_write_new: "header_write h writer_new = \<lparr>wr_buf = header_bytes h, name_offsets = Map.empty\<rparr>"
  by (simp add: header_bytes_def header_write_def write_u16_def writer_new_def Let_def)

definition build_body :: "message \<Rightarrow> writer \<Rightarrow> write_error + writer" where
  "build_body m w =
      and_then (write_section question_write (questions m) w) (\<lambda>w.
      and_then (write_section rr_write (answers m) w) (\<lambda>w.
      and_then (write_section rr_write (authority m) w) (\<lambda>w.
      write_section rr_write (additional m) w)))"

lemma appends_build_body: "appends (build_body m)"
  unfolding build_body_def
  by (intro appends_and_then appends_write_section qu.write_appends rr.write_appends)

lemma to_bytes_header:
  assumes "to_bytes m = Inr b"
  obtains body where "b = header_bytes (header m) @ body"
    "\<And>h. to_bytes (m\<lparr>header := h\<rparr>) = Inr (header_bytes h @ body)"
proof -
  have build: "build_writer m' = build_body m' \<lparr>wr_buf = header_bytes (header m'), name_offsets = Map.empty\<rparr>" for m'
    by (simp add: build_writer_def build_body_def header_write_new)
  obtain w where w: "build_body m \<lparr>wr_buf = header_bytes (header m), name_offsets = Map.empty\<rparr> = Inr w" "b = wr_buf w"
    using assms by (auto simp: to_bytes_def build result_simps finish_def)
  obtain body where body: "wr_buf w = header_bytes (header m) @ body"
    "\<And>c. length c = 12 \<Longrightarrow> build_body m \<lparr>wr_buf = c, name_offsets = Map.empty\<rparr>
       = Inr \<lparr>wr_buf = c @ body, name_offsets = name_offsets w\<rparr>"
    using appendsE [OF appends_build_body w(1)] by auto
  have "build_body (m\<lparr>header := h\<rparr>) = build_body m" for h by (simp add: build_body_def fun_eq_iff)
  then have "to_bytes (m\<lparr>header := h\<rparr>) = Inr (header_bytes h @ body)" for h
    by (simp add: to_bytes_def build body finish_def)
  with that w body show thesis by simp
qed

section \<open>What a parsed message looks like\<close>

text \<open>
  Labels on the wire may contain the byte of the separator, so a parsed name may have empty pieces;
  but for that every parsed message is in the domain of the writer.
\<close>

definition no_empty_label :: "bytes \<Rightarrow> bool" where
  "no_empty_label n \<longleftrightarrow> n = [] \<or> [] \<notin> set (split_dots n)"

fun rdata_names :: "rdata \<Rightarrow> bytes list" where
  "rdata_names (RD_NS n) = [n]"
| "rdata_names (RD_CNAME n) = [n]"
| "rdata_names (RD_PTR n) = [n]"
| "rdata_names (RD_MX _ n) = [n]"
| "rdata_names (RD_SOA m r _ _ _ _ _) = [m, r]"
| "rdata_names (RD_SRV _ _ _ n) = [n]"
| "rdata_names _ = []"

definition message_names :: "message \<Rightarrow> bytes list" where
  "message_names m = map q_name (questions m) @
     concat (map (\<lambda>x. rr_name x # rdata_names (rr_rdata x)) (answers m @ authority m @ additional m))"

lemma split_dots_append_dot: "split_dots (xs @ dot # ys) = split_dots xs @ split_dots ys"
  by (induction xs) (auto split: list.splits)

lemma split_dots_length: "l \<in> set (split_dots s) \<Longrightarrow> length l \<le> length s"
proof (induction s arbitrary: l)
  case (Cons c cs)
  then show ?case by (auto split: if_splits list.splits) (fastforce intro: le_SucI)+
qed simp

lemma read_name_labels:
  assumes "read_name r = Inr (n, r')"
  shows "\<forall>l\<in>set (split_dots n). length l \<le> 63"
proof -
  from assms obtain p where "read_name_loop (rd_buf r) [] (rd_pos r) False 0 (rd_pos r) = Inr (n, p)"
    by (auto simp: read_name_def result_simps)
  then show ?thesis
  proof (rule read_name_loop_acc)
    fix nm l
    assume "\<forall>l\<in>set (split_dots nm). length l \<le> 63" "length (l :: bytes) \<le> 63"
    moreover from this(2) have "\<forall>k\<in>set (split_dots l). length k \<le> 63"
      by (meson le_trans split_dots_length)
    ultimately show "\<forall>k\<in>set (split_dots ((if nm \<noteq> [] then nm @ [dot] else nm) @ l)). length k \<le> 63"
      by (cases "nm = []") (auto simp: split_dots_append_dot)
  qed simp
qed

lemma read_name_wf_name:
  "read_name r = Inr (n, r') \<Longrightarrow> no_empty_label n \<Longrightarrow> wf_name n"
  using read_name_wf [of r n r'] read_name_labels [of r n r']
  by (auto simp: wf_name_def no_empty_label_def)

lemma question_parse_wf:
  "question_parse r = Inr (q, r') \<Longrightarrow> no_empty_label (q_name q) \<Longrightarrow> wf_question q"
  by (auto simp: question_parse_def result_simps Let_def wf_question_def split: if_splits
      dest: read_name_wf_name)

lemma read_bytes_length: "read_bytes n r = Inr (b, r') \<Longrightarrow> length b = n"
  by (auto simp: read_bytes_def split: if_splits)

lemma parse_txt_wf:
  "parse_txt n r = Inr (cs, r') \<Longrightarrow> (\<forall>c\<in>set cs. length c \<le> 255) \<and> length (txt_bytes cs) = n"
proof (induction n r arbitrary: cs r' rule: parse_txt.induct)
  case (1 n r)
  show ?case
  proof (cases "n = 0")
    case True
    with "1.prems" show ?thesis by auto
  next
    case False
    with "1.prems" obtain len r1 m c r2 cs2 where
      s: "read_u8 r = Inr (len, r1)" "ok_or RdataLengthMismatch (checked_sub n (1 + unat len)) = Inr m"
        "read_bytes (unat len) r1 = Inr (c, r2)" "parse_txt m r2 = Inr (cs2, r')" "cs = c # cs2"
      by (auto simp: parse_txt.simps [of n r] result_simps)
    have "(\<forall>c\<in>set cs2. length c \<le> 255) \<and> length (txt_bytes cs2) = m"
      using "1.IH" [OF False s(1) _ s(2) s(3) _ s(4)] by auto
    moreover have "length c \<le> 255" using read_bytes_length [OF s(3)] unat_lt_256 [of len] by simp
    moreover have "n = 1 + length c + m"
      using s(2) read_bytes_length [OF s(3)] by (auto simp: result_simps checked_sub_eq_Some)
    ultimately show ?thesis using s(5) by auto
  qed
qed

lemma parse_options_wf: "parse_options n r = Inr (xs, r') \<Longrightarrow> length (option_bytes xs) = n"
proof (induction n r arbitrary: xs r' rule: parse_options.induct)
  case (1 n r)
  show ?case
  proof (cases "n = 0")
    case True
    with "1.prems" show ?thesis by auto
  next
    case False
    with "1.prems" obtain code r1 len r2 m c r3 ys where
      s: "read_u16 r = Inr (code, r1)" "read_u16 r1 = Inr (len, r2)"
        "ok_or RdataLengthMismatch (checked_sub n (4 + unat len)) = Inr m"
        "read_bytes (unat len) r2 = Inr (c, r3)" "parse_options m r3 = Inr (ys, r')"
        "xs = \<lparr>opt_code = code, opt_data = c\<rparr> # ys"
      by (auto simp: parse_options.simps [of n r] result_simps)
    have "length (option_bytes ys) = m"
      using "1.IH" [OF False s(1) _ s(2) _ s(3) s(4) _ s(5)] by auto
    with s(3,6) read_bytes_length [OF s(4)] show ?thesis
      by (auto simp: result_simps checked_sub_eq_Some)
  qed
qed

lemma rdata_parse_wf:
  assumes "rdata_parse t n r = Inr (d, r')" "\<forall>x\<in>set (rdata_names d). no_empty_label x"
  shows "wf_rdata d"
proof -
  have "rdata_parse_inner t n r = Inr (d, r')"
    using assms(1) by (auto simp: rdata_parse_def result_simps split: if_splits)
  with assms(2) show ?thesis
    using unat_lt_65536 [of n]
    by (auto simp: rdata_parse_inner_def result_simps image_iff
        split: sum.splits record_type.splits if_splits
        dest: read_name_wf_name read_bytes_length parse_txt_wf parse_options_wf)
qed

lemma rr_parse_wf:
  "rr_parse r = Inr (x, r') \<Longrightarrow> no_empty_label (rr_name x) \<Longrightarrow>
     \<forall>n\<in>set (rdata_names (rr_rdata x)). no_empty_label n \<Longrightarrow> wf_rr x"
  by (auto simp: rr_parse_def result_simps wf_rr_def dest: read_name_wf_name rdata_parse_wf)

lemma message_parse_counts:
  assumes "message_parse b = Inr m"
  shows "wf_header (header m)"
    and "unat (qd_count (header m)) = length (questions m)"
    and "unat (an_count (header m)) = length (answers m)"
    and "unat (ns_count (header m)) = length (authority m)"
    and "unat (ar_count (header m)) = length (additional m)"
  using assms
  by (auto simp: message_parse_def result_simps dest: header_parse_wf parse_section_length)

lemma message_parse_elems:
  assumes "message_parse b = Inr m"
  shows "q \<in> set (questions m) \<Longrightarrow> \<exists>r r'. question_parse r = Inr (q, r')"
    and "x \<in> set (answers m) \<union> set (authority m) \<union> set (additional m) \<Longrightarrow> \<exists>r r'. rr_parse r = Inr (x, r')"
  using assms by (auto simp: message_parse_def result_simps dest: parse_section_elems)

lemma message_parse_wf:
  assumes "message_parse b = Inr m" "\<forall>n\<in>set (message_names m). no_empty_label n"
  shows "wf_message m"
proof -
  have "wf_question q" if "q \<in> set (questions m)" for q
    using that message_parse_elems(1) [OF assms(1) that] assms(2)
    by (auto simp: message_names_def intro: question_parse_wf)
  moreover have "wf_rr x" if "x \<in> set (answers m) \<union> set (authority m) \<union> set (additional m)" for x
  proof -
    have "no_empty_label (rr_name x)" "\<forall>n\<in>set (rdata_names (rr_rdata x)). no_empty_label n"
      using that assms(2) by (auto simp: message_names_def)
    with message_parse_elems(2) [OF assms(1) that] show ?thesis by (blast intro: rr_parse_wf)
  qed
  ultimately show ?thesis
    using message_parse_counts [OF assms(1)] by (simp add: wf_message_def)
qed

end
