(* ===== verification/Proto_Props.thy ===== *)
theory Proto_Props
  imports Message
begin

text \<open>Properties of the wire format: messages, names, code points, flags and EDNS fields.\<close>

section \<open>Examples\<close>

definition px_query :: message where
  "px_query =
     \<lparr>header = \<lparr>h_id = 0x1234, h_flags = 0x0100, qd_count = 1, an_count = 0, ns_count = 0, ar_count = 1\<rparr>,
      questions = [\<lparr>q_name = map of_char ''www.example.com'', qtype = RT_A, qclass = class_IN\<rparr>],
      answers = [], authority = [], additional = [edns_opt 1232]\<rparr>"

definition px_reply :: message where
  "px_reply =
     \<lparr>header = \<lparr>h_id = 0x1234, h_flags = 0x8180, qd_count = 1, an_count = 2, ns_count = 0, ar_count = 0\<rparr>,
      questions = [\<lparr>q_name = map of_char ''www.example.com'', qtype = RT_A, qclass = class_IN\<rparr>],
      answers =
        [\<lparr>rr_name = map of_char ''www.example.com'', rr_class = class_IN, rr_ttl = 60,
          rr_rdata = RD_CNAME (map of_char ''host.example.com'')\<rparr>,
         \<lparr>rr_name = map of_char ''host.example.com'', rr_class = class_IN, rr_ttl = 60,
          rr_rdata = RD_A (Ipv4Addr 192 0 2 1)\<rparr>],
      authority = [], additional = []\<rparr>"

lemma px_wf: "wf_message px_query" "wf_message px_reply"
  by code_simp+

section \<open>Messages\<close>

lemma to_bytes_Inr: "to_bytes m = Inr b \<longleftrightarrow> (\<exists>w. build_writer m = Inr w \<and> b = wr_buf w)"
  by (auto simp: to_bytes_def result_simps finish_def)

text \<open>
  C7: messages round-trip. Every well-formed message is serialised, with name compression across all
  its sections, into bytes that parse back to exactly that message, also when other bytes follow.
\<close>

theorem message_roundtrip:
  assumes "wf_message m"
  shows "\<exists>b. to_bytes m = Inr b \<and> to_bytes_mut m = Inr b \<and> (\<forall>rest. message_parse (b @ rest) = Inr m)"
  using build_writer_ok [OF assms] parse_built [OF assms] by (auto simp: to_bytes_mut_eq to_bytes_Inr)

theorem message_roundtrip_witness:
  "\<exists>b. to_bytes px_reply = Inr b \<and> message_parse (b @ [1, 2, 3]) = Inr px_reply"
  using message_roundtrip [OF px_wf(2)] by blast

text \<open>
  C17: parsing normalises. A message that was parsed, from whatever compression its sender chose, can be
  serialised again as long as none of its names has an empty label between two dots, and the result
  parses to the same message.
\<close>

theorem parsed_message_reserialises:
  assumes "message_parse b = Inr m" "\<forall>n \<in> set (message_names m). no_empty_label n"
  shows "\<exists>b'. to_bytes m = Inr b' \<and> message_parse b' = Inr m"
  using build_writer_ok [OF message_parse_wf [OF assms]] parse_built [OF message_parse_wf [OF assms], of _ "[]"]
  by (auto simp: to_bytes_Inr)

definition px_compressed :: bytes where
  "px_compressed = [0, 1, 0x81, 0x80, 0, 1, 0, 1, 0, 0, 0, 0,
     1, 97, 0, 0, 1, 0, 1,
     1, 98, 0xC0, 12, 0, 1, 0, 1, 0, 0, 0, 60, 0, 4, 192, 0, 2, 1]"

theorem parsed_message_reserialises_witness:
  "\<exists>m b'. message_parse px_compressed = Inr m \<and> to_bytes m = Inr b' \<and> message_parse b' = Inr m"
proof -
  have "case message_parse px_compressed of Inl e \<Rightarrow> False | Inr m \<Rightarrow> list_all no_empty_label (message_names m)"
    by code_simp
  then obtain m where "message_parse px_compressed = Inr m" "\<forall>n \<in> set (message_names m). no_empty_label n"
    by (auto simp: list_all_iff split: sum.splits)
  with parsed_message_reserialises [OF this] show ?thesis by blast
qed

text \<open>
  C18: what a parsed message guarantees to the rest of the server: the reserved bit is clear, the four
  section counts of the header are the lengths of the sections, and every name in it, of questions,
  owners and record data, is valid UTF-8 of at most 253 bytes.
\<close>

lemma rdata_names_ok:
  assumes "rdata_parse t n r = Inr (d, r')" "x \<in> set (rdata_names d)"
  shows "length x \<le> MAX_NAME_LEN \<and> valid_utf8 x"
proof -
  have "rdata_parse_inner t n r = Inr (d, r')"
    using assms(1) by (auto simp: rdata_parse_def result_simps split: if_splits)
  with assms(2) show ?thesis
    by (auto simp: rdata_parse_inner_def result_simps split: sum.splits record_type.splits if_splits
        dest: read_name_wf)
qed

theorem parsed_message_guarantees:
  assumes "message_parse b = Inr m"
  shows "h_flags (header m) AND H_Z = 0 \<and>
    unat (qd_count (header m)) = length (questions m) \<and> unat (an_count (header m)) = length (answers m) \<and>
    unat (ns_count (header m)) = length (authority m) \<and> unat (ar_count (header m)) = length (additional m) \<and>
    (\<forall>n \<in> set (message_names m). length n \<le> 253 \<and> valid_utf8 n)"
proof -
  have q: "length (q_name x) \<le> MAX_NAME_LEN \<and> valid_utf8 (q_name x)" if "x \<in> set (questions m)" for x
    using message_parse_elems(1) [OF assms that] by (auto simp: question_parse_def result_simps Let_def dest: read_name_wf split: if_splits)
  have r: "length n \<le> MAX_NAME_LEN \<and> valid_utf8 n"
    if "x \<in> set (answers m) \<union> set (authority m) \<union> set (additional m)"
      "n = rr_name x \<or> n \<in> set (rdata_names (rr_rdata x))" for x n
    using message_parse_elems(2) [OF assms that(1)] that(2)
    by (auto simp: rr_parse_def result_simps dest: read_name_wf rdata_names_ok)
  have "\<forall>n \<in> set (message_names m). length n \<le> MAX_NAME_LEN \<and> valid_utf8 n"
    using q r by (auto simp: message_names_def)
  then show ?thesis
    using message_parse_counts [OF assms] by (simp add: wf_header_def MAX_NAME_LEN_def)
qed

theorem parsed_message_guarantees_witness:
  "\<exists>m. message_parse px_compressed = Inr m \<and> unat (an_count (header m)) = length (answers m)"
proof -
  have "is_ok (message_parse px_compressed)" by code_simp
  then obtain m where "message_parse px_compressed = Inr m" by (auto simp: is_ok_def split: sum.splits)
  with parsed_message_guarantees [OF this] show ?thesis by blast
qed

text \<open>input that does not hold a whole header is refused, and never read past its end.\<close>

lemma short_message_refused:
  assumes "length b < 12"
  shows "message_parse b = Inl UnexpectedEof \<or> message_parse b = Inl ReservedBitSet"
  using assms
  by (auto simp: message_parse_def header_parse_def read_u16_def reader_new_def and_then_def Let_def
      split: if_splits sum.splits)

section \<open>Names\<close>

text \<open>
  C19: name compression is sound. In a writer whose table of offsets is true to its buffer, a name is
  written so that it reads back at its place whatever is written after it, the reader ends up behind
  the written bytes, the table stays true, and the name takes at most two bytes more than its text.
\<close>

theorem write_name_roundtrip:
  assumes "wf_name n" "writer_inv w"
  shows "\<exists>w'. write_name n w = Inr w' \<and> writer_inv w' \<and>
    length (wr_buf w') \<le> length (wr_buf w) + length n + 2 \<and>
    (\<forall>rest. read_name \<lparr>rd_buf = wr_buf w' @ rest, rd_pos = length (wr_buf w)\<rparr>
       = Inr (n, \<lparr>rd_buf = wr_buf w' @ rest, rd_pos = length (wr_buf w')\<rparr>))"
  using write_name_ok [OF assms(1), of w] write_name_correct [OF _ assms] write_name_length by blast

theorem write_name_roundtrip_witness:
  "\<exists>w'. write_name (map of_char ''a.example'') writer_new = Inr w' \<and> length (wr_buf w') \<le> 11"
proof -
  have "wf_name (map of_char ''a.example'')" by code_simp
  from write_name_roundtrip [OF this writer_inv_new] show ?thesis by auto
qed

text \<open>Where the octets of a name lead: to the target of a pointer, or past a label.\<close>

definition name_next :: "bytes \<Rightarrow> nat \<Rightarrow> nat" where
  "name_next buf p =
     (if buf ! p AND 0xC0 = 0xC0 then pointer_offset (buf ! p) (buf ! (p + 1)) else p + 1 + unat (buf ! p))"

text \<open>Positions that lead only to each other, with no end of a name among them.\<close>

definition name_cycle :: "bytes \<Rightarrow> nat set \<Rightarrow> bool" where
  "name_cycle buf P \<longleftrightarrow>
     (\<forall>p \<in> P. p < length buf \<longrightarrow> buf ! p \<noteq> 0 \<and> (p + 1 < length buf \<longrightarrow> name_next buf p \<in> P))"

lemma name_cycle_refused:
  "name_cycle buf P \<Longrightarrow> pos \<in> P \<Longrightarrow> \<exists>e. read_name_loop buf nm pos jumped jumps sp = Inl e"
proof (induction buf nm pos jumped jumps sp rule: read_name_loop.induct)
  case (1 buf nm pos jumped jumps sp)
  have next_in: "name_next buf pos \<in> P" "buf ! pos \<noteq> 0" if "pos + 1 < length buf"
    using 1(3,4) that by (auto simp: name_cycle_def)
  have nonzero: "buf ! pos \<noteq> 0" if "pos < length buf" using 1(3,4) that by (auto simp: name_cycle_def)
  show ?case
  proof (cases "jumps \<ge> MAX_JUMPS \<or> pos \<ge> length buf")
    case True
    then show ?thesis by (subst read_name_loop.simps) auto
  next
    case False
    show ?thesis
    proof (cases "buf ! pos AND 0xC0 = 0xC0")
      case True
      with False nonzero next_in(1) 1(1) [OF _ _ _ True] 1(3) show ?thesis
        by (subst read_name_loop.simps) (auto simp: name_next_def)
    next
      case label: False
      show ?thesis
      proof (cases "unat (buf ! pos) > 63 \<or> pos + 1 + unat (buf ! pos) > length buf")
        case True
        with False label nonzero show ?thesis by (subst read_name_loop.simps) auto
      next
        case short: False
        have "0 < unat (buf ! pos)" using False nonzero by (simp add: unat_gt_0)
        with short next_in(1) label have "pos + 1 + unat (buf ! pos) \<in> P" by (simp add: name_next_def)
        with False label short nonzero 1(2) [OF _ _ _ label] 1(3) show ?thesis
          by (subst read_name_loop.simps) (auto simp: result_simps and_then_def split: sum.splits)
      qed
    qed
  qed
qed

lemma pointer_cycle_loop:
  assumes "name_cycle buf P" "\<forall>p \<in> P. p + 1 < length buf \<and> buf ! p AND 0xC0 = 0xC0"
  shows "pos \<in> P \<Longrightarrow> read_name_loop buf nm pos jumped jumps sp = Inl PointerLoop"
proof (induction "MAX_JUMPS - jumps" arbitrary: pos jumps jumped sp)
  case (Suc n)
  have pos: "pos + 1 < length buf" "buf ! pos AND 0xC0 = 0xC0" using assms(2) Suc.prems by auto
  then have "buf ! pos \<noteq> 0" by auto
  have nxt: "pointer_offset (buf ! pos) (buf ! (pos + 1)) \<in> P"
    using assms(1) Suc.prems pos by (auto simp: name_cycle_def name_next_def)
  moreover from this have "pointer_offset (buf ! pos) (buf ! (pos + 1)) < length buf" using assms(2) by fastforce
  moreover have "read_name_loop buf nm (pointer_offset (buf ! pos) (buf ! (pos + 1))) True (jumps + 1) s = Inl PointerLoop" for s
    using Suc nxt by simp
  ultimately show ?case using pos \<open>buf ! pos \<noteq> 0\<close> by (subst read_name_loop.simps) auto
qed (subst read_name_loop.simps, simp)

text \<open>
  C20: cycles in compressed names. \<open>read_name\<close> returns on every input, and a name that runs into a cycle
  of pointers and labels, whatever its shape, is refused; if the cycle is made of pointers alone, as
  \<open>PointerLoop\<close>.
\<close>

theorem cyclic_name_refused:
  assumes "name_cycle (rd_buf r) P" "rd_pos r \<in> P"
  shows "\<exists>e. read_name r = Inl e \<and>
    ((\<forall>p \<in> P. p + 1 < length (rd_buf r) \<and> rd_buf r ! p AND 0xC0 = 0xC0) \<longrightarrow> e = PointerLoop)"
proof -
  obtain e where "read_name_loop (rd_buf r) [] (rd_pos r) False 0 (rd_pos r) = Inl e"
    using name_cycle_refused [OF assms] by blast
  then show ?thesis using pointer_cycle_loop [OF assms(1) _ assms(2)] by (auto simp: read_name_def)
qed

theorem cyclic_name_refused_witness:
  "read_name \<lparr>rd_buf = [0xC0, 2, 0xC0, 0], rd_pos = 0\<rparr> = Inl PointerLoop \<and>
   (\<exists>e. read_name \<lparr>rd_buf = [1, 97, 0xC0, 0], rd_pos = 0\<rparr> = Inl e)"
proof
  let ?r = "\<lparr>rd_buf = [0xC0, 2, 0xC0, 0], rd_pos = 0\<rparr>"
  have "name_cycle (rd_buf ?r) {0, 2}" by (simp add: name_cycle_def name_next_def pointer_offset_def)
  from cyclic_name_refused [OF this] show "read_name ?r = Inl PointerLoop" by auto
next
  let ?r = "\<lparr>rd_buf = [1, 97, 0xC0, 0], rd_pos = 0\<rparr>"
  have "name_cycle (rd_buf ?r) {0, 2}" by (simp add: name_cycle_def name_next_def pointer_offset_def)
  from cyclic_name_refused [OF this] show "\<exists>e. read_name ?r = Inl e" by auto
qed

section \<open>Code points and flags\<close>

text \<open>
  The enums of the wire format and their numbers correspond one to one: \<open>TryFrom\<close> accepts a number
  just when it is the number of the value it returns, and hands an unassigned number back.
\<close>

lemma code_points_exact:
  "(opcode_try_from n = Inr op \<longleftrightarrow> n = opcode_val op) \<and> (opcode_try_from n = Inl e \<longleftrightarrow> e = n \<and> n \<notin> range opcode_val) \<and>
   (rcode_try_from n = Inr rc \<longleftrightarrow> n = rcode_val rc) \<and> (rcode_try_from n = Inl e \<longleftrightarrow> e = n \<and> n \<notin> range rcode_val) \<and>
   (record_type_try_from t = Inr rt \<longleftrightarrow> t = record_type_val rt) \<and>
   (record_type_try_from t = Inl e' \<longleftrightarrow> e' = t \<and> t \<notin> range record_type_val)"
  by (intro conjI oc.try_from_ok oc.try_from_rejects rc.try_from_ok rc.try_from_rejects rt.try_from_ok
      rt.try_from_rejects)

text \<open>
  \<open>reply_to\<close> makes a response to the query: same ID, same question count, no records yet, the RD bit
  copied from the query, QR and the requested flags set, every other flag clear.
\<close>

lemma reply_to_flags:
  "h_id (reply_to q x) = h_id q \<and> qd_count (reply_to q x) = qd_count q \<and> an_count (reply_to q x) = 0 \<and>
   ns_count (reply_to q x) = 0 \<and> ar_count (reply_to q x) = 0 \<and> is_response (reply_to q x) \<and>
   recursion_desired (reply_to q x) = (recursion_desired q \<or> x AND H_RD \<noteq> 0) \<and>
   (\<forall>n. bit (h_flags (reply_to q x)) n \<longleftrightarrow> n = 15 \<or> bit x n \<or> n = 8 \<and> bit (h_flags q) 8)"
proof -
  have "bit (h_flags (reply_to q x)) n \<longleftrightarrow> n = 15 \<or> bit x n \<or> n = 8 \<and> bit (h_flags q) 8" for n
    by (simp add: reply_to_def header_default_def bit_reply_flags)
  moreover from this have "is_response (reply_to q x)"
    "recursion_desired (reply_to q x) = (recursion_desired q \<or> x AND H_RD \<noteq> 0)"
    unfolding is_response_def recursion_desired_def flag_bit by auto
  ultimately show ?thesis by (simp add: reply_to_def header_default_def)
qed

text \<open>
  The EDNS fields packed into the TTL are independent: writing the extended RCODE of an OPT record
  makes it read back and leaves the version and the UDP size alone; on any other record the setter does
  nothing and the getters return nothing.
\<close>

lemma edns_extended_rcode_field:
  "edns_extended_rcode (set_edns_extended_rcode c rr) = (if is_opt rr then Some c else None) \<and>
   edns_version (set_edns_extended_rcode c rr) = edns_version rr \<and>
   edns_udp_size (set_edns_extended_rcode c rr) = edns_udp_size rr \<and>
   (\<not> is_opt rr \<longrightarrow> set_edns_extended_rcode c rr = rr)"
proof (cases "is_opt rr")
  case True
  then have "is_opt (rr\<lparr>rr_ttl := t\<rparr>)" "rr_ttl (rr\<lparr>rr_ttl := t\<rparr>) = t"
      "rr_class (rr\<lparr>rr_ttl := t\<rparr>) = rr_class rr" for t
    by (simp_all add: is_opt_def)
  with True show ?thesis
    by (simp only: set_edns_extended_rcode_def edns_extended_rcode_def edns_version_def edns_udp_size_def
        then_some_def if_True ttl_top_byte ttl_version_byte simp_thms)
qed (simp add: set_edns_extended_rcode_def edns_extended_rcode_def then_some_def)

text \<open>
  RDLENGTH is written modulo 65536. A record whose data is longer is written without an error, with
  a length field that does not match the data that follow.
\<close>

lemma rdlength_wraps:
  "\<exists>w'. rr_write \<lparr>rr_name = [], rr_class = DnsClass 1, rr_ttl = 0, rr_rdata = RD_Unknown 999 d\<rparr> w = Inr w' \<and>
     wr_buf w' = wr_buf w @ [0] @ u16_to_be_bytes 999 @ u16_to_be_bytes 1 @ u32_to_be_bytes 0
       @ u16_to_be_bytes (of_nat (length d)) @ d"
  by (auto simp: rr_write_def write_name_def rr_record_type_def write_defs reserve_u16_def backfill_u16_def
      Let_def and_then_def list_update_append u16_to_be_bytes_def u16_from_class_def)

end
