(* ===== verification/Cache.thy ===== *)
theory Cache
  imports Message "HOL-Library.AList" "HOL-Library.Multiset"
begin

text \<open>
  \<open>dnser-cache/src/lib.rs\<close>: the sharded response cache. A shard is the association list of its
  \<open>HashMap\<close> (distinct keys); the iteration order of the map, which only eviction observes, is an
  argument \<open>it\<close> of the operations that iterate, for each call anew, and the theorems assume of it
  only that it lists the entries of the map (\<open>iter_order\<close>). Time is an argument \<open>now\<close> in
  nanoseconds. \<open>len\<close> is the \<open>AtomicUsize\<close> counter as a 64-bit word. The keyed hash functions, of
  \<open>RandomState\<close> for the shard index (\<open>build_hasher\<close>) and of the \<open>hashbrown\<close> map of every shard
  (\<open>map_hashers\<close>), are functions of the sequence of calls a value makes on its \<open>Hasher\<close>.
  Each operation is modelled as one atomic step.
\<close>

section \<open>Keys and lookups\<close>

definition NUM_SHARDS :: nat where "NUM_SHARDS = 64"

record cache_key =
  ck_name :: bytes
  ck_qtype :: u16
  ck_qclass :: u16

record lookup =
  lk_name :: bytes
  lk_qtype :: u16
  lk_qclass :: u16

definition cache_key_from_question :: "question \<Rightarrow> cache_key" where
  "cache_key_from_question q =
     \<lparr>ck_name = str_to_ascii_lowercase (q_name q),
      ck_qtype = record_type_val (qtype q),
      ck_qclass = u16_from_class (qclass q)\<rparr>"

definition lookup_from_question :: "question \<Rightarrow> lookup" where
  "lookup_from_question q =
     \<lparr>lk_name = q_name q,
      lk_qtype = record_type_val (qtype q),
      lk_qclass = u16_from_class (qclass q)\<rparr>"

text \<open>
  What a value feeds to its \<open>Hasher\<close>: the sequence of calls. The derived \<open>Hash\<close> of \<open>CacheKey\<close> hashes
  the fields in order; a \<open>str\<close> is one \<open>write\<close> of its bytes and a \<open>write_u8(0xff)\<close>.
\<close>

datatype hasher_call = H_write bytes | H_write_u8 u8 | H_write_u16 u16

type_synonym hasher = "hasher_call list \<Rightarrow> u64"

definition key_hash_calls :: "cache_key \<Rightarrow> hasher_call list" where
  "key_hash_calls k =
     [H_write (ck_name k), H_write_u8 0xFF, H_write_u16 (ck_qtype k), H_write_u16 (ck_qclass k)]"

text \<open>\<open>Lookup::hash\<close>: lowercase into a stack buffer, write its prefix, then the tail byte by byte.\<close>

definition lookup_stack_buf :: "bytes \<Rightarrow> bytes" where
  "lookup_stack_buf name =
     fold (\<lambda>i buf. buf[i := to_ascii_lowercase (name ! i)])
       [0..<min (length name) MAX_NAME_LEN] (replicate MAX_NAME_LEN 0)"

definition lookup_hash_calls :: "lookup \<Rightarrow> hasher_call list" where
  "lookup_hash_calls l =
     (let n = min (length (lk_name l)) MAX_NAME_LEN
      in [H_write (take n (lookup_stack_buf (lk_name l)))]
           @ map (\<lambda>b. H_write_u8 (to_ascii_lowercase b)) (drop n (lk_name l))
           @ [H_write_u8 0xFF, H_write_u16 (lk_qtype l), H_write_u16 (lk_qclass l)])"

definition equivalent :: "lookup \<Rightarrow> cache_key \<Rightarrow> bool" where
  "equivalent l k \<longleftrightarrow>
     lk_qtype l = ck_qtype k \<and> lk_qclass l = ck_qclass k \<and>
     length (lk_name l) = length (ck_name k) \<and>
     list_all (\<lambda>(a, b). to_ascii_lowercase a = b) (zip (lk_name l) (ck_name k))"

section \<open>State\<close>

type_synonym instant = nat

definition nanos_per_sec :: nat where "nanos_per_sec = 1000000000"

record cache_entry =
  ce_response :: message
  inserted_at :: instant
  expires_at :: instant

type_synonym shard = "(cache_key \<times> cache_entry) list"

record cache =
  shards :: "shard list"
  build_hasher :: hasher
  map_hashers :: "nat \<Rightarrow> hasher"
  capacity :: u64
  clen :: u64
  max_negative_ttl :: u32

definition cache_new :: "hasher \<Rightarrow> (nat \<Rightarrow> hasher) \<Rightarrow> u64 \<Rightarrow> u32 \<Rightarrow> cache" where
  "cache_new h hs cap neg =
     \<lparr>shards = replicate NUM_SHARDS [], build_hasher = h, map_hashers = hs, capacity = cap, clen = 0,
      max_negative_ttl = neg\<rparr>"

definition shard_index :: "cache \<Rightarrow> hasher_call list \<Rightarrow> nat" where
  "shard_index c key = unat (build_hasher c key AND of_nat (NUM_SHARDS - 1))"

definition cache_len :: "cache \<Rightarrow> u64" where
  "cache_len c = clen c"

definition cache_is_empty :: "cache \<Rightarrow> bool" where
  "cache_is_empty c \<longleftrightarrow> clen c = 0"

section \<open>Lookup\<close>

definition rewrite_ttls :: "u32 \<Rightarrow> resource_record list \<Rightarrow> resource_record list" where
  "rewrite_ttls elapsed_secs records =
     map (\<lambda>rr. rr\<lparr>rr_ttl := saturating_sub (rr_ttl rr) elapsed_secs\<rparr>) records"

text \<open>
  \<open>HashMap::get\<close> with an \<open>Equivalent\<close> key finds the entry whose key is equivalent, provided both
  have the same hash.
\<close>

definition shard_get :: "hasher \<Rightarrow> lookup \<Rightarrow> shard \<Rightarrow> cache_entry option" where
  "shard_get h l s =
     map_option snd (find (\<lambda>(k, e). h (key_hash_calls k) = h (lookup_hash_calls l) \<and> equivalent l k) s)"

definition elapsed_secs :: "instant \<Rightarrow> instant \<Rightarrow> u32" where
  "elapsed_secs now t = of_nat (min ((now - t) div nanos_per_sec) 0xFFFFFFFF)"

definition cache_get :: "cache \<Rightarrow> question \<Rightarrow> instant \<Rightarrow> message option" where
  "cache_get c question now =
     (let lookup = lookup_from_question question;
          i = shard_index c (lookup_hash_calls lookup)
      in case shard_get (map_hashers c i) lookup (shards c ! i) of
           None \<Rightarrow> None
         | Some entry \<Rightarrow>
             if now \<ge> expires_at entry then None
             else
               let elapsed = elapsed_secs now (inserted_at entry);
                   response = ce_response entry
               in Some (response\<lparr>answers := rewrite_ttls elapsed (answers response),
                                 authority := rewrite_ttls elapsed (authority response),
                                 additional := rewrite_ttls elapsed (additional response)\<rparr>))"

section \<open>Eviction\<close>

text \<open>
  The closure of \<open>evict_one\<close> over the iteration: the first expired key stops it, and the first key
  that is not expired is remembered on the way.
\<close>

fun evict_scan ::
    "instant \<Rightarrow> (cache_key \<times> cache_entry) list \<Rightarrow> cache_key option \<Rightarrow> cache_key option \<times> cache_key option" where
  "evict_scan now [] first = (None, first)"
| "evict_scan now ((k, e) # es) first =
     (if now \<ge> expires_at e then (Some k, first)
      else evict_scan now es (if first = None then Some k else first))"

definition evict_one :: "(shard \<Rightarrow> shard) \<Rightarrow> instant \<Rightarrow> shard \<Rightarrow> shard \<times> bool" where
  "evict_one it now s =
     (let (expired, first) = evict_scan now (it s) None
      in case (case expired of Some k \<Rightarrow> Some k | None \<Rightarrow> first) of
           Some k \<Rightarrow> (AList.delete k s, True)
         | None \<Rightarrow> (s, False))"

text \<open>The loop over the other shards when the target shard has nothing to evict.\<close>

fun evict_other ::
    "(nat \<Rightarrow> shard \<Rightarrow> shard) \<Rightarrow> instant \<Rightarrow> nat \<Rightarrow> nat list \<Rightarrow> shard list \<Rightarrow> shard list \<times> bool" where
  "evict_other it now shard_i [] ss = (ss, False)"
| "evict_other it now shard_i (i # is) ss =
     (if i = shard_i then evict_other it now shard_i is ss
      else
        let (s', evicted) = evict_one (it i) now (ss ! i)
        in if evicted then (ss[i := s'], True) else evict_other it now shard_i is ss)"

section \<open>Insertion\<close>

fun soa_negative_ttl :: "resource_record list \<Rightarrow> u32 option" where
  "soa_negative_ttl [] = None"
| "soa_negative_ttl (rr # rrs) =
     (case rr_rdata rr of
        RD_SOA _ _ _ _ _ _ minimum \<Rightarrow> Some (min (rr_ttl rr) minimum)
      | _ \<Rightarrow> soa_negative_ttl rrs)"

fun iter_min :: "u32 list \<Rightarrow> u32 option" where
  "iter_min [] = None"
| "iter_min (x # xs) = (case iter_min xs of None \<Rightarrow> Some x | Some y \<Rightarrow> Some (min x y))"

text \<open>\<open>effective_ttl\<close> of \<open>insert\<close>; the outer \<open>None\<close> is the early return for other response codes.\<close>

definition effective_ttl :: "u32 \<Rightarrow> rcode \<Rightarrow> message \<Rightarrow> u32 option option" where
  "effective_ttl neg rcode response =
     (case rcode of
        NoError \<Rightarrow>
          Some (if answers response = []
                then map_option (\<lambda>t. min t neg) (soa_negative_ttl (authority response))
                else iter_min (map rr_ttl (answers response)))
      | NXDomain \<Rightarrow> Some (map_option (\<lambda>t. min t neg) (soa_negative_ttl (authority response)))
      | _ \<Rightarrow> None)"

text \<open>The second half of \<open>insert\<close>, with the write lock: make room, store the entry, count it.\<close>

definition cache_make_room :: "(nat \<Rightarrow> shard \<Rightarrow> shard) \<Rightarrow> cache \<Rightarrow> nat \<Rightarrow> instant \<Rightarrow> cache" where
  "cache_make_room it c shard_i now =
     (if clen c \<ge> capacity c
      then
        let (s', evicted) = evict_one (it shard_i) now (shards c ! shard_i)
        in if evicted then c\<lparr>shards := (shards c)[shard_i := s'], clen := clen c - 1\<rparr>
           else
             let (ss', evicted) = evict_other it now shard_i [0..<length (shards c)] (shards c)
             in if evicted then c\<lparr>shards := ss', clen := clen c - 1\<rparr> else c
      else c)"

definition cache_put :: "cache \<Rightarrow> nat \<Rightarrow> cache_key \<Rightarrow> cache_entry \<Rightarrow> cache" where
  "cache_put c shard_i key entry =
     (let shard = shards c ! shard_i;
          is_new = (map_of shard key = None);
          c = c\<lparr>shards := (shards c)[shard_i := AList.update key entry shard]\<rparr>
      in if is_new then c\<lparr>clen := clen c + 1\<rparr> else c)"

definition cache_store ::
    "(nat \<Rightarrow> shard \<Rightarrow> shard) \<Rightarrow> cache \<Rightarrow> cache_key \<Rightarrow> cache_entry \<Rightarrow> instant \<Rightarrow> cache" where
  "cache_store it c key entry now =
     (let shard_i = shard_index c (key_hash_calls key)
      in cache_put (cache_make_room it c shard_i now) shard_i key entry)"

definition cache_insert :: "(nat \<Rightarrow> shard \<Rightarrow> shard) \<Rightarrow> cache \<Rightarrow> message \<Rightarrow> instant \<Rightarrow> cache" where
  "cache_insert it c response now =
     (case questions response of
        [question] \<Rightarrow>
          if is_truncated (header response) then c
          else
            (case header_rcode (header response) of
               Inl _ \<Rightarrow> c
             | Inr rcode \<Rightarrow>
                 (case effective_ttl (max_negative_ttl c) rcode response of
                    None \<Rightarrow> c
                  | Some None \<Rightarrow> c
                  | Some (Some ttl) \<Rightarrow>
                      if ttl = 0 then c
                      else
                        cache_store it c (cache_key_from_question question)
                          \<lparr>ce_response = response, inserted_at = now,
                           expires_at = now + unat ttl * nanos_per_sec\<rparr> now))
      | _ \<Rightarrow> c)"

section \<open>The reaper's sweep\<close>

fun evict_expired_shards :: "instant \<Rightarrow> shard list \<Rightarrow> u64 \<Rightarrow> shard list \<times> u64" where
  "evict_expired_shards now [] n = ([], n)"
| "evict_expired_shards now (s # ss) n =
     (let s' = filter (\<lambda>(_, v). now < expires_at v) s;
          removed = length s - length s';
          (ss', n') = evict_expired_shards now ss (n - of_nat removed)
      in (s' # ss', n'))"

definition cache_evict_expired :: "cache \<Rightarrow> instant \<Rightarrow> cache" where
  "cache_evict_expired c now =
     (let (ss, n) = evict_expired_shards now (shards c) (clen c) in c\<lparr>shards := ss, clen := n\<rparr>)"

section \<open>A lookup hashes like the key it looks for\<close>

lemma fold_list_update:
  "k \<le> length xs \<Longrightarrow> fold (\<lambda>i b. b[i := f i]) [0..<k] xs = map f [0..<k] @ drop k xs"
proof (induction k)
  case (Suc k)
  then have "k < length xs" by simp
  then have "drop k xs = xs ! k # drop (Suc k) xs" by (simp add: Cons_nth_drop_Suc)
  with Suc show ?case by (simp add: list_update_append)
qed simp

lemma take_lookup_stack_buf:
  assumes "n = min (length name) MAX_NAME_LEN"
  shows "take n (lookup_stack_buf name) = map to_ascii_lowercase (take n name)"
proof -
  have "lookup_stack_buf name = map (\<lambda>i. to_ascii_lowercase (name ! i)) [0..<n] @ drop n (replicate MAX_NAME_LEN 0)"
    unfolding lookup_stack_buf_def assms by (rule fold_list_update) simp
  moreover have "map (\<lambda>i. to_ascii_lowercase (name ! i)) [0..<n] = map to_ascii_lowercase (take n name)"
    using assms by (intro nth_equalityI) simp_all
  moreover have "length (map to_ascii_lowercase (take n name)) = n" using assms by simp
  ultimately show ?thesis by (metis append_eq_conv_conj)
qed

lemma lookup_hash_calls_eq:
  "lookup_hash_calls l =
     [H_write (map to_ascii_lowercase (take MAX_NAME_LEN (lk_name l)))]
       @ map (\<lambda>b. H_write_u8 (to_ascii_lowercase b)) (drop MAX_NAME_LEN (lk_name l))
       @ [H_write_u8 0xFF, H_write_u16 (lk_qtype l), H_write_u16 (lk_qclass l)]"
  using take_lookup_stack_buf [OF refl, of "lk_name l"]
  by (cases "length (lk_name l) \<le> MAX_NAME_LEN")
     (simp_all add: lookup_hash_calls_def Let_def min_def)

lemma equivalent_iff:
  "equivalent l k \<longleftrightarrow> lk_qtype l = ck_qtype k \<and> lk_qclass l = ck_qclass k \<and>
     map to_ascii_lowercase (lk_name l) = ck_name k"
proof -
  have *: "length xs = length ys \<Longrightarrow>
      list_all (\<lambda>(a, b). to_ascii_lowercase a = b) (zip xs ys) \<longleftrightarrow> map to_ascii_lowercase xs = ys"
    for xs ys :: bytes
    by (induction xs ys rule: list_induct2) auto
  show ?thesis
  proof (cases "length (lk_name l) = length (ck_name k)")
    case False
    then have "map to_ascii_lowercase (lk_name l) \<noteq> ck_name k" by (metis length_map)
    with False show ?thesis by (simp add: equivalent_def)
  qed (simp add: equivalent_def *)
qed

lemma equivalent_question:
  "equivalent (lookup_from_question q) k \<longleftrightarrow> k = cache_key_from_question q"
  by (cases k) (auto simp: equivalent_iff lookup_from_question_def cache_key_from_question_def
      str_to_ascii_lowercase_def)

text \<open>Every hasher agrees on names the wire format allows.\<close>

lemma lookup_hash_calls_question:
  assumes "length (q_name q) \<le> MAX_NAME_LEN"
  shows "lookup_hash_calls (lookup_from_question q) = key_hash_calls (cache_key_from_question q)"
  using assms by (simp add: lookup_hash_calls_eq key_hash_calls_def lookup_from_question_def
      cache_key_from_question_def str_to_ascii_lowercase_def)

lemma find_key: "find (\<lambda>(k, e). k = key) s = map_option (Pair key) (map_of s key)"
  by (induction s) auto

lemma shard_get_eq:
  assumes "length (q_name q) \<le> MAX_NAME_LEN"
  shows "shard_get h (lookup_from_question q) s = map_of s (cache_key_from_question q)"
proof -
  have "(\<lambda>(k, e :: cache_entry). h (key_hash_calls k) = h (lookup_hash_calls (lookup_from_question q)) \<and>
      equivalent (lookup_from_question q) k) = (\<lambda>(k, e). k = cache_key_from_question q)"
    using assms by (auto simp: fun_eq_iff equivalent_question lookup_hash_calls_question)
  then show ?thesis
    unfolding shard_get_def by (simp add: find_key option.map_comp comp_def option.map_ident)
qed

section \<open>The cache as a map\<close>

text \<open>What the sharded structure stands for: a finite map from keys to entries.\<close>

definition cache_map :: "cache \<Rightarrow> cache_key \<rightharpoonup> cache_entry" where
  "cache_map c k = map_of (shards c ! shard_index c (key_hash_calls k)) k"

definition serve :: "cache_entry \<Rightarrow> instant \<Rightarrow> message" where
  "serve e now =
     (let el = elapsed_secs now (inserted_at e); m = ce_response e
      in m\<lparr>answers := rewrite_ttls el (answers m), authority := rewrite_ttls el (authority m),
           additional := rewrite_ttls el (additional m)\<rparr>)"

lemma cache_get_eq:
  assumes "length (q_name q) \<le> MAX_NAME_LEN"
  shows "cache_get c q now =
     (case cache_map c (cache_key_from_question q) of
        None \<Rightarrow> None
      | Some e \<Rightarrow> if now \<ge> expires_at e then None else Some (serve e now))"
  using assms by (simp add: cache_get_def Let_def shard_get_eq cache_map_def
      lookup_hash_calls_question serve_def split: option.split)


section \<open>Evicting one entry\<close>

definition iter_order :: "(nat \<Rightarrow> shard \<Rightarrow> shard) \<Rightarrow> bool" where
  "iter_order it \<longleftrightarrow> (\<forall>i s. mset (it i s) = mset s)"

lemma iter_order_id: "iter_order (\<lambda>_ s. s)"
  by (simp add: iter_order_def)

lemma iter_order_set: "iter_order it \<Longrightarrow> set (it i s) = set s"
  by (metis iter_order_def set_mset_mset)

text \<open>The key a scan picks: an expired one where there is one, any other where there is none.\<close>

definition victim :: "instant \<Rightarrow> shard \<Rightarrow> cache_key \<Rightarrow> bool" where
  "victim now s k \<longleftrightarrow>
     (\<exists>e. (k, e) \<in> set s \<and> ((\<exists>(k', e') \<in> set s. expires_at e' \<le> now) \<longrightarrow> expires_at e \<le> now))"

lemma evict_scan_expired:
  "fst (evict_scan now es first) =
     map_option fst (find (\<lambda>(k, e). expires_at e \<le> now) es)"
  by (induction now es first rule: evict_scan.induct) auto

lemma evict_scan_first:
  "fst (evict_scan now es first) = None \<Longrightarrow>
   snd (evict_scan now es first) =
     (case first of Some k \<Rightarrow> Some k | None \<Rightarrow> (case es of [] \<Rightarrow> None | (k, e) # _ \<Rightarrow> Some k))"
  by (induction now es first rule: evict_scan.induct) (auto split: option.splits list.splits if_splits)

lemma evict_one_Nil: "mset (it s) = mset s \<Longrightarrow> s = [] \<Longrightarrow> evict_one it now s = ([], False)"
  by (simp add: evict_one_def)

lemma evict_one_victim:
  assumes "mset (it s) = mset s" "s \<noteq> []"
  shows "\<exists>k. victim now s k \<and> evict_one it now s = (AList.delete k s, True)"
proof -
  have set: "set (it s) = set s" using assms(1) by (metis set_mset_mset)
  obtain ex fi where sc: "evict_scan now (it s) None = (ex, fi)" by fastforce
  have ex: "ex = map_option fst (find (\<lambda>(k, e). expires_at e \<le> now) (it s))"
    using evict_scan_expired [of now "it s" None] sc by simp
  show ?thesis
  proof (cases "find (\<lambda>(k, e). expires_at e \<le> now) (it s)")
    case None
    then have live: "\<forall>(k, e) \<in> set s. \<not> expires_at e \<le> now"
      using set by (auto simp: find_None_iff)
    obtain k e es where it: "it s = (k, e) # es"
      using assms set by (metis list.exhaust list.set_intros(1) empty_iff empty_set prod.exhaust set_empty)
    then have "fi = Some k" using evict_scan_first [of now "it s" None] sc ex None by simp
    moreover have "victim now s k"
      using live it set by (force simp: victim_def)
    ultimately show ?thesis using sc ex None by (auto simp: evict_one_def)
  next
    case (Some p)
    then have "p \<in> set s" "expires_at (snd p) \<le> now"
      using set nth_mem by (fastforce simp: find_Some_iff)+
    then have "victim now s (fst p)" by (auto simp: victim_def intro!: exI [of _ "snd p"])
    then show ?thesis using sc ex Some by (auto simp: evict_one_def)
  qed
qed

lemma evict_other_spec:
  assumes "iter_order it"
  shows "evict_other it now j is ss = (ss', b) \<Longrightarrow>
    (b \<and> (\<exists>i k. i \<in> set is \<and> i \<noteq> j \<and> victim now (ss ! i) k \<and> ss' = ss[i := AList.delete k (ss ! i)]))
    \<or> (\<not> b \<and> ss' = ss \<and> (\<forall>i \<in> set is. i \<noteq> j \<longrightarrow> ss ! i = []))"
proof (induction "is")
  case (Cons i "is")
  have it: "mset (it i (ss ! i)) = mset (ss ! i)" using assms by (simp add: iter_order_def)
  consider "i = j" | "i \<noteq> j" "ss ! i = []" | "i \<noteq> j" "ss ! i \<noteq> []" by blast
  then show ?case
  proof cases
    case 3
    then obtain k where "victim now (ss ! i) k" "evict_one (it i) now (ss ! i) = (AList.delete k (ss ! i), True)"
      using evict_one_victim [of "it i" "ss ! i", OF it] by blast
    with 3 Cons.prems show ?thesis by auto
  qed (use Cons evict_one_Nil [of "it i" "ss ! i"] it in \<open>auto\<close>)
qed simp


section \<open>The invariant\<close>

text \<open>What \<open>insert\<close> accepts: the question and the lifetime of a cacheable response.\<close>

definition cacheable :: "u32 \<Rightarrow> message \<Rightarrow> (question \<times> u32) option" where
  "cacheable neg m =
     (case (questions m, header_rcode (header m)) of
        ([q], Inr rc) \<Rightarrow>
          (case effective_ttl neg rc m of
             Some (Some ttl) \<Rightarrow> if is_truncated (header m) \<or> ttl = 0 then None else Some (q, ttl)
           | _ \<Rightarrow> None)
      | _ \<Rightarrow> None)"

definition entry_for :: "message \<Rightarrow> u32 \<Rightarrow> instant \<Rightarrow> cache_entry" where
  "entry_for m ttl now =
     \<lparr>ce_response = m, inserted_at = now, expires_at = now + unat ttl * nanos_per_sec\<rparr>"

lemma cache_insert_eq:
  "cache_insert it c m now =
     (case cacheable (max_negative_ttl c) m of
        None \<Rightarrow> c
      | Some (q, ttl) \<Rightarrow> cache_store it c (cache_key_from_question q) (entry_for m ttl now) now)"
  by (simp add: cache_insert_def cacheable_def entry_for_def split: list.split sum.split option.split)

definition entry_ok :: "u32 \<Rightarrow> cache_key \<Rightarrow> cache_entry \<Rightarrow> bool" where
  "entry_ok neg k e \<longleftrightarrow>
     (case cacheable neg (ce_response e) of
        None \<Rightarrow> False
      | Some (q, ttl) \<Rightarrow> k = cache_key_from_question q \<and> e = entry_for (ce_response e) ttl (inserted_at e))"

definition wf_shard :: "cache \<Rightarrow> nat \<Rightarrow> shard \<Rightarrow> bool" where
  "wf_shard c i s \<longleftrightarrow> distinct (map fst s) \<and>
     list_all (\<lambda>(k, e). shard_index c (key_hash_calls k) = i \<and> entry_ok (max_negative_ttl c) k e) s"

definition total_len :: "shard list \<Rightarrow> nat" where
  "total_len ss = sum_list (map length ss)"

definition shards_ok :: "cache \<Rightarrow> bool" where
  "shards_ok c \<longleftrightarrow> length (shards c) = NUM_SHARDS \<and> (\<forall>i < NUM_SHARDS. wf_shard c i (shards c ! i))"

definition cache_inv :: "cache \<Rightarrow> bool" where
  "cache_inv c \<longleftrightarrow> length (shards c) = NUM_SHARDS \<and>
     (\<forall>i < NUM_SHARDS. wf_shard c i (shards c ! i)) \<and>
     unat (clen c) = total_len (shards c) \<and> total_len (shards c) \<le> max 1 (unat (capacity c))"

lemma shards_okD: "shards_ok c \<Longrightarrow> i < NUM_SHARDS \<Longrightarrow> wf_shard c i (shards c ! i)"
  "shards_ok c \<Longrightarrow> length (shards c) = NUM_SHARDS"
  by (simp_all add: shards_ok_def)

lemma cache_inv_shards_ok: "cache_inv c \<Longrightarrow> shards_ok c"
  by (simp add: cache_inv_def shards_ok_def)

lemma wf_shard_fields [simp]:
  "wf_shard (c\<lparr>shards := ss\<rparr>) = wf_shard c"
  "wf_shard (c\<lparr>clen := n\<rparr>) = wf_shard c"
  "shard_index (c\<lparr>shards := ss\<rparr>) = shard_index c"
  "shard_index (c\<lparr>clen := n\<rparr>) = shard_index c"
  by (simp_all add: wf_shard_def shard_index_def fun_eq_iff)

lemma shard_index_less [simp]: "shard_index c x < NUM_SHARDS"
proof -
  have "(build_hasher c x AND 63) \<le> 63" by (rule word_and_le1)
  then have "unat (build_hasher c x AND 63) \<le> 63" by (simp add: word_le_nat_alt)
  then show ?thesis by (simp add: shard_index_def NUM_SHARDS_def)
qed

lemma total_update:
  "i < length ss \<Longrightarrow> total_len (ss[i := s]) + length (ss ! i) = total_len ss + length s"
  by (induction ss arbitrary: i) (auto simp: total_len_def split: nat.split)

lemma length_delete:
  "distinct (map fst s) \<Longrightarrow> k \<in> fst ` set s \<Longrightarrow> Suc (length (AList.delete k s)) = length s"
  by (induction s) (auto simp: image_iff AList.delete_id)

lemma wf_shard_delete: "wf_shard c i s \<Longrightarrow> wf_shard c i (AList.delete k s)"
  by (auto simp: wf_shard_def AList.delete_eq list_all_iff distinct_map_filter)

lemma wf_shard_filter: "wf_shard c i s \<Longrightarrow> wf_shard c i (filter P s)"
  by (auto simp: wf_shard_def list_all_iff distinct_map_filter)

lemma length_alist_update:
  "length (AList.update k e s) = (if map_of s k = None then Suc (length s) else length s)"
  by (induction s) auto

lemma set_alist_update: "set (AList.update k e s) \<subseteq> insert (k, e) (set s)"
  by (induction s) auto

lemma wf_shard_update:
  "wf_shard c i s \<Longrightarrow> shard_index c (key_hash_calls k) = i \<Longrightarrow> entry_ok (max_negative_ttl c) k e \<Longrightarrow>
   wf_shard c i (AList.update k e s)"
  using set_alist_update [of k e s]
  by (auto simp: wf_shard_def list_all_iff AList.distinct_update)

lemma cache_inv_new: "cache_inv (cache_new h hs cap neg)"
  by (simp add: cache_inv_def cache_new_def wf_shard_def total_len_def sum_list_replicate)


section \<open>Every operation keeps the invariant\<close>

text \<open>Removing one entry, from whichever shard holds it.\<close>

definition drop_entry :: "cache \<Rightarrow> nat \<Rightarrow> cache_key \<Rightarrow> cache" where
  "drop_entry c i k =
     c\<lparr>shards := (shards c)[i := AList.delete k (shards c ! i)], clen := clen c - 1\<rparr>"

lemma cache_inv_shard: "cache_inv c \<Longrightarrow> i < NUM_SHARDS \<Longrightarrow> wf_shard c i (shards c ! i)"
  by (simp add: cache_inv_def)

lemma total_0_iff: "total_len ss = 0 \<longleftrightarrow> (\<forall>s \<in> set ss. s = [])"
  by (auto simp: total_len_def)

lemma total_drop:
  assumes "distinct (map fst (ss ! i))" "k \<in> fst ` set (ss ! i)" "i < length ss"
  shows "Suc (total_len (ss[i := AList.delete k (ss ! i)])) = total_len ss"
  using total_update [OF assms(3), of "AList.delete k (ss ! i)"] length_delete [OF assms(1,2)] by simp

lemma drop_entry_inv:
  assumes "cache_inv c" "i < NUM_SHARDS" "k \<in> fst ` set (shards c ! i)"
  shows "cache_inv (drop_entry c i k)" "Suc (total_len (shards (drop_entry c i k))) = total_len (shards c)"
proof -
  have wf: "wf_shard c i (shards c ! i)" and len: "length (shards c) = NUM_SHARDS"
    using assms by (simp_all add: cache_inv_def)
  show tot: "Suc (total_len (shards (drop_entry c i k))) = total_len (shards c)"
    using wf len assms total_drop [of "shards c" i k] by (simp add: drop_entry_def wf_shard_def)
  have "clen c \<noteq> 0" using assms(1) tot by (auto simp: cache_inv_def)
  then have "Suc (unat (clen c - 1)) = unat (clen c)" by (simp add: unat_minus_one unat_gt_0)
  then have "unat (clen c - 1) = total_len (shards (drop_entry c i k))"
    using assms(1) tot by (simp add: cache_inv_def)
  then show "cache_inv (drop_entry c i k)"
    using assms tot wf_shard_delete [OF wf, of k]
    by (auto simp: cache_inv_def drop_entry_def nth_list_update)
qed

text \<open>
  \<open>insert\<close> at a full cache drops exactly one entry, of the target shard where it has any, and there an
  expired one where there is any; below capacity, or with nothing stored, it drops nothing.
\<close>

lemma cache_make_room_cases:
  assumes "cache_inv c" "iter_order it" "j < NUM_SHARDS"
  obtains (none) "cache_make_room it c j now = c" "clen c < capacity c \<or> total_len (shards c) = 0"
  | (one) i k where "cache_make_room it c j now = drop_entry c i k" "capacity c \<le> clen c"
      "i < NUM_SHARDS" "victim now (shards c ! i) k" "shards c ! j \<noteq> [] \<Longrightarrow> i = j"
proof -
  have len: "length (shards c) = NUM_SHARDS" using assms by (simp add: cache_inv_def)
  have it: "mset (it j (shards c ! j)) = mset (shards c ! j)"
    using assms by (simp add: iter_order_def)
  consider (room) "clen c < capacity c" | (here) "\<not> clen c < capacity c" "shards c ! j \<noteq> []"
    | (there) "\<not> clen c < capacity c" "shards c ! j = []" by blast
  then show thesis
  proof cases
    case room
    then show thesis using none by (simp add: cache_make_room_def)
  next
    case here
    obtain k where k: "victim now (shards c ! j) k"
        "evict_one (it j) now (shards c ! j) = (AList.delete k (shards c ! j), True)"
      using evict_one_victim [of "it j", OF it here(2)] by blast
    then show thesis
      using one [of j k] here assms by (simp add: cache_make_room_def drop_entry_def)
  next
    case there
    have e1: "evict_one (it j) now (shards c ! j) = ([], False)"
      using evict_one_Nil [of "it j", OF it] there by simp
    obtain ss b where e: "evict_other it now j [0..<length (shards c)] (shards c) = (ss, b)" by fastforce
    from evict_other_spec [OF assms(2) e] show thesis
    proof (elim disjE conjE exE)
      fix i k assume *: b "i \<in> set [0..<length (shards c)]" "i \<noteq> j" "victim now (shards c ! i) k"
        "ss = (shards c)[i := AList.delete k (shards c ! i)]"
      then show thesis
        using one [of i k] there e e1 len by (simp add: cache_make_room_def drop_entry_def)
    next
      assume *: "\<not> b" "ss = shards c" "\<forall>i \<in> set [0..<length (shards c)]. i \<noteq> j \<longrightarrow> shards c ! i = []"
      then have "shards c ! i = []" if "i < length (shards c)" for i
        using there that by (cases "i = j") auto
      then have "total_len (shards c) = 0" by (auto simp: total_0_iff in_set_conv_nth)
      then show thesis using none there e e1 * by (simp add: cache_make_room_def)
    qed
  qed
qed


lemma drop_entry_fields [simp]:
  "wf_shard (drop_entry c i k) = wf_shard c" "shard_index (drop_entry c i k) = shard_index c"
  "capacity (drop_entry c i k) = capacity c" "max_negative_ttl (drop_entry c i k) = max_negative_ttl c"
  by (simp_all add: drop_entry_def)

lemma victim_key: "victim now s k \<Longrightarrow> k \<in> fst ` set s"
  by (force simp: victim_def)

lemma cache_make_room_inv:
  fixes now :: instant
  assumes "cache_inv c" "iter_order it" "j < NUM_SHARDS"
  defines "c' \<equiv> cache_make_room it c j now"
  shows "cache_inv c'" "total_len (shards c') < max 1 (unat (capacity c))"
    "shard_index c' = shard_index c" "capacity c' = capacity c" "max_negative_ttl c' = max_negative_ttl c"
proof -
  have "cache_inv c' \<and> total_len (shards c') < max 1 (unat (capacity c)) \<and> shard_index c' = shard_index c
      \<and> capacity c' = capacity c \<and> max_negative_ttl c' = max_negative_ttl c"
    using assms(1-3)
  proof (cases rule: cache_make_room_cases [where now = now])
    case none
    then show ?thesis using assms(1) unfolding c'_def by (auto simp: cache_inv_def word_less_nat_alt)
  next
    case (one i k)
    then show ?thesis using drop_entry_inv [OF assms(1) one(3) victim_key [OF one(4)]] assms(1)
      unfolding c'_def by (auto simp: cache_inv_def)
  qed
  then show "cache_inv c'" "total_len (shards c') < max 1 (unat (capacity c))"
    "shard_index c' = shard_index c" "capacity c' = capacity c" "max_negative_ttl c' = max_negative_ttl c"
    by simp_all
qed

lemma cache_put_inv:
  assumes inv: "cache_inv c" and room: "total_len (shards c) < max 1 (unat (capacity c))"
    and ok: "entry_ok (max_negative_ttl c) k e" and i: "i = shard_index c (key_hash_calls k)"
  shows "cache_inv (cache_put c i k e)"
proof -
  have i': "i < NUM_SHARDS" and len: "length (shards c) = NUM_SHARDS"
    using i inv by (simp_all add: cache_inv_def)
  have wf: "wf_shard c i (AList.update k e (shards c ! i))"
    using wf_shard_update [OF cache_inv_shard [OF inv i']] i ok by simp
  have tot: "total_len ((shards c)[i := AList.update k e (shards c ! i)]) =
      (if map_of (shards c ! i) k = None then Suc (total_len (shards c)) else total_len (shards c))"
    using total_update [of i "shards c" "AList.update k e (shards c ! i)"] i' len
    by (simp add: length_alist_update split: if_splits)
  have "total_len (shards c) < 2 ^ 64 - 1"
    using room unsigned_less [of "capacity c", where ?'a = nat] by (simp add: max_def split: if_splits)
  then have "unat (clen c + 1) = Suc (total_len (shards c))"
    using inv by (simp add: cache_inv_def unat_word_ariths)
  then show ?thesis
    using inv room wf tot i' by (auto simp: cache_inv_def cache_put_def Let_def nth_list_update)
qed

lemma cache_store_inv:
  assumes "cache_inv c" "iter_order it" "entry_ok (max_negative_ttl c) k e"
  shows "cache_inv (cache_store it c k e now)"
  using assms cache_make_room_inv [OF assms(1,2) shard_index_less, of c "key_hash_calls k" now]
  by (simp add: cache_store_def Let_def cache_put_inv)

lemma entry_ok_entry_for:
  "cacheable neg m = Some (q, ttl) \<Longrightarrow> entry_ok neg (cache_key_from_question q) (entry_for m ttl now)"
  by (simp add: entry_ok_def entry_for_def)

lemma cache_insert_inv:
  assumes "cache_inv c" "iter_order it"
  shows "cache_inv (cache_insert it c m now)"
  using assms by (auto simp: cache_insert_eq cache_store_inv entry_ok_entry_for split: option.split)

section \<open>The sweep\<close>

lemma evict_expired_shards_eq:
  "evict_expired_shards now ss n =
     (map (filter (\<lambda>(_, v). now < expires_at v)) ss,
      n - of_nat (total_len ss - total_len (map (filter (\<lambda>(_, v). now < expires_at v)) ss)))"
proof (induction ss arbitrary: n)
  case (Cons s ss)
  let ?f = "filter (\<lambda>(_, v). now < expires_at v) :: shard \<Rightarrow> shard"
  have "length (?f s) \<le> length s" by (rule length_filter_le)
  moreover have "total_len (map ?f ss) \<le> total_len ss"
    unfolding total_len_def map_map comp_def by (intro sum_list_mono) simp
  ultimately have "total_len (s # ss) - total_len (map ?f (s # ss)) =
      (length s - length (?f s)) + (total_len ss - total_len (map ?f ss))"
    by (simp add: total_len_def)
  then show ?case
    by (simp only: evict_expired_shards.simps Let_def Cons prod.case list.map of_nat_add diff_diff_eq)
qed (simp add: total_len_def)

lemma cache_evict_expired_inv:
  assumes "cache_inv c"
  shows "cache_inv (cache_evict_expired c now)"
proof -
  let ?ss = "map (filter (\<lambda>(_, v). now < expires_at v)) (shards c)"
  have le: "total_len ?ss \<le> total_len (shards c)"
    unfolding total_len_def map_map comp_def by (intro sum_list_mono) simp
  have "clen c = of_nat (total_len (shards c))" using assms by (metis cache_inv_def of_nat_unat ucast_id)
  then have "clen c - of_nat (total_len (shards c) - total_len ?ss) = of_nat (total_len ?ss)"
    using le by (simp add: of_nat_diff)
  moreover have "total_len ?ss < 2 ^ 64"
    using le assms unsigned_less [of "clen c", where ?'a = nat] by (simp add: cache_inv_def)
  ultimately show ?thesis
    using assms le by (auto simp: cache_inv_def cache_evict_expired_def evict_expired_shards_eq
        wf_shard_filter unat_of_nat)
qed


section \<open>Refinement: a bounded map of entries\<close>

lemma map_of_nth_update:
  "i < length ss \<Longrightarrow> map_of (ss[i := s] ! j) = (if j = i then map_of s else map_of (ss ! j))"
  by simp

lemma cache_map_drop:
  assumes "cache_inv c" "i < NUM_SHARDS" "k \<in> fst ` set (shards c ! i)"
  shows "cache_map (drop_entry c i k) = (cache_map c)(k := None)"
proof
  fix k'
  have "shard_index c (key_hash_calls k) = i"
    using cache_inv_shard [OF assms(1,2)] assms(3) by (auto simp: wf_shard_def list_all_iff)
  then show "cache_map (drop_entry c i k) k' = ((cache_map c)(k := None)) k'"
    using assms(1,2) by (auto simp: cache_map_def drop_entry_def cache_inv_def nth_list_update AList.delete_conv')
qed

lemma cache_map_put:
  assumes "cache_inv c" "i = shard_index c (key_hash_calls k)"
  shows "cache_map (cache_put c i k e) = (cache_map c)(k \<mapsto> e)"
proof
  fix k'
  have "i < length (shards c)" using assms by (simp add: cache_inv_def)
  then show "cache_map (cache_put c i k e) k' = ((cache_map c)(k \<mapsto> e)) k'"
    using assms(2) by (auto simp: cache_map_def cache_put_def Let_def nth_list_update AList.update_conv')
qed

lemma cache_map_new [simp]: "cache_map (cache_new h hs cap neg) = Map.empty"
  by (rule ext) (use shard_index_less [of "cache_new h hs cap neg"] in
      \<open>simp add: cache_map_def, simp add: cache_new_def\<close>)

lemma cache_map_evict_expired:
  assumes "cache_inv c"
  shows "cache_map (cache_evict_expired c now) k =
    (case cache_map c k of Some e \<Rightarrow> if now < expires_at e then Some e else None | None \<Rightarrow> None)"
proof -
  have "map_of (filter (\<lambda>(_, v). now < expires_at v) s) k =
      (case map_of s k of Some e \<Rightarrow> if now < expires_at e then Some e else None | None \<Rightarrow> None)"
    if "distinct (map fst s)" for s :: shard
    using that by (induction s) (auto simp: map_of_eq_None_iff image_iff split: option.split)
  moreover have "distinct (map fst (shards c ! shard_index c (key_hash_calls k)))"
    using assms shard_index_less by (simp add: cache_inv_def wf_shard_def)
  moreover have "shard_index c (key_hash_calls k) < length (shards c)"
    using assms by (simp add: cache_inv_def)
  ultimately show ?thesis
    by (simp add: cache_map_def cache_evict_expired_def evict_expired_shards_eq)
qed

lemma dom_cache_map:
  assumes "shards_ok c"
  shows "dom (cache_map c) = (\<Union>i < NUM_SHARDS. fst ` set (shards c ! i))"
proof -
  have "fst ` set (shards c ! i) \<subseteq> dom (cache_map c)" if "i < NUM_SHARDS" for i
  proof
    fix k assume k: "k \<in> fst ` set (shards c ! i)"
    then have "shard_index c (key_hash_calls k) = i"
      using shards_okD(1) [OF assms that] by (auto simp: wf_shard_def list_all_iff)
    with k show "k \<in> dom (cache_map c)" by (simp add: cache_map_def domIff map_of_eq_None_iff)
  qed
  moreover have "k \<in> fst ` set (shards c ! shard_index c (key_hash_calls k))" if "k \<in> dom (cache_map c)" for k
    using that by (metis cache_map_def domIff map_of_eq_None_iff)
  ultimately show ?thesis
    by (intro equalityI subsetI) (meson UN_I lessThan_iff shard_index_less, blast)
qed

lemma card_cache_map:
  assumes "shards_ok c"
  shows "card (dom (cache_map c)) = total_len (shards c)"
proof -
  have idx: "shard_index c (key_hash_calls k) = i"
    if "i < NUM_SHARDS" "k \<in> fst ` set (shards c ! i)" for i k
    using shards_okD(1) [OF assms that(1)] that(2) by (auto simp: wf_shard_def list_all_iff)
  have "card (\<Union>i < NUM_SHARDS. fst ` set (shards c ! i)) = (\<Sum>i < NUM_SHARDS. card (fst ` set (shards c ! i)))"
  proof (rule card_UN_disjoint, goal_cases)
    case 3
    show ?case
    proof (intro ballI impI equals0I)
      fix i j k assume "i \<in> {..<NUM_SHARDS}" "j \<in> {..<NUM_SHARDS}" "i \<noteq> j"
        "k \<in> fst ` set (shards c ! i) \<inter> fst ` set (shards c ! j)"
      then show False using idx [of i k] idx [of j k] by simp
    qed
  qed simp_all
  also have "\<dots> = (\<Sum>i < NUM_SHARDS. length (shards c ! i))"
  proof (rule sum.cong)
    fix i assume "i \<in> {..<NUM_SHARDS}"
    then have "distinct (map fst (shards c ! i))" using assms by (simp add: shards_ok_def wf_shard_def)
    then show "card (fst ` set (shards c ! i)) = length (shards c ! i)" using distinct_card by fastforce
  qed simp
  also have "\<dots> = total_len (shards c)"
    using assms by (simp add: total_len_def sum_list_sum_nth shards_ok_def atLeast0LessThan)
  finally show ?thesis using dom_cache_map [OF assms] by simp
qed


section \<open>The contract of the cache\<close>

text \<open>
  What the request path relies on: a cache is seen through \<open>view\<close>, a map from keys to entries.
  \<open>get\<close> reads it, \<open>put\<close> stores a cacheable response and ignores any other, and nothing but \<open>put\<close> of
  the same key ever makes an entry appear. \<open>ord\<close> restricts the environment of \<open>put\<close> (the iteration
  orders its eviction may meet).
\<close>

locale response_cache =
  fixes inv :: "'c \<Rightarrow> bool"
    and view :: "'c \<Rightarrow> cache_key \<rightharpoonup> cache_entry"
    and neg :: "'c \<Rightarrow> u32"
    and ord :: "'o \<Rightarrow> bool"
    and get :: "'c \<Rightarrow> question \<Rightarrow> instant \<Rightarrow> message option"
    and put :: "'o \<Rightarrow> 'c \<Rightarrow> message \<Rightarrow> instant \<Rightarrow> 'c"
    and sweep :: "'c \<Rightarrow> instant \<Rightarrow> 'c"
  assumes get_view: "length (q_name q) \<le> MAX_NAME_LEN \<Longrightarrow>
      get c q now = (case view c (cache_key_from_question q) of
        None \<Rightarrow> None | Some e \<Rightarrow> if now \<ge> expires_at e then None else Some (serve e now))"
    and put_inv: "inv c \<Longrightarrow> ord it \<Longrightarrow> inv (put it c m now)"
    and sweep_inv: "inv c \<Longrightarrow> inv (sweep c now)"
    and view_ok: "inv c \<Longrightarrow> view c k = Some e \<Longrightarrow> entry_ok (neg c) k e"
    and put_neg: "inv c \<Longrightarrow> ord it \<Longrightarrow> neg (put it c m now) = neg c"
    and put_ignored: "cacheable (neg c) m = None \<Longrightarrow> put it c m now = c"
    and put_stored: "inv c \<Longrightarrow> ord it \<Longrightarrow> cacheable (neg c) m = Some (q, ttl) \<Longrightarrow>
      view (put it c m now) (cache_key_from_question q) = Some (entry_for m ttl now)"
    and put_other: "inv c \<Longrightarrow> ord it \<Longrightarrow> cacheable (neg c) m = Some (q, ttl) \<Longrightarrow>
      k \<noteq> cache_key_from_question q \<Longrightarrow> view (put it c m now) k \<in> {view c k, None}"
    and sweep_view: "inv c \<Longrightarrow> view (sweep c now) k =
      (case view c k of Some e \<Rightarrow> if now < expires_at e then Some e else None | None \<Rightarrow> None)"
begin

lemma get_after_put:
  assumes "inv c" "ord it" "cacheable (neg c) m = Some (q, ttl)" "length (q_name q') \<le> MAX_NAME_LEN"
    and "cache_key_from_question q' = cache_key_from_question q"
  shows "get (put it c m t) q' now =
    (if now < t + unat ttl * nanos_per_sec then Some (serve (entry_for m ttl t) now) else None)"
  using assms by (simp add: get_view put_stored, simp add: entry_for_def)

lemma get_put_invents_nothing:
  assumes "inv c" "ord it" "length (q_name q) \<le> MAX_NAME_LEN" "get (put it c m t) q now = Some r"
  shows "get c q now = Some r \<or>
    (\<exists>q' ttl. cacheable (neg c) m = Some (q', ttl) \<and> cache_key_from_question q' = cache_key_from_question q
       \<and> r = serve (entry_for m ttl t) now)"
proof (cases "cacheable (neg c) m")
  case None
  with assms show ?thesis by (simp add: put_ignored)
next
  case (Some p)
  obtain q' ttl where p: "p = (q', ttl)" by fastforce
  show ?thesis
  proof (cases "cache_key_from_question q = cache_key_from_question q'")
    case True
    with assms Some p show ?thesis by (auto simp: get_after_put split: if_splits)
  next
    case False
    then have "view (put it c m t) (cache_key_from_question q) \<in> {view c (cache_key_from_question q), None}"
      using put_other [OF assms(1,2)] Some p by blast
    then show ?thesis using assms(4) by (elim insertE) (simp_all add: get_view [OF assms(3)])
  qed
qed

lemma put_view:
  assumes "inv c" "ord it" "view (put it c m t) k = Some e"
  shows "view c k = Some e \<or>
    (\<exists>q ttl. cacheable (neg c) m = Some (q, ttl) \<and> k = cache_key_from_question q \<and> e = entry_for m ttl t)"
proof (cases "cacheable (neg c) m")
  case None
  with assms show ?thesis by (simp add: put_ignored)
next
  case (Some p)
  obtain q ttl where p: "p = (q, ttl)" by fastforce
  show ?thesis
  proof (cases "k = cache_key_from_question q")
    case True
    with assms Some p show ?thesis by (simp add: put_stored)
  next
    case False
    then show ?thesis using assms put_other [OF assms(1,2), of m q ttl k t] Some p by auto
  qed
qed

lemma get_after_sweep:
  assumes "inv c" "length (q_name q) \<le> MAX_NAME_LEN" "now \<le> now'"
  shows "get (sweep c now) q now' = get c q now'"
  using assms by (auto simp: get_view sweep_view split: option.split)

lemma hit_entry:
  assumes "inv c" "length (q_name q) \<le> MAX_NAME_LEN" "get c q now = Some r"
  obtains e where "entry_ok (neg c) (cache_key_from_question q) e" "now < expires_at e" "r = serve e now"
  using assms view_ok by (auto simp: get_view not_le split: option.splits if_splits)

end

lemma cache_store_view:
  assumes "cache_inv c" "iter_order it"
  defines "j \<equiv> \<lambda>k. shard_index c (key_hash_calls k)"
  obtains (kept) "cache_map (cache_store it c k e now) = (cache_map c)(k \<mapsto> e)"
      "clen c < capacity c \<or> cache_map c = Map.empty"
  | (evicted) v where "cache_map (cache_store it c k e now) = ((cache_map c)(v := None))(k \<mapsto> e)"
      "capacity c \<le> clen c" "victim now (shards c ! j v) v"
      "shards c ! j k \<noteq> [] \<Longrightarrow> j v = j k"
proof -
  note room = cache_make_room_inv [OF assms(1,2) shard_index_less, of c "key_hash_calls k" now]
  have put: "cache_map (cache_store it c k e now) =
      (cache_map (cache_make_room it c (j k) now))(k \<mapsto> e)"
    using room by (simp add: cache_store_def j_def Let_def cache_map_put)
  have jk: "j k < NUM_SHARDS" by (simp add: j_def)
  from assms(1,2) jk show thesis
  proof (cases rule: cache_make_room_cases [where now = now])
    case none
    then have "total_len (shards c) = 0 \<Longrightarrow> dom (cache_map c) = {}"
      using card_cache_map [OF cache_inv_shards_ok [OF assms(1)]] dom_cache_map [OF cache_inv_shards_ok [OF assms(1)]] by simp
    with none put kept show thesis by auto
  next
    case (one i v)
    note key = victim_key [OF one(4)]
    then have "j v = i"
      using cache_inv_shard [OF assms(1) one(3)] by (auto simp: j_def wf_shard_def list_all_iff)
    with one put key show thesis using evicted [of v] by (simp add: cache_map_drop [OF assms(1)])
  qed
qed

lemma cache_insert_ignored: "cacheable (max_negative_ttl c) m = None \<Longrightarrow> cache_insert it c m now = c"
  by (simp add: cache_insert_eq)

lemma cache_insert_neg: "max_negative_ttl (cache_insert it c m now) = max_negative_ttl c"
  by (auto simp: cache_insert_eq cache_store_def cache_put_def cache_make_room_def Let_def
      split: option.split prod.split)

lemma cache_insert_capacity: "capacity (cache_insert it c m now) = capacity c"
  by (auto simp: cache_insert_eq cache_store_def cache_put_def cache_make_room_def Let_def
      split: option.split prod.split)

lemma cache_map_ok:
  assumes "shards_ok c" "cache_map c k = Some e"
  shows "entry_ok (max_negative_ttl c) k e"
  using assms(2) shards_okD(1) [OF assms(1) shard_index_less, of c "key_hash_calls k"]
  by (auto simp: cache_map_def wf_shard_def list_all_iff dest!: map_of_SomeD)

interpretation rcache: response_cache cache_inv cache_map max_negative_ttl iter_order cache_get
  cache_insert cache_evict_expired
proof (unfold_locales, goal_cases)
  case (8 c it m q ttl k now)
  from 8(1,2) show ?case
    by (cases rule: cache_store_view [where k = "cache_key_from_question q" and e = "entry_for m ttl now" and now = now])
      (use 8 in \<open>auto simp: cache_insert_eq\<close>)
next
  case (7 c it m q ttl now)
  from 7(1,2) show ?case
    by (cases rule: cache_store_view [where k = "cache_key_from_question q" and e = "entry_for m ttl now" and now = now])
      (use 7 in \<open>auto simp: cache_insert_eq\<close>)
qed (simp_all add: cache_get_eq cache_insert_inv cache_evict_expired_inv cache_map_ok cache_inv_shards_ok cache_insert_neg
      cache_insert_ignored cache_map_evict_expired)

end
