(* ===== verification/Cache_Props.thy ===== *)
theory Cache_Props
  imports Cache
begin

text \<open>
  Properties of the response cache, for every state that \<open>Cache::new\<close>, \<open>insert\<close> and
  \<open>evict_expired\<close> can reach.
\<close>

inductive cache_reach :: "cache \<Rightarrow> bool" where
  reach_new: "cache_reach (cache_new h hs cap neg)"
| reach_insert: "cache_reach c \<Longrightarrow> iter_order it \<Longrightarrow> cache_reach (cache_insert it c m now)"
| reach_sweep: "cache_reach c \<Longrightarrow> cache_reach (cache_evict_expired c now)"

lemma reach_inv: "cache_reach c \<Longrightarrow> cache_inv c"
  by (induction rule: cache_reach.induct)
     (simp_all add: cache_inv_new cache_insert_inv cache_evict_expired_inv)

section \<open>Lifetimes\<close>

lemma elapsed_less:
  assumes "now < t + unat (ttl :: u32) * nanos_per_sec" "ttl \<noteq> 0"
  shows "unat (elapsed_secs now t) = (now - t) div nanos_per_sec" "elapsed_secs now t < ttl"
proof -
  have "0 < unat ttl * nanos_per_sec" using assms(2) by (simp add: nanos_per_sec_def unat_gt_0)
  then have "now - t < unat ttl * nanos_per_sec" using assms(1) by linarith
  then have lt: "(now - t) div nanos_per_sec < unat ttl" by (rule less_mult_imp_div_less)
  moreover have "unat ttl < 2 ^ 32" using unsigned_less [of ttl, where ?'a = nat] by simp
  ultimately show eq: "unat (elapsed_secs now t) = (now - t) div nanos_per_sec"
    by (simp add: elapsed_secs_def unat_of_nat min_def)
  show "elapsed_secs now t < ttl" using lt eq by (simp add: word_less_nat_alt)
qed

lemma iter_min_None_iff [simp]: "iter_min xs = None \<longleftrightarrow> xs = []"
  by (cases xs) (auto split: option.split)

lemma iter_min_le: "iter_min xs = Some m \<Longrightarrow> x \<in> set xs \<Longrightarrow> m \<le> x"
  by (induction xs arbitrary: m) (auto split: option.splits simp: min_def)

lemma iter_min_in: "iter_min xs = Some m \<Longrightarrow> m \<in> set xs"
  by (induction xs arbitrary: m) (auto split: option.splits if_splits simp: min_def)

lemma cacheable_SomeD:
  assumes "cacheable neg m = Some (q, ttl)"
  obtains rc where "questions m = [q]" "header_rcode (header m) = Inr rc"
    "effective_ttl neg rc m = Some (Some ttl)" "ttl \<noteq> 0" "\<not> is_truncated (header m)"
  using assms by (auto simp: cacheable_def split: list.splits sum.splits option.splits if_splits)

lemma effective_ttl_answers:
  assumes "effective_ttl neg NoError m = Some (Some ttl)" "rr \<in> set (answers m)"
  shows "ttl \<le> rr_ttl rr"
  using assms iter_min_le [of "map rr_ttl (answers m)" ttl "rr_ttl rr"]
  by (auto simp: effective_ttl_def split: if_splits)

text \<open>Answers that are served have time left, and lose exactly the whole seconds since insertion.\<close>

lemma served_answer_ttl:
  assumes "entry_ok neg k e" "now < expires_at e" "header_rcode (header (ce_response e)) = Inr NoError"
    and "rr \<in> set (answers (ce_response e))"
  shows "unat (saturating_sub (rr_ttl rr) (elapsed_secs now (inserted_at e))) =
      unat (rr_ttl rr) - (now - inserted_at e) div nanos_per_sec"
    "saturating_sub (rr_ttl rr) (elapsed_secs now (inserted_at e)) \<noteq> 0"
proof -
  obtain q ttl where ttl: "cacheable neg (ce_response e) = Some (q, ttl)"
      "e = entry_for (ce_response e) ttl (inserted_at e)"
    using assms(1) by (auto simp: entry_ok_def split: option.splits)
  then have ne: "ttl \<noteq> 0" and le: "ttl \<le> rr_ttl rr"
    using assms(3,4) by (auto elim!: cacheable_SomeD intro: effective_ttl_answers)
  have "expires_at e = inserted_at e + unat ttl * nanos_per_sec"
    using ttl(2) by (metis cache_entry.select_convs(3) entry_for_def)
  note el = elapsed_less [OF assms(2) [unfolded this] ne]
  then have lt: "elapsed_secs now (inserted_at e) < rr_ttl rr" using le by simp
  then show "saturating_sub (rr_ttl rr) (elapsed_secs now (inserted_at e)) \<noteq> 0"
    by (auto simp: saturating_sub_def)
  show "unat (saturating_sub (rr_ttl rr) (elapsed_secs now (inserted_at e))) =
      unat (rr_ttl rr) - (now - inserted_at e) div nanos_per_sec"
    using lt el(1) by (simp add: saturating_sub_def unat_sub order_less_imp_le)
qed


section \<open>Examples\<close>

definition ex_question :: question where
  "ex_question = \<lparr>q_name = map of_char ''www.example.com'', qtype = RT_A, qclass = class_IN\<rparr>"

definition ex_question_caps :: question where
  "ex_question_caps = \<lparr>q_name = map of_char ''WWW.Example.COM'', qtype = RT_A, qclass = class_IN\<rparr>"

definition ex_answer :: resource_record where
  "ex_answer = \<lparr>rr_name = map of_char ''www.example.com'', rr_class = class_IN, rr_ttl = 300,
     rr_rdata = RD_A (Ipv4Addr 192 0 2 1)\<rparr>"

definition ex_response :: message where
  "ex_response =
     \<lparr>header = \<lparr>h_id = 7, h_flags = 0x8180, qd_count = 1, an_count = 1, ns_count = 0, ar_count = 0\<rparr>,
      questions = [ex_question], answers = [ex_answer], authority = [], additional = []\<rparr>"

definition ex_hasher :: hasher where
  "ex_hasher calls = of_nat (length calls)"

definition ex_cache :: cache where
  "ex_cache = cache_new ex_hasher (\<lambda>_. ex_hasher) 1 60"

definition ex_cache1 :: cache where
  "ex_cache1 = cache_insert (\<lambda>_ s. s) ex_cache ex_response 1000"

definition ex_soa :: resource_record where
  "ex_soa = \<lparr>rr_name = map of_char ''example.com'', rr_class = class_IN, rr_ttl = 3600,
     rr_rdata = RD_SOA (map of_char ''ns.example.com'') (map of_char ''admin.example.com'') 1 7200 900 1209600 86400\<rparr>"

definition ex_nxdomain :: message where
  "ex_nxdomain =
     \<lparr>header = \<lparr>h_id = 9, h_flags = 0x8183, qd_count = 1, an_count = 0, ns_count = 1, ar_count = 0\<rparr>,
      questions = [ex_question], answers = [], authority = [ex_soa], additional = []\<rparr>"

lemma ex_reach: "cache_reach ex_cache" "cache_reach ex_cache1"
  unfolding ex_cache1_def ex_cache_def by (intro cache_reach.intros iter_order_id)+

lemma ex_cacheable: "cacheable 60 ex_response = Some (ex_question, 300)" "max_negative_ttl ex_cache = 60"
  by code_simp+

lemma ex_keys: "cache_key_from_question ex_question_caps = cache_key_from_question ex_question"
  by code_simp

section \<open>Properties\<close>

text \<open>
  In every reachable state the atomic counter \<open>len()\<close> is exactly the number of stored entries,
  the number of entries never exceeds the capacity (a capacity of zero still keeps one entry), and
  \<open>is_empty()\<close> holds just when nothing is stored.
\<close>

lemma cache_len_counts_entries:
  assumes "cache_reach c"
  shows "unat (cache_len c) = card (dom (cache_map c)) \<and> unat (cache_len c) \<le> max 1 (unat (capacity c)) \<and>
    (cache_is_empty c \<longleftrightarrow> cache_map c = Map.empty)"
proof -
  note inv = reach_inv [OF assms]
  have card: "unat (clen c) = card (dom (cache_map c))"
    using card_cache_map [OF cache_inv_shards_ok [OF inv]] inv by (simp add: cache_inv_def)
  have "finite (dom (cache_map c))" by (simp add: dom_cache_map [OF cache_inv_shards_ok [OF inv]])
  then have "clen c = 0 \<longleftrightarrow> cache_map c = Map.empty"
    using card by (metis card_0_eq dom_eq_empty_conv unat_eq_zero)
  then show ?thesis using card inv by (simp add: cache_len_def cache_is_empty_def cache_inv_def)
qed

text \<open>
  C8: storing a cacheable response refines a map update. The map afterwards is the map before with
  at most one other key removed and the question's key set to the new entry; a key is removed only at
  capacity, it is an expired one whenever its shard holds any expired entry, and it comes from the
  shard of the new key unless that shard is empty.
\<close>

theorem cache_insert_refines_update:
  assumes "cache_reach c" "iter_order it" "cacheable (max_negative_ttl c) m = Some (q, ttl)"
  shows "\<exists>V. cache_map (cache_insert it c m now) =
      (cache_map c |` (- V))(cache_key_from_question q \<mapsto> entry_for m ttl now) \<and>
    (V = {} \<and> (clen c < capacity c \<or> cache_map c = Map.empty) \<or>
     (\<exists>v. V = {v} \<and> capacity c \<le> clen c \<and>
        victim now (shards c ! shard_index c (key_hash_calls v)) v \<and>
        (shards c ! shard_index c (key_hash_calls (cache_key_from_question q)) \<noteq> [] \<longrightarrow>
         shard_index c (key_hash_calls v) =
           shard_index c (key_hash_calls (cache_key_from_question q)))))"
proof -
  have eq: "cache_insert it c m now = cache_store it c (cache_key_from_question q) (entry_for m ttl now) now"
    using assms(3) by (simp add: cache_insert_eq)
  from reach_inv [OF assms(1)] assms(2) show ?thesis
  proof (cases rule: cache_store_view
      [where k = "cache_key_from_question q" and e = "entry_for m ttl now" and now = now])
    case kept
    then show ?thesis by (intro exI [of _ "{}"]) (simp add: eq restrict_map_def)
  next
    case (evicted v)
    then have "(cache_map c |` (- {v})) = (cache_map c)(v := None)" by (auto simp: restrict_map_def)
    with evicted show ?thesis by (intro exI [of _ "{v}"]) (simp add: eq)
  qed
qed

theorem cache_insert_refines_update_witness:
  "\<exists>V. cache_map (cache_insert (\<lambda>_ s. s) ex_cache ex_response 5) =
      (cache_map ex_cache |` (- V))(cache_key_from_question ex_question \<mapsto> entry_for ex_response 300 5)"
  using cache_insert_refines_update [OF ex_reach(1) iter_order_id, of ex_response ex_question 300 5]
  by (auto simp: ex_cacheable)

text \<open>
  C9: insert, then look up. After a cacheable response has been inserted at time \<open>t\<close>, a question with
  the same name up to ASCII case, type and class is answered, before the lifetime is over, with that
  response and every TTL reduced by the whole seconds elapsed, and not at all afterwards.
\<close>

theorem cache_get_after_insert:
  assumes "cache_reach c" "iter_order it" "cacheable (max_negative_ttl c) m = Some (q, ttl)"
    and "length (q_name q') \<le> MAX_NAME_LEN"
    and "str_to_ascii_lowercase (q_name q') = str_to_ascii_lowercase (q_name q)"
    and "qtype q' = qtype q" "qclass q' = qclass q"
  shows "cache_get (cache_insert it c m t) q' now =
    (if now < t + unat ttl * nanos_per_sec
     then let secs = elapsed_secs now t
          in Some (m\<lparr>answers := rewrite_ttls secs (answers m), authority := rewrite_ttls secs (authority m),
                     additional := rewrite_ttls secs (additional m)\<rparr>)
     else None)"
proof -
  have "cache_key_from_question q' = cache_key_from_question q"
    using assms(5-7) by (simp add: cache_key_from_question_def)
  then show ?thesis
    using rcache.get_after_put [OF reach_inv [OF assms(1)] assms(2,3,4), of t now]
    by (simp add: serve_def entry_for_def Let_def)
qed

theorem cache_get_after_insert_witness:
  "cache_get (cache_insert (\<lambda>_ s. s) ex_cache ex_response 0) ex_question_caps 2000000000 =
     Some (ex_response\<lparr>answers := [ex_answer\<lparr>rr_ttl := 298\<rparr>]\<rparr>) \<and>
   cache_get (cache_insert (\<lambda>_ s. s) ex_cache ex_response 0) ex_question_caps 300000000000 = None"
proof -
  have *: "length (q_name ex_question_caps) \<le> MAX_NAME_LEN"
    "str_to_ascii_lowercase (q_name ex_question_caps) = str_to_ascii_lowercase (q_name ex_question)"
    "qtype ex_question_caps = qtype ex_question" "qclass ex_question_caps = qclass ex_question"
    by code_simp+
  have c: "cacheable (max_negative_ttl ex_cache) ex_response = Some (ex_question, 300)"
    by (simp add: ex_cacheable)
  note g = cache_get_after_insert [OF ex_reach(1) iter_order_id c *, of 0]
  have "elapsed_secs 2000000000 0 = 2" by (simp add: elapsed_secs_def nanos_per_sec_def)
  then show ?thesis
    unfolding g by (simp add: nanos_per_sec_def rewrite_ttls_def ex_response_def ex_answer_def saturating_sub_def)
qed


text \<open>
  What is not cached. A truncated response, a response without exactly one question, one with a
  response code other than NOERROR and NXDOMAIN (or an unassigned one), one with an answer of TTL 0,
  and a negative response without an SOA record in its authority section leave the cache unchanged.
\<close>

lemma cache_insert_uncacheable:
  assumes "length (questions m) \<noteq> 1 \<or> is_truncated (header m)
    \<or> header_rcode (header m) \<notin> {Inr NoError, Inr NXDomain}
    \<or> header_rcode (header m) = Inr NoError \<and> (\<exists>rr \<in> set (answers m). rr_ttl rr = 0)
    \<or> (header_rcode (header m) = Inr NXDomain \<or> answers m = []) \<and> soa_negative_ttl (authority m) = None"
  shows "cache_insert it c m now = c"
proof (rule cache_insert_ignored, rule ccontr)
  assume "cacheable (max_negative_ttl c) m \<noteq> None"
  then obtain q ttl where "cacheable (max_negative_ttl c) m = Some (q, ttl)" by auto
  then obtain rc where *: "questions m = [q]" "header_rcode (header m) = Inr rc"
      "effective_ttl (max_negative_ttl c) rc m = Some (Some ttl)" "ttl \<noteq> 0" "\<not> is_truncated (header m)"
    by (rule cacheable_SomeD)
  then have "rc = NoError \<or> rc = NXDomain" by (auto simp: effective_ttl_def split: rcode.splits)
  moreover have "rr_ttl rr \<noteq> 0" if "rc = NoError" "rr \<in> set (answers m)" for rr
    using effective_ttl_answers [of "max_negative_ttl c" m ttl rr] * that by auto
  ultimately show False using assms * by (auto simp: effective_ttl_def split: if_splits)
qed

text \<open>
  C21: the reaper's sweep removes exactly the expired entries, keeps the others untouched and is
  invisible to lookups: at the time of the sweep and later every question is answered as before.
\<close>

theorem cache_evict_expired_exact:
  assumes "cache_reach c" "now \<le> now'" "length (q_name q) \<le> MAX_NAME_LEN"
  shows "cache_map (cache_evict_expired c now) =
      (\<lambda>k. case cache_map c k of Some e \<Rightarrow> if now < expires_at e then Some e else None | None \<Rightarrow> None) \<and>
    cache_get (cache_evict_expired c now) q now' = cache_get c q now'"
  using assms reach_inv [OF assms(1)]
  by (simp add: fun_eq_iff cache_map_evict_expired rcache.get_after_sweep)

theorem cache_evict_expired_exact_witness:
  "cache_get (cache_evict_expired ex_cache1 3) ex_question 4 = cache_get ex_cache1 ex_question 4"
proof -
  have "length (q_name ex_question) \<le> MAX_NAME_LEN" by code_simp
  then show ?thesis using cache_evict_expired_exact [OF ex_reach(2), of 3 4 ex_question] by simp
qed

text \<open>
  A hit is never stale. When a lookup in a reachable cache returns a NOERROR response, every
  answer in it has a TTL of at least one second.
\<close>

lemma cache_hit_not_stale:
  assumes "cache_reach c" "length (q_name q) \<le> MAX_NAME_LEN" "cache_get c q now = Some m"
    and "header_rcode (header m) = Inr NoError"
  shows "\<forall>rr \<in> set (answers m). 1 \<le> unat (rr_ttl rr)"
proof -
  obtain e where e: "entry_ok (max_negative_ttl c) (cache_key_from_question q) e" "now < expires_at e"
      "m = serve e now"
    using rcache.hit_entry [OF reach_inv [OF assms(1)] assms(2,3)] by blast
  then have "header_rcode (header (ce_response e)) = Inr NoError"
    using assms(4) by (simp add: serve_def Let_def)
  from served_answer_ttl(2) [OF e(1,2) this] show ?thesis
    using e(3) by (auto simp: serve_def Let_def rewrite_ttls_def Suc_le_eq unat_gt_0)
qed

text \<open>
  C22: negative caching. A cached response without answers or with NXDOMAIN lives for the smallest of
  the SOA record's TTL, its MINIMUM field and the configured cap (RFC 2308), and not longer.
\<close>

theorem cache_negative_ttl:
  assumes "cacheable neg m = Some (q, ttl)"
    and "header_rcode (header m) = Inr NXDomain \<or> answers m = []"
  shows "\<exists>rr \<in> set (authority m). \<exists>mn rn s a b d minimum.
    rr_rdata rr = RD_SOA mn rn s a b d minimum \<and> ttl = min (min (rr_ttl rr) minimum) neg"
proof -
  have soa: "soa_negative_ttl rrs = Some t \<Longrightarrow> \<exists>rr \<in> set rrs. \<exists>mn rn s a b d minimum.
      rr_rdata rr = RD_SOA mn rn s a b d minimum \<and> t = min (rr_ttl rr) minimum" for rrs t
    by (induction rrs) (auto split: rdata.splits)
  from assms(1) obtain rc where *: "header_rcode (header m) = Inr rc" "effective_ttl neg rc m = Some (Some ttl)"
    by (rule cacheable_SomeD)
  then obtain t where "soa_negative_ttl (authority m) = Some t" "ttl = min t neg"
    using assms(2) by (auto simp: effective_ttl_def split: rcode.splits if_splits)
  with soa show ?thesis by blast
qed


theorem cache_negative_ttl_witness:
  "cacheable 900 ex_nxdomain = Some (ex_question, 900) \<and>
   (\<exists>rr \<in> set (authority ex_nxdomain). \<exists>mn rn s a b d minimum.
      rr_rdata rr = RD_SOA mn rn s a b d minimum \<and> 900 = min (min (rr_ttl rr) minimum) 900)"
proof -
  have "cacheable 900 ex_nxdomain = Some (ex_question, 900)"
    "header_rcode (header ex_nxdomain) = Inr NXDomain" by code_simp+
  then show ?thesis using cache_negative_ttl [of 900 ex_nxdomain ex_question 900] by simp
qed

text \<open>
  C23: the borrowed \<open>Lookup\<close> is interchangeable with the owned \<open>CacheKey\<close>. For every name the wire
  format allows it drives any \<open>Hasher\<close> through exactly the same calls as the key of that question, so
  that it selects the same shard and the same bucket, and it is \<open>equivalent\<close> to a key just when that
  is the key of the question.
\<close>

theorem lookup_agrees_with_key:
  assumes "length (q_name q) \<le> MAX_NAME_LEN"
  shows "lookup_hash_calls (lookup_from_question q) = key_hash_calls (cache_key_from_question q) \<and>
    (equivalent (lookup_from_question q) k \<longleftrightarrow> k = cache_key_from_question q)"
  using assms by (simp add: lookup_hash_calls_question equivalent_question)

theorem lookup_agrees_with_key_witness:
  "lookup_hash_calls (lookup_from_question ex_question_caps) = key_hash_calls (cache_key_from_question ex_question) \<and>
   equivalent (lookup_from_question ex_question_caps) (cache_key_from_question ex_question)"
proof -
  have "length (q_name ex_question_caps) \<le> MAX_NAME_LEN" by code_simp
  from lookup_agrees_with_key [OF this, of "cache_key_from_question ex_question"] show ?thesis
    by (simp add: ex_keys)
qed

text \<open>
  the tail loop of \<open>Lookup::hash\<close> does not make the same calls as the key's \<open>Hash\<close>: for a name
  of more than 253 bytes the two call sequences differ, so that only a hasher that works byte by byte
  still agrees. Such names never come from the parser.
\<close>

lemma lookup_long_name_calls_differ:
  assumes "MAX_NAME_LEN < length (q_name q)"
  shows "lookup_hash_calls (lookup_from_question q) \<noteq> key_hash_calls (cache_key_from_question q)"
proof -
  have "length (lookup_hash_calls (lookup_from_question q)) \<noteq> length (key_hash_calls (cache_key_from_question q))"
    using assms by (simp add: lookup_hash_calls_eq key_hash_calls_def lookup_from_question_def)
  then show ?thesis by metis
qed

end
