(* ===== verification/Cache_Conc.thy ===== *)
theory Cache_Conc
  imports Cache_Props
begin

text \<open>
  \<open>dnser-cache/src/lib.rs\<close> between threads. The cache is shared by all workers and the reaper; here
  \<open>insert\<close> and \<open>evict_expired\<close> are cut into the steps between which other threads can run: taking the
  write lock of a shard, the work under it, and each access to the relaxed atomic \<open>len\<close>. A state has
  the cache, the write-locked flag of every shard and the program point of every thread; a lock is
  released with the last action made under it. \<open>get\<close> reads under a read lock, which is possible
  just when the shard is not write-locked, and changes nothing. Every operation of the counter is a
  read-modify-write or a single load, so that one order of its values exists although the accesses are
  \<open>Relaxed\<close>.

  Shown: the locks exclude each other, the counter differs from the number of entries only by the
  updates that are on their way, the machine never deadlocks and comes to rest, an operation that runs
  alone is the atomic one of \<open>Cache\<close>, and by how much the capacity can be exceeded.
\<close>

section \<open>Program points\<close>

datatype cpc =
    C_idle
  | Ins_lock nat cache_key cache_entry instant
  | Ins_check nat cache_key cache_entry instant
  | Ins_evict nat cache_key cache_entry instant
  | Ins_sub nat cache_key cache_entry
  | Ins_scan nat "nat list" cache_key cache_entry instant
  | Ins_scan_evict nat nat "nat list" cache_key cache_entry instant
  | Ins_sub_other nat cache_key cache_entry
  | Ins_relock nat cache_key cache_entry
  | Ins_put nat cache_key cache_entry
  | Ins_add
  | Swp_lock instant "nat list"
  | Swp_retain instant nat "nat list"
  | Swp_sub nat instant nat "nat list"

record conc =
  shared :: cache
  wlocks :: "bool list"
  threads :: "cpc list"

text \<open>The part of \<open>insert\<close> before the first lock; \<open>C_idle\<close> is an early return.\<close>

definition insert_begin :: "cache \<Rightarrow> message \<Rightarrow> instant \<Rightarrow> cpc" where
  "insert_begin c response now =
     (case questions response of
        [question] \<Rightarrow>
          if is_truncated (header response) then C_idle
          else
            (case header_rcode (header response) of
               Inl _ \<Rightarrow> C_idle
             | Inr rcode \<Rightarrow>
                 (case effective_ttl (max_negative_ttl c) rcode response of
                    None \<Rightarrow> C_idle
                  | Some None \<Rightarrow> C_idle
                  | Some (Some ttl) \<Rightarrow>
                      if ttl = 0 then C_idle
                      else
                        let key = cache_key_from_question question
                        in Ins_lock (shard_index c (key_hash_calls key)) key
                             \<lparr>ce_response = response, inserted_at = now,
                              expires_at = now + unat ttl * nanos_per_sec\<rparr> now))
      | _ \<Rightarrow> C_idle)"

definition sweep_begin :: "cache \<Rightarrow> instant \<Rightarrow> cpc" where
  "sweep_begin c now = Swp_lock now [0..<length (shards c)]"

text \<open>
  One step of a thread: from its program point, on the cache and the locks, to the next; \<open>None\<close> when
  it waits for a lock (or has nothing to do).
\<close>

fun cact ::
    "(nat \<Rightarrow> shard \<Rightarrow> shard) \<Rightarrow> cache \<Rightarrow> bool list \<Rightarrow> cpc \<Rightarrow> (cache \<times> bool list \<times> cpc) option" where
  "cact it c L C_idle = None"
| "cact it c L (Ins_lock i k e now) =
     (if L ! i then None else Some (c, L[i := True], Ins_check i k e now))"
| "cact it c L (Ins_check i k e now) =
     Some (c, L, if clen c \<ge> capacity c then Ins_evict i k e now else Ins_put i k e)"
| "cact it c L (Ins_evict i k e now) =
     (let (s', evicted) = evict_one (it i) now (shards c ! i)
      in if evicted then Some (c\<lparr>shards := (shards c)[i := s']\<rparr>, L, Ins_sub i k e)
         else Some (c, L[i := False], Ins_scan i [0..<length (shards c)] k e now))"
| "cact it c L (Ins_sub i k e) = Some (c\<lparr>clen := clen c - 1\<rparr>, L, Ins_put i k e)"
| "cact it c L (Ins_scan i [] k e now) = Some (c, L, Ins_relock i k e)"
| "cact it c L (Ins_scan i (j # js) k e now) =
     (if j = i then Some (c, L, Ins_scan i js k e now)
      else if L ! j then None else Some (c, L[j := True], Ins_scan_evict i j js k e now))"
| "cact it c L (Ins_scan_evict i j js k e now) =
     (let (s', evicted) = evict_one (it j) now (shards c ! j)
      in if evicted then Some (c\<lparr>shards := (shards c)[j := s']\<rparr>, L[j := False], Ins_sub_other i k e)
         else Some (c, L[j := False], Ins_scan i js k e now))"
| "cact it c L (Ins_sub_other i k e) = Some (c\<lparr>clen := clen c - 1\<rparr>, L, Ins_relock i k e)"
| "cact it c L (Ins_relock i k e) =
     (if L ! i then None else Some (c, L[i := True], Ins_put i k e))"
| "cact it c L (Ins_put i k e) =
     (let s = shards c ! i; is_new = (map_of s k = None)
      in Some (c\<lparr>shards := (shards c)[i := AList.update k e s]\<rparr>, L[i := False],
               if is_new then Ins_add else C_idle))"
| "cact it c L Ins_add = Some (c\<lparr>clen := clen c + 1\<rparr>, L, C_idle)"
| "cact it c L (Swp_lock now []) = Some (c, L, C_idle)"
| "cact it c L (Swp_lock now (j # js)) =
     (if L ! j then None else Some (c, L[j := True], Swp_retain now j js))"
| "cact it c L (Swp_retain now j js) =
     (let s = shards c ! j; s' = filter (\<lambda>(_, v). now < expires_at v) s
      in Some (c\<lparr>shards := (shards c)[j := s']\<rparr>, L, Swp_sub (length s - length s') now j js))"
| "cact it c L (Swp_sub removed now j js) =
     Some (c\<lparr>clen := clen c - of_nat removed\<rparr>, L[j := False], Swp_lock now js)"

section \<open>Runs\<close>

text \<open>
  A step of the whole machine: an idle thread starts an operation, or any thread makes its next step
  under some iteration order of the maps. The number counts the insertions whose search ends without
  anything to evict (\<open>evicted\<close> stays \<open>false\<close>): one for such a step, zero for any other.
\<close>

fun misses :: "cpc \<Rightarrow> nat" where
  "misses (Ins_scan _ [] _ _ _) = 1"
| "misses _ = 0"

inductive crun :: "conc \<Rightarrow> nat \<Rightarrow> conc \<Rightarrow> bool" where
  crunI: "t < length (threads s) \<Longrightarrow> iter_order it \<Longrightarrow>
    cact it (shared s) (wlocks s) (threads s ! t) = Some (c', L', p') \<Longrightarrow>
    crun s (misses (threads s ! t)) \<lparr>shared = c', wlocks = L', threads = (threads s)[t := p']\<rparr>"

inductive cstep :: "conc \<Rightarrow> nat \<Rightarrow> conc \<Rightarrow> bool" where
  call_insert: "t < length (threads s) \<Longrightarrow> threads s ! t = C_idle \<Longrightarrow>
    cstep s 0 (s\<lparr>threads := (threads s)[t := insert_begin (shared s) response now]\<rparr>)"
| call_sweep: "t < length (threads s) \<Longrightarrow> threads s ! t = C_idle \<Longrightarrow>
    cstep s 0 (s\<lparr>threads := (threads s)[t := sweep_begin (shared s) now]\<rparr>)"
| run: "crun s d s' \<Longrightarrow> cstep s d s'"

definition conc_new :: "nat \<Rightarrow> cache \<Rightarrow> conc" where
  "conc_new n c = \<lparr>shared = c, wlocks = replicate NUM_SHARDS False, threads = replicate n C_idle\<rparr>"

inductive creach :: "nat \<Rightarrow> u64 \<Rightarrow> conc \<Rightarrow> nat \<Rightarrow> bool" for n :: nat and cap :: u64 where
  c_new: "creach n cap (conc_new n (cache_new h hs cap neg)) 0"
| c_step: "creach n cap s m \<Longrightarrow> cstep s d s' \<Longrightarrow> creach n cap s' (m + d)"

definition quiet :: "conc \<Rightarrow> bool" where
  "quiet s \<longleftrightarrow> list_all (\<lambda>p. p = C_idle) (threads s)"

section \<open>What each program point holds and owes\<close>

fun holds :: "cpc \<Rightarrow> nat option" where
  "holds (Ins_check i _ _ _) = Some i"
| "holds (Ins_evict i _ _ _) = Some i"
| "holds (Ins_sub i _ _) = Some i"
| "holds (Ins_scan_evict _ j _ _ _ _) = Some j"
| "holds (Ins_put i _ _) = Some i"
| "holds (Swp_retain _ j _) = Some j"
| "holds (Swp_sub _ _ j _) = Some j"
| "holds _ = None"

text \<open>
  Updates of the counter still to come: an insertion that stored a new entry owes an increment
  (\<open>adds\<close>), an eviction a decrement (\<open>subs\<close>). \<open>slot\<close> marks an insertion that will store its entry
  whatever the others do; \<open>swept\<close> are the entries of a sweep not yet counted.
\<close>

fun adds :: "cpc \<Rightarrow> nat" where
  "adds Ins_add = 1"
| "adds _ = 0"

fun slot :: "cpc \<Rightarrow> nat" where
  "slot (Ins_sub _ _ _) = 1"
| "slot (Ins_sub_other _ _ _) = 1"
| "slot (Ins_relock _ _ _) = 1"
| "slot (Ins_put _ _ _) = 1"
| "slot _ = 0"

fun evs :: "cpc \<Rightarrow> nat" where
  "evs (Ins_sub _ _ _) = 1"
| "evs (Ins_sub_other _ _ _) = 1"
| "evs _ = 0"

fun swept :: "cpc \<Rightarrow> nat" where
  "swept (Swp_sub n _ _ _) = n"
| "swept _ = 0"

definition subs :: "cpc \<Rightarrow> nat" where
  "subs p = evs p + swept p"

fun pc_ok :: "cache \<Rightarrow> cpc \<Rightarrow> bool" where
  "pc_ok c (Ins_lock i k e _) \<longleftrightarrow> i = shard_index c (key_hash_calls k) \<and> entry_ok (max_negative_ttl c) k e"
| "pc_ok c (Ins_check i k e _) \<longleftrightarrow> i = shard_index c (key_hash_calls k) \<and> entry_ok (max_negative_ttl c) k e"
| "pc_ok c (Ins_evict i k e _) \<longleftrightarrow> i = shard_index c (key_hash_calls k) \<and> entry_ok (max_negative_ttl c) k e"
| "pc_ok c (Ins_sub i k e) \<longleftrightarrow> i = shard_index c (key_hash_calls k) \<and> entry_ok (max_negative_ttl c) k e"
| "pc_ok c (Ins_scan i js k e _) \<longleftrightarrow> i = shard_index c (key_hash_calls k) \<and> entry_ok (max_negative_ttl c) k e
     \<and> set js \<subseteq> {..<NUM_SHARDS}"
| "pc_ok c (Ins_scan_evict i j js k e _) \<longleftrightarrow> i = shard_index c (key_hash_calls k) \<and>
     entry_ok (max_negative_ttl c) k e \<and> set (j # js) \<subseteq> {..<NUM_SHARDS}"
| "pc_ok c (Ins_sub_other i k e) \<longleftrightarrow> i = shard_index c (key_hash_calls k) \<and> entry_ok (max_negative_ttl c) k e"
| "pc_ok c (Ins_relock i k e) \<longleftrightarrow> i = shard_index c (key_hash_calls k) \<and> entry_ok (max_negative_ttl c) k e"
| "pc_ok c (Ins_put i k e) \<longleftrightarrow> i = shard_index c (key_hash_calls k) \<and> entry_ok (max_negative_ttl c) k e"
| "pc_ok c (Swp_lock _ js) \<longleftrightarrow> set js \<subseteq> {..<NUM_SHARDS}"
| "pc_ok c (Swp_retain _ j js) \<longleftrightarrow> set (j # js) \<subseteq> {..<NUM_SHARDS}"
| "pc_ok c (Swp_sub _ _ j js) \<longleftrightarrow> set (j # js) \<subseteq> {..<NUM_SHARDS}"
| "pc_ok c _ \<longleftrightarrow> True"

text \<open>Adding up over the threads, and moving one of them.\<close>

definition tsum :: "(cpc \<Rightarrow> nat) \<Rightarrow> cpc list \<Rightarrow> nat" where
  "tsum f ps = sum_list (map f ps)"

lemma tsum_update: "t < length ps \<Longrightarrow> tsum f (ps[t := p]) + f (ps ! t) = tsum f ps + f p"
  by (induction ps arbitrary: t) (auto simp: tsum_def split: nat.split)

lemma tsum_replicate [simp]: "tsum f (replicate n p) = n * f p"
  by (simp add: tsum_def sum_list_replicate)

lemma tsum_add: "tsum (\<lambda>p. f p + g p) ps = tsum f ps + tsum g ps"
  by (simp add: tsum_def sum_list_addf)

lemma tsum_le_length: "(\<And>p. f p \<le> 1) \<Longrightarrow> tsum f ps \<le> length ps"
  by (induction ps) (auto simp: tsum_def intro: add_le_mono [of _ 1, simplified])

lemma tsum_mono: "(\<And>p. f p \<le> g p) \<Longrightarrow> tsum f ps \<le> tsum g ps"
  by (simp add: tsum_def sum_list_mono)

lemma tsum_ge_member: "p \<in> set ps \<Longrightarrow> f p \<le> tsum f ps"
  by (simp add: tsum_def member_le_sum_list)

lemma tsum_quiet: "list_all (\<lambda>p. p = C_idle) ps \<Longrightarrow> f C_idle = 0 \<Longrightarrow> tsum f ps = 0"
  by (induction ps) (auto simp: tsum_def)

definition held :: "nat \<Rightarrow> cpc \<Rightarrow> nat" where
  "held i p = of_bool (holds p = Some i)"

definition conc_inv :: "nat \<Rightarrow> u64 \<Rightarrow> conc \<Rightarrow> bool" where
  "conc_inv n cap s \<longleftrightarrow> length (threads s) = n \<and> capacity (shared s) = cap \<and> shards_ok (shared s) \<and>
     length (wlocks s) = NUM_SHARDS \<and> list_all (pc_ok (shared s)) (threads s) \<and>
     (\<forall>i < NUM_SHARDS. tsum (held i) (threads s) = of_bool (wlocks s ! i)) \<and>
     clen (shared s) + of_nat (tsum adds (threads s)) =
       of_nat (total_len (shards (shared s)) + tsum subs (threads s))"

section \<open>Every step keeps the invariant\<close>

lemma shards_ok_fields [simp]: "shards_ok (c\<lparr>clen := n\<rparr>) = shards_ok c"
  by (simp add: shards_ok_def)

lemma shards_ok_update:
  "shards_ok c \<Longrightarrow> wf_shard c i s \<Longrightarrow> shards_ok (c\<lparr>shards := (shards c)[i := s]\<rparr>)"
  by (cases "i < NUM_SHARDS") (auto simp: shards_ok_def nth_list_update)

lemma pc_ok_cong:
  "shard_index c' = shard_index c \<Longrightarrow> max_negative_ttl c' = max_negative_ttl c \<Longrightarrow> pc_ok c' p = pc_ok c p"
  by (cases p) simp_all

lemma pc_ok_fields [simp]:
  "pc_ok (c\<lparr>shards := ss\<rparr>) p = pc_ok c p" "pc_ok (c\<lparr>clen := n\<rparr>) p = pc_ok c p"
  by (rule pc_ok_cong; simp)+

lemma insert_begin_eq:
  "insert_begin c m now =
     (case cacheable (max_negative_ttl c) m of
        None \<Rightarrow> C_idle
      | Some (q, ttl) \<Rightarrow>
          Ins_lock (shard_index c (key_hash_calls (cache_key_from_question q)))
            (cache_key_from_question q) (entry_for m ttl now) now)"
  by (simp add: insert_begin_def cacheable_def entry_for_def Let_def split: list.split sum.split option.split)

lemma begin_ok:
  "pc_ok c (insert_begin c m now)" "shards_ok c \<Longrightarrow> pc_ok c (sweep_begin c now)"
  "f C_idle = 0 \<Longrightarrow> (\<And>i k e t. f (Ins_lock i k e t) = 0) \<Longrightarrow> f (insert_begin c m now) = (0 :: nat)"
  by (auto simp: insert_begin_eq sweep_begin_def entry_ok_entry_for shards_okD split: option.split)

text \<open>Evicting from a well-formed shard removes one entry, or there was none.\<close>

lemma evict_one_cases:
  assumes "iter_order it" "wf_shard c i s" "evict_one (it i) now s = (s', b)"
  shows "wf_shard c i s' \<and> length s = length s' + of_bool b \<and> (b \<longleftrightarrow> s \<noteq> [])"
proof (cases "s = []")
  case True
  then show ?thesis using assms evict_one_Nil [of "it i" s now] by (simp add: iter_order_def)
next
  case False
  then obtain k where "victim now s k" "evict_one (it i) now s = (AList.delete k s, True)"
    using evict_one_victim [of "it i" s now] assms(1) by (auto simp: iter_order_def)
  then show ?thesis
    using False assms(2,3) length_delete [of s k] victim_key [of now s k]
    by (auto simp: wf_shard_delete, simp add: wf_shard_def)
qed

lemma total_update_word:
  "i < length ss \<Longrightarrow> (of_nat (total_len (ss[i := s])) :: u64) =
     of_nat (total_len ss) + of_nat (length s) - of_nat (length (ss ! i))"
  using arg_cong [OF total_update [of i ss s], of "of_nat :: nat \<Rightarrow> u64"] by (simp add: algebra_simps)

lemma cact_frame:
  "cact it c L p = Some (c', L', p') \<Longrightarrow>
     shard_index c' = shard_index c \<and> max_negative_ttl c' = max_negative_ttl c \<and> capacity c' = capacity c \<and>
     length L' = length L"
  by (cases "(it, c, L, p)" rule: cact.cases) (auto simp: Let_def split: if_splits prod.splits)

lemma cact_ok:
  assumes "cact it c L p = Some (c', L', p')" "iter_order it" "shards_ok c" "pc_ok c p"
  shows "shards_ok c' \<and> pc_ok c' p'"
  using assms
  by (cases "(it, c, L, p)" rule: cact.cases)
     (auto simp: Let_def shards_okD intro!: shards_ok_update wf_shard_update wf_shard_filter
       dest!: evict_one_cases split: if_splits prod.splits)

lemma cact_locks:
  assumes "cact it c L p = Some (c', L', p')" "length L = NUM_SHARDS" "pc_ok c p" "i < NUM_SHARDS"
    and "\<And>j. holds p = Some j \<Longrightarrow> L ! j"
  shows "(of_bool (L' ! i) :: nat) + held i p = of_bool (L ! i) + held i p'"
  using assms
  by (cases "(it, c, L, p)" rule: cact.cases)
     (auto simp: Let_def held_def nth_list_update split: if_splits prod.splits)

lemma evict_one_length:
  assumes "iter_order it" "shards_ok c" "i < NUM_SHARDS" "evict_one (it i) now (shards c ! i) = (s', b)"
  shows "length (shards c ! i) = length s' + of_bool b"
  using evict_one_cases [OF assms(1) shards_okD(1) [OF assms(2,3)] assms(4)] by simp

lemma cact_counter:
  assumes "cact it c L p = Some (c', L', p')" "iter_order it" "shards_ok c" "pc_ok c p"
  shows "clen c' + of_nat (adds p') + of_nat (total_len (shards c)) + of_nat (subs p) =
    clen c + of_nat (adds p) + of_nat (total_len (shards c')) + of_nat (subs p')"
  using assms
  by (cases "(it, c, L, p)" rule: cact.cases)
     (auto simp: Let_def subs_def shards_okD(2) total_update_word length_alist_update of_nat_diff
       evict_one_length split: if_splits prod.splits)

lemma holds_locked:
  assumes "conc_inv n cap s" "t < length (threads s)" "holds (threads s ! t) = Some j" "j < NUM_SHARDS"
  shows "wlocks s ! j"
proof -
  have "held j (threads s ! t) \<le> tsum (held j) (threads s)" using assms(2) by (simp add: tsum_ge_member)
  then show ?thesis using assms by (auto simp: conc_inv_def held_def of_bool_def split: if_splits)
qed

lemma list_all_update: "list_all P xs \<Longrightarrow> P x \<Longrightarrow> list_all P (xs[i := x])"
  by (induction xs arbitrary: i) (auto split: nat.split)

lemma pc_ok_holds: "pc_ok c p \<Longrightarrow> holds p = Some j \<Longrightarrow> j < NUM_SHARDS"
  by (cases p) auto

lemma conc_inv_pc: "conc_inv n cap s \<Longrightarrow> t < length (threads s) \<Longrightarrow> pc_ok (shared s) (threads s ! t)"
  by (simp add: conc_inv_def list_all_length)

lemma conc_inv_new: "conc_inv n cap (conc_new n (cache_new h hs cap neg))"
  by (simp add: conc_inv_def conc_new_def held_def subs_def list_all_length)
     (simp add: shards_ok_def cache_new_def wf_shard_def total_len_def sum_list_replicate)

lemma conc_inv_call:
  assumes "conc_inv n cap s" "t < length (threads s)" "threads s ! t = C_idle" "pc_ok (shared s) p"
    and "holds p = None" "adds p = 0" "subs p = 0"
  shows "conc_inv n cap (s\<lparr>threads := (threads s)[t := p]\<rparr>)"
proof -
  have same: "tsum f ((threads s)[t := p]) = tsum f (threads s)" if "f p = f C_idle" for f
    using tsum_update [OF assms(2), of f p] that assms(3) by simp
  have "tsum (held i) ((threads s)[t := p]) = tsum (held i) (threads s)" for i
    using assms(5) by (intro same) (simp add: held_def)
  moreover have "tsum adds ((threads s)[t := p]) = tsum adds (threads s)" using assms(6) by (intro same) simp
  moreover have "tsum subs ((threads s)[t := p]) = tsum subs (threads s)"
    using assms(7) by (intro same) (simp add: subs_def)
  moreover have "list_all (pc_ok (shared s)) ((threads s)[t := p])"
    using assms(1,4) by (simp add: conc_inv_def list_all_update)
  ultimately show ?thesis using assms(1) by (simp add: conc_inv_def)
qed

lemma counter_balance:
  fixes c :: u64
  assumes "c' + a' + t + u = c + a + t' + u'" "c + A = t + U"
  shows "c' + (A + a' - a) = t' + (U + u' - u)"
proof -
  have eqs: "c' = c + a + t' + u' - u - t - a'" "A = t + U - c"
    using assms by (simp_all add: eq_diff_eq ac_simps)
  show ?thesis unfolding eqs by (simp add: algebra_simps)
qed

lemma conc_inv_run:
  assumes inv: "conc_inv n cap s" and t: "t < length (threads s)" and it: "iter_order it"
    and act: "cact it (shared s) (wlocks s) (threads s ! t) = Some (c', L', p')"
  shows "conc_inv n cap \<lparr>shared = c', wlocks = L', threads = (threads s)[t := p']\<rparr>"
proof -
  let ?c = "shared s" and ?p = "threads s ! t" and ?ps = "(threads s)[t := p']"
  have ok: "shards_ok ?c" "length (wlocks s) = NUM_SHARDS" using inv by (simp_all add: conc_inv_def)
  note pc = conc_inv_pc [OF inv t] and frame = cact_frame [OF act]
  have "pc_ok c' = pc_ok ?c" using frame by (intro ext pc_ok_cong) simp_all
  then have pcs: "list_all (pc_ok c') ?ps"
    using inv cact_ok [OF act it ok(1) pc] by (simp add: conc_inv_def list_all_update)
  have locks: "tsum (held i) ?ps = of_bool (L' ! i)" if "i < NUM_SHARDS" for i
    using cact_locks [OF act ok(2) pc that holds_locked [OF inv t _ pc_ok_holds [OF pc]]]
      tsum_update [OF t, of "held i" p'] inv that by (simp add: conc_inv_def)
  have sums: "of_nat (tsum f ?ps) = of_nat (tsum f (threads s)) + of_nat (f p') - (of_nat (f ?p) :: u64)" for f
    using arg_cong [OF tsum_update [OF t, of f p'], of "of_nat :: nat \<Rightarrow> u64"] by (simp add: algebra_simps)
  have "clen c' + of_nat (tsum adds ?ps) = of_nat (total_len (shards c') + tsum subs ?ps)"
    unfolding of_nat_add sums
    using counter_balance [OF cact_counter [OF act it ok(1) pc]] inv by (simp add: conc_inv_def)
  then show ?thesis
    using inv pcs locks frame cact_ok [OF act it ok(1) pc] by (simp add: conc_inv_def)
qed

lemma conc_inv_crun: "crun s d s' \<Longrightarrow> conc_inv n cap s \<Longrightarrow> conc_inv n cap s'"
  by (induction rule: crun.induct) (rule conc_inv_run)

lemma conc_inv_step: "cstep s d s' \<Longrightarrow> conc_inv n cap s \<Longrightarrow> conc_inv n cap s'"
proof (induction rule: cstep.induct)
  case (call_insert t s response now)
  then show ?case
    by (intro conc_inv_call) (simp_all add: begin_ok, simp_all add: insert_begin_eq subs_def split: option.split)
next
  case (call_sweep t s now)
  then have "shards_ok (shared s)" by (simp add: conc_inv_def)
  with call_sweep show ?case
    by (intro conc_inv_call) (simp_all add: begin_ok, simp_all add: sweep_begin_def subs_def)
qed (rule conc_inv_crun)

lemma creach_inv: "creach n cap s m \<Longrightarrow> conc_inv n cap s"
  by (induction rule: creach.induct) (simp_all add: conc_inv_new conc_inv_step)

lemma quiet_sums:
  assumes "conc_inv n cap s" "quiet s"
  shows "clen (shared s) = of_nat (total_len (shards (shared s)))" "wlocks s = replicate NUM_SHARDS False"
proof -
  have *: "tsum f (threads s) = 0" if "f C_idle = 0" for f
    using assms(2) that by (intro tsum_quiet) (simp_all add: quiet_def)
  show "clen (shared s) = of_nat (total_len (shards (shared s)))"
    using assms(1) by (simp add: conc_inv_def * subs_def)
  show "wlocks s = replicate NUM_SHARDS False"
    using assms(1) * [of "held _"] by (intro nth_equalityI) (auto simp: conc_inv_def held_def)
qed

section \<open>Progress\<close>

text \<open>A thread inside a critical section never waits; with no lock taken nobody waits.\<close>

lemma cact_holder: "holds p \<noteq> None \<Longrightarrow> cact it c L p \<noteq> None"
  by (cases "(it, c, L, p)" rule: cact.cases) (auto simp: Let_def split: prod.split)

lemma cact_unlocked:
  "p \<noteq> C_idle \<Longrightarrow> pc_ok c p \<Longrightarrow> \<forall>i < NUM_SHARDS. \<not> L ! i \<Longrightarrow> cact it c L p \<noteq> None"
  by (cases "(it, c, L, p)" rule: cact.cases) (auto simp: Let_def split: prod.split)

lemma crun_enabled:
  assumes inv: "conc_inv n cap s" and "\<not> quiet s"
  obtains d s' where "crun s d s'"
proof -
  have "\<exists>t < length (threads s). cact (\<lambda>_ s. s) (shared s) (wlocks s) (threads s ! t) \<noteq> None"
  proof (cases "\<exists>t < length (threads s). holds (threads s ! t) \<noteq> None")
    case True
    then show ?thesis using cact_holder by blast
  next
    case False
    then have "tsum (held i) (threads s) = 0" for i
      by (auto simp: tsum_def held_def in_set_conv_nth)
    then have "\<forall>i < NUM_SHARDS. \<not> wlocks s ! i" using inv by (auto simp: conc_inv_def)
    moreover obtain t where "t < length (threads s)" "threads s ! t \<noteq> C_idle"
      using assms(2) by (auto simp: quiet_def list_all_length)
    ultimately show ?thesis using cact_unlocked [OF _ conc_inv_pc [OF inv]] by blast
  qed
  then show thesis using that crunI iter_order_id by (metis not_None_eq prod.exhaust)
qed

text \<open>How many steps an operation has left at most.\<close>

fun work :: "cpc \<Rightarrow> nat" where
  "work C_idle = 0"
| "work (Ins_lock _ _ _ _) = 2 * NUM_SHARDS + 8"
| "work (Ins_check _ _ _ _) = 2 * NUM_SHARDS + 7"
| "work (Ins_evict _ _ _ _) = 2 * NUM_SHARDS + 6"
| "work (Ins_scan _ js _ _ _) = 2 * length js + 5"
| "work (Ins_scan_evict _ _ js _ _ _) = 2 * length js + 6"
| "work (Ins_sub_other _ _ _) = 4"
| "work (Ins_relock _ _ _) = 3"
| "work (Ins_sub _ _ _) = 3"
| "work (Ins_put _ _ _) = 2"
| "work Ins_add = 1"
| "work (Swp_lock _ js) = 3 * length js + 1"
| "work (Swp_retain _ _ js) = 3 * length js + 3"
| "work (Swp_sub _ _ _ js) = 3 * length js + 2"

lemma cact_work:
  "cact it c L p = Some (c', L', p') \<Longrightarrow> length (shards c) = NUM_SHARDS \<Longrightarrow> work p' < work p"
  by (cases "(it, c, L, p)" rule: cact.cases) (auto simp: Let_def split: if_splits prod.splits)

lemma crun_work:
  "crun s d s' \<Longrightarrow> conc_inv n cap s \<Longrightarrow> tsum work (threads s') < tsum work (threads s)"
proof (induction rule: crun.induct)
  case (crunI t s it c' L' p')
  then have "work p' < work (threads s ! t)"
    using cact_work [OF crunI(3)] shards_okD(2) by (simp add: conc_inv_def)
  then show ?case using tsum_update [OF crunI(1), of work p'] by simp
qed

definition runs :: "conc \<Rightarrow> conc \<Rightarrow> bool" where
  "runs s s' \<longleftrightarrow> (\<exists>d. crun s d s')"

lemma runs_bounded: "(runs ^^ k) s s' \<Longrightarrow> conc_inv n cap s \<Longrightarrow> k \<le> tsum work (threads s)"
proof (induction k arbitrary: s)
  case (Suc k)
  then obtain d s1 where "crun s d s1" "(runs ^^ k) s1 s'"
    using relpowp_Suc_D2 [OF Suc.prems(1)] by (metis runs_def)
  with Suc conc_inv_crun [of s d s1] crun_work [of s d s1] show ?case by fastforce
qed simp

lemma runs_to_quiet: "conc_inv n cap s \<Longrightarrow> \<exists>s'. runs\<^sup>*\<^sup>* s s' \<and> quiet s'"
proof (induction "tsum work (threads s)" arbitrary: s rule: less_induct)
  case less
  show ?case
  proof (cases "quiet s")
    case False
    then obtain d s1 where "crun s d s1" using crun_enabled less.prems by blast
    with less conc_inv_crun crun_work have "\<exists>s'. runs\<^sup>*\<^sup>* s1 s' \<and> quiet s'" by blast
    then show ?thesis using \<open>crun s d s1\<close> converse_rtranclp_into_rtranclp [of runs s s1] by (auto simp: runs_def)
  qed blast
qed

section \<open>How far the capacity can be exceeded\<close>

text \<open>
  Entries stored, insertions bound to store one, and removals not yet counted. It grows only when an
  insertion reads \<open>len\<close> below the capacity, or finds nothing to evict.
\<close>

definition load :: "conc \<Rightarrow> nat" where
  "load s = total_len (shards (shared s)) + tsum slot (threads s) + tsum swept (threads s)"

lemma total_update_int:
  "i < length ss \<Longrightarrow> int (total_len (ss[i := s])) = int (total_len ss) + int (length s) - int (length (ss ! i))"
  using total_update [of i ss s] by linarith

lemma cact_load:
  assumes "cact it c L p = Some (c', L', p')" "iter_order it" "shards_ok c" "pc_ok c p"
  shows "int (total_len (shards c') + slot p' + swept p') \<le> int (total_len (shards c) + slot p + swept p + misses p)
    \<or> c' = c \<and> clen c < capacity c \<and> (\<exists>i k e now. p = Ins_check i k e now \<and> p' = Ins_put i k e)"
  using assms
  by (cases "(it, c, L, p)" rule: cact.cases)
     (auto simp: Let_def shards_okD(2) total_update_int length_alist_update of_nat_diff
       evict_one_length not_le split: if_splits prod.splits)

lemma unat_of_nat_u64: "n < 2 ^ 64 \<Longrightarrow> unat (of_nat n :: u64) = n"
  by (simp add: unat_of_nat)

lemma unat_counter:
  fixes x :: u64
  assumes "x + of_nat a = of_nat t" "a \<le> n" "unat cap + n < 2 ^ 64" "x < cap" "t < 2 ^ 64"
  shows "t < unat cap + a"
proof -
  have "unat x < unat cap" using assms(4) by (simp add: word_less_nat_alt)
  then have "unat x + a < 2 ^ 64" using assms(2,3) by linarith
  then have "unat (of_nat (unat x + a) :: u64) = unat x + a" by (rule unat_of_nat_u64)
  moreover have "unat (of_nat t :: u64) = t" using assms(5) by (rule unat_of_nat_u64)
  moreover have "of_nat (unat x + a) = (of_nat t :: u64)" using assms(1) by simp
  ultimately have "unat x + a = t" by metis
  then show ?thesis using \<open>unat x < unat cap\<close> by linarith
qed

text \<open>An insertion that reads \<open>len\<close> below the capacity: the other threads account for the difference.\<close>

lemma load_at_check:
  assumes inv: "conc_inv n cap s" and t: "t < length (threads s)" "threads s ! t = Ins_check i k e now"
    and lt: "clen (shared s) < cap" and bound: "unat cap + n < 2 ^ 64" "load s < 2 ^ 64"
  shows "load s < unat cap + (n - 1)"
proof -
  let ?ps = "threads s" and ?T = "total_len (shards (shared s))"
  have evs: "tsum evs ?ps \<le> tsum slot ?ps" by (rule tsum_mono) (rename_tac p, case_tac p, simp_all)
  have subs: "tsum subs ?ps = tsum evs ?ps + tsum swept ?ps"
    by (simp add: subs_def [abs_def] tsum_add)
  have one: "adds p + slot p \<le> 1" for p by (cases p) simp_all
  have n: "length ?ps = n" using inv by (simp add: conc_inv_def)
  have "tsum (\<lambda>p. adds p + slot p) (?ps[t := Ins_add]) \<le> n" using tsum_le_length one n by (metis length_list_update)
  then have others: "tsum adds ?ps + tsum slot ?ps + 1 \<le> n"
    using tsum_update [OF t(1), of "\<lambda>p. adds p + slot p" Ins_add] t(2) by (simp add: tsum_add)
  have "clen (shared s) + of_nat (tsum adds ?ps) = of_nat (?T + tsum subs ?ps)"
    using inv by (simp add: conc_inv_def)
  moreover have "?T + tsum subs ?ps < 2 ^ 64" using bound(2) evs subs by (simp add: load_def)
  ultimately have "?T + tsum subs ?ps < unat cap + tsum adds ?ps"
    using unat_counter [OF _ _ bound(1) lt] others by simp
  then show ?thesis using subs others by (simp add: load_def)
qed

lemma load_step:
  assumes "cstep s d s'" "conc_inv n cap s" "unat cap + n + m < 2 ^ 64" "load s \<le> unat cap + (n - 1) + m"
  shows "load s' \<le> unat cap + (n - 1) + (m + d)"
  using assms
proof (induction rule: cstep.induct)
  case (call_insert t s response now)
  have "slot (insert_begin c response now) = 0" "swept (insert_begin c response now) = 0" for c
    by (simp_all add: begin_ok(3))
  then show ?case
    using call_insert tsum_update [OF call_insert(1), of slot] tsum_update [OF call_insert(1), of swept]
    by (simp add: load_def)
next
  case (call_sweep t s now)
  have "slot (sweep_begin c now) = 0" "swept (sweep_begin c now) = 0" for c by (simp_all add: sweep_begin_def)
  then show ?case
    using call_sweep tsum_update [OF call_sweep(1), of slot] tsum_update [OF call_sweep(1), of swept]
    by (simp add: load_def)
next
  case (run s d s')
  then show ?case
  proof (induction rule: crun.induct)
    case (crunI t s it c' L' p')
    let ?p = "threads s ! t"
    note sums = tsum_update [OF crunI(1), of slot p'] tsum_update [OF crunI(1), of swept p']
    have "shards_ok (shared s)" using crunI by (simp add: conc_inv_def)
    from cact_load [OF crunI(3,2) this conc_inv_pc [OF crunI(4,1)]] show ?case
    proof (elim disjE conjE exE)
      fix i k e now
      assume *: "c' = shared s" "clen (shared s) < capacity (shared s)" "?p = Ins_check i k e now" "p' = Ins_put i k e"
      then have "clen (shared s) < cap" using crunI by (simp add: conc_inv_def)
      moreover have "load s < 2 ^ 64" using crunI by simp
      ultimately have "load s < unat cap + (n - 1)"
        using load_at_check [OF crunI(4,1) *(3)] crunI by simp
      then show ?case using * sums by (simp add: load_def)
    qed (use sums crunI in \<open>simp add: load_def\<close>)
  qed
qed

lemma creach_load:
  "creach n cap s m \<Longrightarrow> unat cap + n + m < 2 ^ 64 \<Longrightarrow> load s \<le> unat cap + (n - 1) + m"
proof (induction rule: creach.induct)
  case (c_new h hs neg)
  then show ?case by (simp add: load_def conc_new_def cache_new_def total_len_def sum_list_replicate)
next
  case (c_step s m d s')
  then show ?case using load_step [OF c_step(2) creach_inv [OF c_step(1)]] by simp
qed

section \<open>An operation that runs alone\<close>

text \<open>Up to \<open>n\<close> steps of one thread while the others stand still.\<close>

fun solo ::
    "(nat \<Rightarrow> shard \<Rightarrow> shard) \<Rightarrow> nat \<Rightarrow> cache \<times> bool list \<times> cpc \<Rightarrow> cache \<times> bool list \<times> cpc" where
  "solo it 0 x = x"
| "solo it (Suc n) (c, L, p) =
     (case cact it c L p of None \<Rightarrow> (c, L, p) | Some x \<Rightarrow> solo it n x)"

definition leads where
  "leads it x y \<longleftrightarrow> (\<exists>n. solo it n x = y)"

lemma leads_refl: "leads it x x"
  unfolding leads_def by (rule exI [of _ 0]) simp

lemma leads_step: "cact it c L p = Some x \<Longrightarrow> leads it x y \<Longrightarrow> leads it (c, L, p) y"
  unfolding leads_def by (elim exE, rule_tac x = "Suc n" in exI) simp

lemma leads_cons: "leads it x y \<Longrightarrow> cact it c L p = Some x \<Longrightarrow> leads it (c, L, p) y"
  by (rule leads_step)

lemma leads_trans:
  assumes "leads it x y" "leads it y z"
  shows "leads it x z"
proof -
  obtain m where "solo it m x = y" using assms(1) by (auto simp: leads_def)
  then show ?thesis
  proof (induction m arbitrary: x)
    case (Suc m)
    obtain c L p where x: "x = (c, L, p)" by (cases x)
    show ?case
    proof (cases "cact it c L p")
      case None
      then show ?thesis using Suc assms(2) x by simp
    next
      case (Some x')
      with Suc.prems x have "solo it m x' = y" by simp
      with Some x show ?thesis by (simp add: leads_step Suc.IH)
    qed
  qed (use assms(2) in simp)
qed

abbreviation unlocked :: "bool list" where
  "unlocked \<equiv> replicate NUM_SHARDS False"

lemma unlocked_update [simp]: "unlocked[j := False] = unlocked"
  by (cases "j < NUM_SHARDS") (simp_all add: list_eq_iff_nth_eq nth_list_update)

lemma scan_leads:
  assumes "evict_other it now i js (shards c) = (ss', b)" "set js \<subseteq> {..<NUM_SHARDS}"
  shows "leads it (c, unlocked, Ins_scan i js k e now)
    (if b then c\<lparr>shards := ss', clen := clen c - 1\<rparr> else c, unlocked, Ins_relock i k e)"
  using assms
proof (induction js)
  case Nil
  have "cact it c unlocked (Ins_scan i [] k e now) = Some (c, unlocked, Ins_relock i k e)" by simp
  then show ?case using Nil by (auto intro: leads_step [OF _ leads_refl])
next
  case (Cons j js)
  obtain s' ev where ev: "evict_one (it j) now (shards c ! j) = (s', ev)" by fastforce
  let ?fin = "(if b then c\<lparr>shards := ss', clen := clen c - 1\<rparr> else c, unlocked, Ins_relock i k e)"
  have lock: "leads it (c, unlocked[j := True], Ins_scan_evict i j js k e now) ?fin \<Longrightarrow>
      leads it (c, unlocked, Ins_scan i (j # js) k e now) ?fin" if "j \<noteq> i"
    by (erule leads_cons) (use that Cons.prems(2) in simp)
  consider (own) "j = i" | (hit) "j \<noteq> i" ev | (empty) "j \<noteq> i" "\<not> ev" by blast
  then show ?case
  proof cases
    case own
    have "leads it (c, unlocked, Ins_scan i js k e now) ?fin" using own Cons by simp
    then show ?thesis by (rule leads_cons) (simp add: own)
  next
    case hit
    then have "leads it (c\<lparr>shards := (shards c)[j := s']\<rparr>, unlocked, Ins_sub_other i k e) ?fin"
      using Cons.prems ev by (intro leads_step [OF _ leads_refl]) auto
    then have "leads it (c, unlocked[j := True], Ins_scan_evict i j js k e now) ?fin"
      by (rule leads_cons) (use hit ev in simp)
    then show ?thesis by (rule lock [OF hit(1)])
  next
    case empty
    have "leads it (c, unlocked, Ins_scan i js k e now) ?fin" using empty Cons ev by simp
    then have "leads it (c, unlocked[j := True], Ins_scan_evict i j js k e now) ?fin"
      by (rule leads_cons) (use empty ev in simp)
    then show ?thesis by (rule lock [OF empty(1)])
  qed
qed

lemma put_leads:
  assumes "i < NUM_SHARDS"
  shows "leads it (c, unlocked[i := True], Ins_put i k e) (cache_put c i k e, unlocked, C_idle)"
proof -
  let ?c = "c\<lparr>shards := (shards c)[i := AList.update k e (shards c ! i)]\<rparr>"
  have "leads it (?c, unlocked, if map_of (shards c ! i) k = None then Ins_add else C_idle)
      (cache_put c i k e, unlocked, C_idle)"
    by (cases "map_of (shards c ! i) k = None")
       (auto simp: cache_put_def Let_def intro: leads_refl leads_step [OF _ leads_refl])
  then show ?thesis by (rule leads_cons) (simp add: Let_def)
qed

lemma insert_leads:
  assumes "i < NUM_SHARDS" "length (shards c) = NUM_SHARDS"
  shows "leads it (c, unlocked, Ins_lock i k e now)
    (cache_put (cache_make_room it c i now) i k e, unlocked, C_idle)"
proof -
  obtain s' ev where ev: "evict_one (it i) now (shards c ! i) = (s', ev)" by fastforce
  obtain ss' b where other: "evict_other it now i [0..<NUM_SHARDS] (shards c) = (ss', b)" by fastforce
  have lock: "leads it (c, unlocked[i := True], Ins_check i k e now) y \<Longrightarrow>
      leads it (c, unlocked, Ins_lock i k e now) y" for y
    by (erule leads_cons) (use assms in simp)
  have relock: "leads it (c, unlocked[i := True], Ins_put i k e) y \<Longrightarrow>
      leads it (c, unlocked, Ins_relock i k e) y" for c y
    by (erule leads_cons) (use assms in simp)
  have evict: "leads it (c, unlocked[i := True], Ins_evict i k e now) y \<Longrightarrow>
      leads it (c, unlocked, Ins_lock i k e now) y" if "capacity c \<le> clen c" for y
    by (rule lock, erule leads_cons) (use that in simp)
  consider (room) "\<not> capacity c \<le> clen c" | (here) "capacity c \<le> clen c" ev
    | (there) "capacity c \<le> clen c" "\<not> ev" by blast
  then show ?thesis
  proof cases
    case room
    have "leads it (c, unlocked[i := True], Ins_check i k e now) (cache_put c i k e, unlocked, C_idle)"
      by (rule leads_cons [OF put_leads [OF assms(1)]]) (use room in simp)
    then show ?thesis using lock room by (simp add: cache_make_room_def)
  next
    case here
    let ?c = "c\<lparr>shards := (shards c)[i := s'], clen := clen c - 1\<rparr>"
    have "leads it (?c, unlocked[i := True], Ins_put i k e) (cache_put ?c i k e, unlocked, C_idle)"
      by (rule put_leads [OF assms(1)])
    then have "leads it (c\<lparr>shards := (shards c)[i := s']\<rparr>, unlocked[i := True], Ins_sub i k e)
        (cache_put ?c i k e, unlocked, C_idle)" by (rule leads_cons) simp
    then have "leads it (c, unlocked[i := True], Ins_evict i k e now) (cache_put ?c i k e, unlocked, C_idle)"
      by (rule leads_cons) (use here ev in simp)
    then show ?thesis using evict here ev by (simp add: cache_make_room_def)
  next
    case there
    have "set [0..<NUM_SHARDS] \<subseteq> {..<NUM_SHARDS}" by auto
    from scan_leads [OF other this, of k e]
    have "leads it (c, unlocked, Ins_scan i [0..<NUM_SHARDS] k e now)
        (cache_make_room it c i now, unlocked, Ins_relock i k e)"
      using there ev other assms by (simp add: cache_make_room_def)
    then have "leads it (c, unlocked[i := True], Ins_evict i k e now)
        (cache_make_room it c i now, unlocked, Ins_relock i k e)"
      by (rule leads_cons) (use there ev assms in simp)
    from leads_trans [OF evict [OF there(1) this] relock [OF put_leads [OF assms(1)]]] show ?thesis .
  qed
qed

lemma sweep_leads:
  assumes "length (shards c) = NUM_SHARDS" "j \<le> NUM_SHARDS"
    and "evict_expired_shards now (drop j (shards c)) (clen c) = (ss', len')"
  shows "leads it (c, unlocked, Swp_lock now [j..<NUM_SHARDS])
    (c\<lparr>shards := take j (shards c) @ ss', clen := len'\<rparr>, unlocked, C_idle)"
  using assms
proof (induction "NUM_SHARDS - j" arbitrary: j c ss')
  case 0
  then have "j = NUM_SHARDS" by simp
  with 0 show ?case by (intro leads_step [OF _ leads_refl]) auto
next
  case (Suc d)
  then have j: "j < NUM_SHARDS" by simp
  let ?s = "shards c ! j" and ?f = "filter (\<lambda>(_, v). now < expires_at v) :: shard \<Rightarrow> shard"
  let ?c = "c\<lparr>shards := (shards c)[j := ?f ?s], clen := clen c - of_nat (length ?s - length (?f ?s))\<rparr>"
  have drop: "drop j (shards c) = ?s # drop (Suc j) (shards c)"
    using j Suc.prems(1) by (simp add: Cons_nth_drop_Suc)
  then obtain ss1 where ss1: "ss' = ?f ?s # ss1"
      "evict_expired_shards now (drop (Suc j) (shards ?c)) (clen ?c) = (ss1, len')"
    using Suc.prems(3) by (auto simp: Let_def split: prod.splits)
  have "leads it (?c, unlocked, Swp_lock now [Suc j..<NUM_SHARDS])
      (?c\<lparr>shards := take (Suc j) (shards ?c) @ ss1, clen := len'\<rparr>, unlocked, C_idle)"
    using Suc j ss1(2) by (intro Suc.hyps(1)) simp_all
  moreover have "take (Suc j) (shards ?c) @ ss1 = take j (shards c) @ ss'"
    using j Suc.prems(1) ss1(1) by (simp add: take_Suc_conv_app_nth)
  ultimately have "leads it (?c, unlocked, Swp_lock now [Suc j..<NUM_SHARDS])
      (c\<lparr>shards := take j (shards c) @ ss', clen := len'\<rparr>, unlocked, C_idle)" by simp
  then have "leads it (c\<lparr>shards := (shards c)[j := ?f ?s]\<rparr>, unlocked[j := True],
        Swp_sub (length ?s - length (?f ?s)) now j [Suc j..<NUM_SHARDS])
      (c\<lparr>shards := take j (shards c) @ ss', clen := len'\<rparr>, unlocked, C_idle)"
    by (rule leads_cons) simp
  then have "leads it (c, unlocked[j := True], Swp_retain now j [Suc j..<NUM_SHARDS])
      (c\<lparr>shards := take j (shards c) @ ss', clen := len'\<rparr>, unlocked, C_idle)"
    by (rule leads_cons) (simp add: Let_def)
  then show ?case by (rule leads_cons) (simp add: upt_conv_Cons j)
qed

end
