(* ===== verification/Cache_Conc_Props.thy ===== *)
theory Cache_Conc_Props
  imports Cache_Conc
begin

text \<open>
  Properties of the cache under concurrent use: accounting, progress, agreement with the atomic
  operations of \<open>Cache\<close>, validity of hits, and the two effects of the relaxed counter, entries above
  the capacity and a counter below zero.
\<close>

section \<open>Examples\<close>

definition cx_name :: "nat \<Rightarrow> message" where
  "cx_name n = ex_response\<lparr>questions := [ex_question\<lparr>q_name := replicate n 97\<rparr>]\<rparr>"

text \<open>A hasher that spreads the names of different lengths over the shards.\<close>

fun cx_hasher :: hasher where
  "cx_hasher (H_write n # _) = of_nat (length n)"
| "cx_hasher _ = 0"

definition cx_init :: "nat \<Rightarrow> conc" where
  "cx_init n = conc_new n (cache_new cx_hasher (\<lambda>_. cx_hasher) 1 60)"

text \<open>A schedule: which thread starts which insertion, and which thread makes its next step.\<close>

datatype cx_event = Call nat message | Step nat

fun cx_run :: "cx_event list \<Rightarrow> conc \<Rightarrow> conc option" where
  "cx_run [] s = Some s"
| "cx_run (Call t m # es) s =
     (if t < length (threads s) \<and> threads s ! t = C_idle
      then cx_run es (s\<lparr>threads := (threads s)[t := insert_begin (shared s) m 0]\<rparr>) else None)"
| "cx_run (Step t # es) s =
     (if t < length (threads s) \<and> misses (threads s ! t) = 0
      then case cact (\<lambda>_ s. s) (shared s) (wlocks s) (threads s ! t) of
             None \<Rightarrow> None
           | Some (c, L, p) \<Rightarrow> cx_run es \<lparr>shared = c, wlocks = L, threads = (threads s)[t := p]\<rparr>
      else None)"

lemma cx_run_reach: "cx_run es s = Some s' \<Longrightarrow> creach n cap s k \<Longrightarrow> creach n cap s' k"
proof (induction es s rule: cx_run.induct)
  case (2 t m es s)
  then show ?case using c_step [OF _ call_insert, of n cap s k] by (auto split: if_splits)
next
  case (3 t es s)
  then obtain c L p where *: "t < length (threads s)" "misses (threads s ! t) = 0"
      "cact (\<lambda>_ s. s) (shared s) (wlocks s) (threads s ! t) = Some (c, L, p)"
    by (auto split: if_splits option.splits)
  from c_step [OF 3(3) run [OF crunI [OF *(1) iter_order_id *(3)]]] 3 * show ?case by simp
qed simp

lemma cx_init_reach: "creach n 1 (cx_init n) 0"
  unfolding cx_init_def by (rule c_new)

definition cx_key :: "nat \<Rightarrow> cache_key" where
  "cx_key n = cache_key_from_question (ex_question\<lparr>q_name := replicate n 97\<rparr>)"

definition cx_entry :: "nat \<Rightarrow> cache_entry" where
  "cx_entry n = entry_for (cx_name n) 300 0"

lemma cx_index:
  assumes "build_hasher c = cx_hasher" "n < NUM_SHARDS"
  shows "shard_index c (key_hash_calls (cx_key n)) = n"
proof -
  have "(of_nat n :: u64) AND mask 6 = of_nat n mod 64" by (simp add: take_bit_eq_mod flip: take_bit_eq_mask)
  then have "unat (of_nat n AND 63 :: u64) = n"
    using assms(2) by (simp add: mask_eq_exp_minus_1 unat_mod unat_of_nat NUM_SHARDS_def)
  then show ?thesis
    using assms(1) by (simp add: shard_index_def key_hash_calls_def cx_key_def cache_key_from_question_def
        str_to_ascii_lowercase_def NUM_SHARDS_def)
qed

lemma cx_begin:
  assumes "build_hasher c = cx_hasher" "max_negative_ttl c = 60" "n < NUM_SHARDS"
  shows "insert_begin c (cx_name n) 0 = Ins_lock n (cx_key n) (cx_entry n) 0"
proof -
  let ?q = "ex_question\<lparr>q_name := replicate n 97\<rparr>"
  have hd: "header_rcode (header ex_response) = Inr NoError" "\<not> is_truncated (header ex_response)"
    by code_simp+
  have "effective_ttl 60 NoError (cx_name n) = Some (Some 300)"
    by (simp add: effective_ttl_def cx_name_def ex_response_def ex_answer_def)
  moreover have "header (cx_name n) = header ex_response" "questions (cx_name n) = [?q]"
    by (simp_all add: cx_name_def)
  ultimately have "cacheable 60 (cx_name n) = Some (?q, 300)"
    by (simp add: cacheable_def hd)
  moreover have "shard_index c (key_hash_calls (cx_key n)) = n" using assms by (intro cx_index)
  ultimately show ?thesis
    using assms(2) by (simp add: insert_begin_eq cx_key_def cx_entry_def)
qed

lemma cx_expires: "\<not> expires_at (cx_entry n) \<le> 0"
  by (simp add: cx_entry_def entry_for_def nanos_per_sec_def)

lemma cx_init_fields:
  "shared (cx_init n) = cache_new cx_hasher (\<lambda>_. cx_hasher) 1 60" "wlocks (cx_init n) = unlocked"
  "threads (cx_init n) = replicate n C_idle"
  by (simp_all add: cx_init_def conc_new_def)

lemma cx_shards: "Suc 0 < NUM_SHARDS" "Suc (Suc 0) < NUM_SHARDS"
  by (simp_all add: NUM_SHARDS_def)

lemmas cx_eval = cx_begin cx_expires cx_init_fields cx_shards cache_new_def list_update_code
  nth_list_update evict_one_def Let_def

definition cx_overshoot :: "cx_event list" where
  "cx_overshoot =
     (let t0 = 0; t1 = Suc 0; a = cx_name (Suc 0); b = cx_name (Suc (Suc 0))
      in [Call t0 a, Call t1 b, Step t0, Step t0, Step t1, Step t1, Step t0, Step t0, Step t1, Step t1])"

definition cx_underflow :: "cx_event list" where
  "cx_underflow =
     (let t0 = 0; t1 = Suc 0; t2 = Suc (Suc 0); t3 = Suc (Suc (Suc 0));
          a = cx_name (Suc 0); b = cx_name (Suc (Suc 0))
      in [Call t0 a, Step t0, Step t0, Step t0, Call t1 b, Step t1, Step t1, Step t1, Step t1,
          Call t2 a, Step t2, Step t2, Call t3 b, Step t3, Step t3, Step t2, Step t3, Step t2, Step t3])"

lemma cx_overshoot_run:
  "\<exists>s. cx_run cx_overshoot (cx_init (Suc (Suc 0))) = Some s \<and> quiet s \<and> clen (shared s) = 2 \<and>
     build_hasher (shared s) = cx_hasher \<and> shards (shared s) ! Suc 0 = [(cx_key (Suc 0), cx_entry (Suc 0))]"
  by (simp add: cx_overshoot_def cx_eval quiet_def)

lemma cx_underflow_run:
  "\<exists>s. cx_run cx_underflow (cx_init (Suc (Suc (Suc (Suc 0))))) = Some s \<and> clen (shared s) = - 1"
  by (simp add: cx_underflow_def cx_eval)

lemma cx_reach:
  obtains s where "creach 2 1 s 0" "quiet s" "clen (shared s) = 2"
    "cache_map (shared s) (cx_key (Suc 0)) = Some (cx_entry (Suc 0))"
proof -
  obtain s where s: "cx_run cx_overshoot (cx_init (Suc (Suc 0))) = Some s" "quiet s" "clen (shared s) = 2"
      "build_hasher (shared s) = cx_hasher" "shards (shared s) ! Suc 0 = [(cx_key (Suc 0), cx_entry (Suc 0))]"
    using cx_overshoot_run by blast
  have "creach (Suc (Suc 0)) 1 s 0" by (rule cx_run_reach [OF s(1) cx_init_reach])
  then have "creach 2 1 s 0" by (simp only: numeral_2_eq_2)
  moreover have "cache_map (shared s) (cx_key (Suc 0)) = Some (cx_entry (Suc 0))"
    using s(4,5) cx_shards by (simp add: cache_map_def cx_index)
  ultimately show thesis using that s by blast
qed

section \<open>Properties\<close>

text \<open>
  C10: the counter under concurrency. In every state that any interleaving of insertions and sweeps can
  reach, a shard is write-locked just when exactly one thread is inside its critical section, \<open>len\<close>
  differs from the number of stored entries only by the increments and decrements that are on their
  way (modulo 2 to the 64), and when no operation is running \<open>len()\<close> is the number of entries.
\<close>

theorem conc_counter_exact:
  assumes "creach n cap s m"
  shows "(\<forall>i < NUM_SHARDS. tsum (held i) (threads s) = (if wlocks s ! i then 1 else 0)) \<and>
    cache_len (shared s) + of_nat (tsum adds (threads s)) =
      of_nat (card (dom (cache_map (shared s))) + tsum subs (threads s)) \<and>
    (quiet s \<longrightarrow> cache_len (shared s) = of_nat (card (dom (cache_map (shared s)))))"
proof -
  note inv = creach_inv [OF assms]
  then have "card (dom (cache_map (shared s))) = total_len (shards (shared s))"
    by (intro card_cache_map) (simp add: conc_inv_def)
  then show ?thesis
    using inv quiet_sums(1) [OF inv] by (simp add: conc_inv_def cache_len_def of_bool_def)
qed

theorem conc_counter_exact_witness:
  "\<exists>s. creach 2 1 s 0 \<and> quiet s \<and> (2 :: u64) = of_nat (card (dom (cache_map (shared s))))"
proof -
  obtain s where s: "creach 2 1 s 0" "quiet s" "clen (shared s) = 2" by (rule cx_reach)
  then show ?thesis using conc_counter_exact [OF s(1)] by (auto simp: cache_len_def)
qed

text \<open>
  C11: no deadlock and no livelock. From every reachable state the running operations can all complete,
  whatever locks are held, and no schedule keeps them running for more than a fixed number of steps,
  at most \<open>3 * NUM_SHARDS + 1\<close> for each: dropping the lock of the target shard before looking at the
  other shards means that no thread ever waits while it holds one.
\<close>

theorem conc_progress:
  assumes "creach n cap s m"
  shows "(\<exists>s'. runs\<^sup>*\<^sup>* s s' \<and> quiet s') \<and>
    (\<forall>k s'. (runs ^^ k) s s' \<longrightarrow> k \<le> tsum work (threads s)) \<and>
    (quiet s \<or> (\<exists>s'. runs s s'))"
  using runs_to_quiet [OF creach_inv [OF assms]] runs_bounded [OF _ creach_inv [OF assms]]
    crun_enabled [OF creach_inv [OF assms]] unfolding runs_def by blast

theorem conc_progress_witness: "quiet (cx_init 2) \<or> (\<exists>s'. runs (cx_init 2) s')"
  using conc_progress [OF cx_init_reach [of 2]] by blast

text \<open>
  C12: the atomic operations are what the interleaved ones do when nobody interferes. In a state at
  rest, one thread that runs \<open>insert\<close> or \<open>evict_expired\<close> to its end, step by step, leaves the cache
  that \<open>cache_insert\<close> or \<open>cache_evict_expired\<close> gives, and every lock free.
\<close>

theorem conc_alone_is_atomic:
  assumes "creach n cap s m" "quiet s"
  shows "(\<exists>k. solo it k (shared s, wlocks s, insert_begin (shared s) response now) =
        (cache_insert it (shared s) response now, wlocks s, C_idle)) \<and>
    (\<exists>k. solo it k (shared s, wlocks s, sweep_begin (shared s) now) =
        (cache_evict_expired (shared s) now, wlocks s, C_idle))"
proof -
  note inv = creach_inv [OF assms(1)]
  have L: "wlocks s = unlocked" and len: "length (shards (shared s)) = NUM_SHARDS"
    using quiet_sums(2) [OF inv assms(2)] inv shards_okD(2) by (auto simp: conc_inv_def)
  have "leads it (shared s, unlocked, insert_begin (shared s) response now)
      (cache_insert it (shared s) response now, unlocked, C_idle)"
    using insert_leads [OF shard_index_less len] leads_refl
    by (auto simp: insert_begin_eq cache_insert_eq cache_store_def Let_def split: option.split)
  moreover have "leads it (shared s, unlocked, sweep_begin (shared s) now)
      (cache_evict_expired (shared s) now, unlocked, C_idle)"
    using sweep_leads [OF len, of 0 now] len
    by (simp add: sweep_begin_def cache_evict_expired_def split: prod.split)
  ultimately show ?thesis by (simp add: L leads_def)
qed

theorem conc_alone_is_atomic_witness:
  "\<exists>s k. creach 2 1 s 0 \<and> solo (\<lambda>_ s. s) k (shared s, wlocks s, insert_begin (shared s) ex_response 7) =
     (cache_insert (\<lambda>_ s. s) (shared s) ex_response 7, wlocks s, C_idle)"
proof -
  obtain s where s: "creach 2 1 s 0" "quiet s" by (rule cx_reach)
  then show ?thesis using conc_alone_is_atomic [OF s, of "\<lambda>_ s. s" ex_response 7] by blast
qed

text \<open>
  How far the capacity is exceeded. With \<open>n\<close> threads the cache never holds more entries than its
  capacity plus \<open>n - 1\<close>, plus the number of insertions so far that found nothing to evict because
  other threads had moved the entries away from under their search.
\<close>

lemma conc_capacity_bound:
  assumes "creach n cap s m" "unat cap + n + m < 2 ^ 64"
  shows "card (dom (cache_map (shared s))) \<le> unat cap + (n - 1) + m"
proof -
  have "card (dom (cache_map (shared s))) = total_len (shards (shared s))"
    using creach_inv [OF assms(1)] by (intro card_cache_map) (simp add: conc_inv_def)
  then show ?thesis using creach_load [OF assms] by (simp add: load_def)
qed

text \<open>
  C37: the bound is attained, and it lasts. Two threads that read \<open>len\<close> before either has stored its
  entry leave a cache of capacity one with two entries, at rest, and \<open>len()\<close> says so; and four threads
  can drive the counter below zero, to \<open>usize::MAX\<close>, because an entry can be evicted before the thread
  that stored it has counted it.
\<close>

theorem conc_capacity_exceeded:
  "(\<exists>s. creach 2 1 s 0 \<and> quiet s \<and> card (dom (cache_map (shared s))) = 2 \<and> cache_len (shared s) = 2) \<and>
   (\<exists>s. creach 4 1 s 0 \<and> cache_len (shared s) = - 1)"
proof
  obtain s where s: "creach 2 1 s 0" "quiet s" "clen (shared s) = 2" by (rule cx_reach)
  have card: "card (dom (cache_map (shared s))) = total_len (shards (shared s))"
    using creach_inv [OF s(1)] by (intro card_cache_map) (simp add: conc_inv_def)
  have "total_len (shards (shared s)) \<le> 2" using creach_load [OF s(1)] by (simp add: load_def)
  moreover have "of_nat (total_len (shards (shared s))) = (2 :: u64)"
    using quiet_sums(1) [OF creach_inv [OF s(1)] s(2)] s(3) by simp
  ultimately have "total_len (shards (shared s)) = 2"
    using unat_of_nat_u64 [of "total_len (shards (shared s))"] by simp
  then show "\<exists>s. creach 2 1 s 0 \<and> quiet s \<and> card (dom (cache_map (shared s))) = 2 \<and> cache_len (shared s) = 2"
    using s card by (auto simp: cache_len_def)
next
  obtain s where "cx_run cx_underflow (cx_init (Suc (Suc (Suc (Suc 0))))) = Some s" "clen (shared s) = - 1"
    using cx_underflow_run by blast
  then show "\<exists>s. creach 4 1 s 0 \<and> cache_len (shared s) = - 1"
    using cx_run_reach [OF _ cx_init_reach] by (auto simp: cache_len_def numeral_eq_Suc)
qed



end
