(* ===== verification/Framing.thy ===== *)
theory Framing
  imports Message
begin

text \<open>
  \<open>dnser-net/src/framing.rs\<close>: the two-byte length prefix of DNS over TCP. A readable stream is the
  bytes still to come and how it ends (end of file, or the error the next read meets); a writable
  stream is the bytes written so far and, if it is going to fail, after how many more bytes and how.
\<close>

datatype io_error = IoUnexpectedEof | IoInvalidData | IoConnectionRefused | IoOther nat

record in_stream =
  incoming :: bytes
  ending :: "io_error option"

record out_stream =
  written :: bytes
  failing :: "(nat \<times> io_error) option"

text \<open>
  \<open>AsyncReadExt::read_exact\<close>: fills the buffer or fails, with \<open>UnexpectedEof\<close> at the end of the file;
  what was read before a failure is consumed.
\<close>

definition read_exact :: "nat \<Rightarrow> in_stream \<Rightarrow> (io_error + bytes) \<times> in_stream" where
  "read_exact n s =
     (if n \<le> length (incoming s) then (Inr (take n (incoming s)), s\<lparr>incoming := drop n (incoming s)\<rparr>)
      else (Inl (case ending s of None \<Rightarrow> IoUnexpectedEof | Some e \<Rightarrow> e), s\<lparr>incoming := []\<rparr>))"

definition read_framed :: "in_stream \<Rightarrow> (io_error + bytes option) \<times> in_stream" where
  "read_framed stream =
     (case read_exact 2 stream of
        (Inl e, stream) \<Rightarrow> if e = IoUnexpectedEof then (Inr None, stream) else (Inl e, stream)
      | (Inr len_buf, stream) \<Rightarrow>
          let len = unat (u16_from_be_bytes (len_buf ! 0) (len_buf ! 1))
          in if len = 0 then (Inr None, stream)
             else
               (case read_exact len stream of
                  (Inr body, stream) \<Rightarrow> (Inr (Some body), stream)
                | (Inl e, stream) \<Rightarrow> if e = IoUnexpectedEof then (Inr None, stream) else (Inl e, stream)))"

definition write_all :: "bytes \<Rightarrow> out_stream \<Rightarrow> (io_error + unit) \<times> out_stream" where
  "write_all bs s =
     (case failing s of
        None \<Rightarrow> (Inr (), s\<lparr>written := written s @ bs\<rparr>)
      | Some (n, e) \<Rightarrow>
          if length bs \<le> n then (Inr (), s\<lparr>written := written s @ bs, failing := Some (n - length bs, e)\<rparr>)
          else (Inl e, s\<lparr>written := written s @ take n bs, failing := Some (0, e)\<rparr>))"

definition write_framed :: "bytes \<Rightarrow> out_stream \<Rightarrow> (io_error + unit) \<times> out_stream" where
  "write_framed msg stream =
     (if length msg > 65535 then (Inl IoInvalidData, stream)
      else
        (case write_all (u16_to_be_bytes (of_nat (length msg))) stream of
           (Inl e, stream) \<Rightarrow> (Inl e, stream)
         | (Inr _, stream) \<Rightarrow> write_all msg stream))"

section \<open>The frame of a message\<close>

definition frame :: "bytes \<Rightarrow> bytes" where
  "frame msg = u16_to_be_bytes (of_nat (length msg)) @ msg"

lemma read_exact_append:
  "length xs = n \<Longrightarrow> read_exact n \<lparr>incoming = xs @ rest, ending = e\<rparr> = (Inr xs, \<lparr>incoming = rest, ending = e\<rparr>)"
  by (simp add: read_exact_def)

lemma read_framed_frame:
  assumes "msg \<noteq> []" "length msg \<le> 65535"
  shows "read_framed \<lparr>incoming = frame msg @ rest, ending = e\<rparr> =
    (Inr (Some msg), \<lparr>incoming = rest, ending = e\<rparr>)"
proof -
  let ?p = "u16_to_be_bytes (of_nat (length msg))"
  have p: "length ?p = 2" by (simp add: u16_to_be_bytes_def)
  have "u16_from_be_bytes (?p ! 0) (?p ! 1) = of_nat (length msg)"
    by (simp add: u16_to_be_bytes_def be_simps)
  moreover have "unat (of_nat (length msg) :: u16) = length msg"
    using assms by (simp add: unat_of_nat)
  ultimately show ?thesis
    using assms read_exact_append [OF p, of "msg @ rest" e] read_exact_append [of msg "length msg" rest e]
    by (simp add: read_framed_def frame_def)
qed

lemma write_framed_ok:
  assumes "length msg \<le> 65535" "failing s = None"
  shows "write_framed msg s = (Inr (), s\<lparr>written := written s @ frame msg\<rparr>)"
  using assms by (simp add: write_framed_def write_all_def frame_def)

text \<open>Reading never puts bytes back; a message that was read took its whole frame.\<close>

lemma read_exact_shrinks: "read_exact n s = (r, s') \<Longrightarrow> length (incoming s') \<le> length (incoming s)"
  by (auto simp: read_exact_def split: if_splits)

lemma read_framed_Some:
  assumes "read_framed s = (Inr (Some msg), s')"
  shows "incoming s = frame msg @ incoming s' \<and> msg \<noteq> [] \<and> length msg \<le> 65535 \<and> ending s' = ending s"
proof -
  obtain a b r where ab: "incoming s = a # b # r" and
    len: "unat (u16_from_be_bytes a b) \<noteq> 0" "unat (u16_from_be_bytes a b) \<le> length r"
    and msg: "msg = take (unat (u16_from_be_bytes a b)) r"
    and s': "s' = s\<lparr>incoming := drop (unat (u16_from_be_bytes a b)) r\<rparr>"
  proof (cases "incoming s" rule: remdups_adj.cases)
    case (3 x y zs)
    with assms that [of x y zs] show ?thesis
      by (auto simp: read_framed_def read_exact_def Let_def split: if_splits)
  qed (use assms in \<open>auto simp: read_framed_def read_exact_def split: if_splits option.splits\<close>)
  then have l: "length msg = unat (u16_from_be_bytes a b)" by simp
  then have "u16_to_be_bytes (of_nat (length msg)) = [a, b]" by (simp add: be_simps del: length_take)
  then have "incoming s = frame msg @ incoming s'" using ab msg s' by (simp add: frame_def del: length_take)
  moreover have "length msg \<le> 65535"
    using l unsigned_less [of "u16_from_be_bytes a b", where ?'a = nat] by simp
  ultimately show ?thesis using l len s' by auto
qed

lemma read_framed_progress:
  "read_framed s = (Inr (Some msg), s') \<Longrightarrow> length (incoming s') < length (incoming s)"
  using read_framed_Some [of s msg s'] by (auto simp: frame_def)


section \<open>Properties\<close>

text \<open>The frames a client writes one after another, and the reads that take them off the stream.\<close>

fun write_frames :: "bytes list \<Rightarrow> out_stream \<Rightarrow> (io_error + unit) \<times> out_stream" where
  "write_frames [] s = (Inr (), s)"
| "write_frames (m # ms) s =
     (case write_framed m s of (Inl e, s) \<Rightarrow> (Inl e, s) | (Inr _, s) \<Rightarrow> write_frames ms s)"

fun read_frames :: "nat \<Rightarrow> in_stream \<Rightarrow> (io_error + bytes option) list" where
  "read_frames 0 s = []"
| "read_frames (Suc n) s = (case read_framed s of (r, s) \<Rightarrow> r # read_frames n s)"

lemma write_frames_ok:
  "failing s = None \<Longrightarrow> \<forall>m \<in> set ms. length m \<le> 65535 \<Longrightarrow>
   write_frames ms s = (Inr (), s\<lparr>written := written s @ concat (map frame ms)\<rparr>)"
  by (induction ms arbitrary: s) (auto simp: write_framed_ok)

lemma read_frames_concat:
  "\<forall>m \<in> set ms. m \<noteq> [] \<and> length m \<le> 65535 \<Longrightarrow>
   read_frames (Suc (length ms)) \<lparr>incoming = concat (map frame ms), ending = None\<rparr> =
     map (\<lambda>m. Inr (Some m)) ms @ [Inr None]"
  by (induction ms) (auto simp: read_framed_frame, simp add: read_framed_def read_exact_def)

text \<open>
  C24: framing round trip. Non-empty messages of at most 65535 bytes that are written one after the
  other to a stream that does not fail are read back one by one, unchanged and in order, and the
  read after the last one reports the orderly end of the connection.
\<close>

theorem framing_roundtrip:
  assumes "\<forall>m \<in> set ms. m \<noteq> [] \<and> length m \<le> 65535" "failing s = None" "written s = []"
  shows "\<exists>s'. write_frames ms s = (Inr (), s') \<and>
    read_frames (Suc (length ms)) \<lparr>incoming = written s', ending = None\<rparr> =
      map (\<lambda>m. Inr (Some m)) ms @ [Inr None]"
  using assms write_frames_ok [of s ms] read_frames_concat [OF assms(1)] by auto

theorem framing_roundtrip_witness:
  "\<exists>s'. write_frames [[104, 105], [1, 2, 3]] \<lparr>written = [], failing = None\<rparr> = (Inr (), s') \<and>
    read_frames 3 \<lparr>incoming = written s', ending = None\<rparr> =
      [Inr (Some [104, 105]), Inr (Some [1, 2, 3]), Inr None]"
  using framing_roundtrip [of "[[104, 105], [1, 2, 3]]" "\<lparr>written = [], failing = None\<rparr>"]
  by (simp add: numeral_3_eq_3)

text \<open>
  An oversized message is refused before a single byte is written, and every frame that is read
  is one that \<open>write_framed\<close> would produce: the bytes consumed are the two length bytes of the message
  followed by the message, which is never empty and never longer than 65535 bytes.
\<close>

lemma framing_refuses_and_consumes:
  "(65535 < length msg \<longrightarrow> write_framed msg out = (Inl IoInvalidData, out)) \<and>
   (read_framed s = (Inr (Some body), s') \<longrightarrow>
      incoming s = u16_to_be_bytes (of_nat (length body)) @ body @ incoming s' \<and>
      body \<noteq> [] \<and> length body \<le> 65535)"
  using read_framed_Some [of s body s'] by (auto simp: write_framed_def frame_def)

text \<open>
  A connection that ends inside a frame, in its length prefix or in its body, is reported as an
  orderly end (\<open>Ok(None)\<close>), not as an error.
\<close>

lemma read_framed_half_frame:
  assumes "length (incoming s) < 2 \<or>
    (\<exists>a b r. incoming s = a # b # r \<and> length r < unat (u16_from_be_bytes a b))" "ending s = None"
  shows "read_framed s = (Inr None, s\<lparr>incoming := []\<rparr>)"
  using assms by (auto simp: read_framed_def read_exact_def Let_def)

end
