(* ===== verification/Config.thy ===== *)
theory Config
  imports Prelude RData Framing
begin

text \<open>
  \<open>dnser-config\<close> and the command line of the \<open>dnser\<close> binary: the configuration records with their
  defaults, \<open>validate\<close>, \<open>load\<close>, and \<open>parse_args\<close>. Reading a file and decoding TOML are code outside
  the repository and are arguments of \<open>load\<close>.
\<close>

section \<open>Configuration records\<close>

datatype ip_addr = V4 ipv4_addr | V6 ipv6_addr

record socket_addr =
  sa_ip :: ip_addr
  sa_port :: u16

definition DEFAULT_PORT :: u16 where "DEFAULT_PORT = 1053"

record server_config =
  listen :: socket_addr
  workers :: u64
  tokio_threads :: u64
  shutdown_drain_secs :: u64
  tcp_idle_timeout_secs :: u64
  tcp_max_connections :: u64
  udp_max_inflight :: u64

definition server_config_default :: server_config where
  "server_config_default =
     \<lparr>listen = \<lparr>sa_ip = V4 (Ipv4Addr 0 0 0 0), sa_port = DEFAULT_PORT\<rparr>, workers = 1, tokio_threads = 0,
      shutdown_drain_secs = 5, tcp_idle_timeout_secs = 10, tcp_max_connections = 1000,
      udp_max_inflight = 1000\<rparr>"

datatype log_level = Trace | Debug | Info | Warn | Error

datatype log_format = Pretty | Json

record logging_config =
  level :: log_level
  format :: log_format

definition logging_config_default :: logging_config where
  "logging_config_default = \<lparr>level = Info, format = Pretty\<rparr>"

record resolver_config =
  upstreams :: "socket_addr list"
  timeout_ms :: u64

definition resolver_config_default :: resolver_config where
  "resolver_config_default =
     \<lparr>upstreams = [\<lparr>sa_ip = V4 (Ipv4Addr 8 8 8 8), sa_port = 53\<rparr>, \<lparr>sa_ip = V4 (Ipv4Addr 1 1 1 1), sa_port = 53\<rparr>],
      timeout_ms = 2000\<rparr>"

record cache_config =
  max_entries :: u64
  reaper_interval_secs :: u64
  max_negative_ttl_secs :: u64

definition cache_config_default :: cache_config where
  "cache_config_default = \<lparr>max_entries = 10000, reaper_interval_secs = 30, max_negative_ttl_secs = 3600\<rparr>"

record config =
  server :: server_config
  logging :: logging_config
  resolver :: resolver_config
  cache_cfg :: cache_config

definition config_default :: config where
  "config_default =
     \<lparr>server = server_config_default, logging = logging_config_default,
      resolver = resolver_config_default, cache_cfg = cache_config_default\<rparr>"

section \<open>Validation and loading\<close>

datatype 'toml config_error =
    ConfigIo string io_error
  | ConfigParse 'toml
  | ZeroCacheCapacity
  | ZeroReaperInterval
  | ZeroWorkers
  | ZeroTcpIdleTimeout
  | ZeroTcpMaxConnections
  | ZeroUdpMaxInflight
  | ZeroMaxNegativeTtl

definition validate :: "config \<Rightarrow> 'toml config_error + unit" where
  "validate c =
     (if workers (server c) = 0 then Inl ZeroWorkers
      else if tcp_idle_timeout_secs (server c) = 0 then Inl ZeroTcpIdleTimeout
      else if tcp_max_connections (server c) = 0 then Inl ZeroTcpMaxConnections
      else if udp_max_inflight (server c) = 0 then Inl ZeroUdpMaxInflight
      else if max_entries (cache_cfg c) = 0 then Inl ZeroCacheCapacity
      else if reaper_interval_secs (cache_cfg c) = 0 then Inl ZeroReaperInterval
      else if max_negative_ttl_secs (cache_cfg c) = 0 then Inl ZeroMaxNegativeTtl
      else Inr ())"

definition load ::
    "(string \<Rightarrow> io_error + string) \<Rightarrow> (string \<Rightarrow> 'toml + config) \<Rightarrow> string option \<Rightarrow> 'toml config_error + config" where
  "load read_to_string from_str path =
     and_then
       (case path of
          Some p \<Rightarrow>
            and_then (map_err (ConfigIo p) (read_to_string p)) (\<lambda>s. map_err ConfigParse (from_str s))
        | None \<Rightarrow> Inr config_default)
       (\<lambda>config. and_then (validate config) (\<lambda>_. Inr config))"

text \<open>The text of every error, given that of the errors it wraps.\<close>

fun config_error_display :: "(io_error \<Rightarrow> string) \<Rightarrow> ('toml \<Rightarrow> string) \<Rightarrow> 'toml config_error \<Rightarrow> string" where
  "config_error_display io tm (ConfigIo path e) = ''cannot read config file '' @ path @ '': '' @ io e"
| "config_error_display io tm (ConfigParse e) = ''failed to parse config: '' @ tm e"
| "config_error_display io tm ZeroCacheCapacity = ''[cache] max_entries must be >= 1''"
| "config_error_display io tm ZeroReaperInterval = ''[cache] reaper_interval_secs must be >= 1''"
| "config_error_display io tm ZeroWorkers = ''[server] workers must be >= 1''"
| "config_error_display io tm ZeroTcpIdleTimeout = ''[server] tcp_idle_timeout_secs must be >= 1''"
| "config_error_display io tm ZeroTcpMaxConnections = ''[server] tcp_max_connections must be >= 1''"
| "config_error_display io tm ZeroUdpMaxInflight = ''[server] udp_max_inflight must be >= 1''"
| "config_error_display io tm ZeroMaxNegativeTtl = ''[cache] max_negative_ttl_secs must be >= 1''"

section \<open>The command line\<close>

text \<open>\<open>process::exit\<close> ends the program with a code; otherwise the path of the configuration file is known.\<close>

datatype args_outcome = Args "string option" | Exit nat

fun parse_args_loop :: "string list \<Rightarrow> string option \<Rightarrow> args_outcome" where
  "parse_args_loop [] config_path = Args config_path"
| "parse_args_loop (arg # args) config_path =
     (if arg = ''--config'' \<or> arg = ''-c''
      then (case args of [] \<Rightarrow> Exit 1 | path # args' \<Rightarrow> parse_args_loop args' (Some path))
      else if arg = ''--help'' \<or> arg = ''-h'' then Exit 0
      else if arg = ''--version'' \<or> arg = ''-V'' then Exit 0
      else Exit 1)"

definition parse_args :: "string list \<Rightarrow> args_outcome" where
  "parse_args argv = parse_args_loop (drop 1 argv) None"

text \<open>
  The part of \<open>main\<close> before the server runs: how the process ends, or the configuration and the number
  of runtime threads (\<open>None\<close>: the runtime's default) it starts with.
\<close>

datatype 'toml startup = Exited nat | Failed "'toml config_error" | Started config "u64 option"

definition startup ::
    "(string \<Rightarrow> io_error + string) \<Rightarrow> (string \<Rightarrow> 'toml + config) \<Rightarrow> string list \<Rightarrow> 'toml startup" where
  "startup read_to_string from_str argv =
     (case parse_args argv of
        Exit n \<Rightarrow> Exited n
      | Args config_path \<Rightarrow>
          (case load read_to_string from_str config_path of
             Inl e \<Rightarrow> Failed e
           | Inr config \<Rightarrow>
               Started config
                 (if tokio_threads (server config) > 0 then Some (tokio_threads (server config)) else None)))"

section \<open>Properties\<close>

definition config_ok :: "config \<Rightarrow> bool" where
  "config_ok c \<longleftrightarrow>
     workers (server c) \<noteq> 0 \<and> tcp_idle_timeout_secs (server c) \<noteq> 0 \<and> tcp_max_connections (server c) \<noteq> 0 \<and>
     udp_max_inflight (server c) \<noteq> 0 \<and> max_entries (cache_cfg c) \<noteq> 0 \<and>
     reaper_interval_secs (cache_cfg c) \<noteq> 0 \<and> max_negative_ttl_secs (cache_cfg c) \<noteq> 0"

lemma validate_ok_iff: "validate c = Inr () \<longleftrightarrow> config_ok c"
  by (simp add: validate_def config_ok_def)

lemma config_default_ok: "config_ok config_default"
  by (simp add: config_ok_def config_default_def server_config_default_def cache_config_default_def)

lemma load_Inr_iff:
  "load rd fs path = Inr c \<longleftrightarrow> config_ok c \<and>
     (case path of None \<Rightarrow> c = config_default | Some p \<Rightarrow> (\<exists>s. rd p = Inr s \<and> fs s = Inr c))"
  using validate_ok_iff [of c]
  by (auto simp: load_def and_then_def map_err_def split: option.splits sum.splits)

text \<open>The pairs of a flag and a path that make up a command line.\<close>

definition flag_args :: "(string \<times> string) list \<Rightarrow> string list" where
  "flag_args fps = concat (map (\<lambda>(f, p). [f, p]) fps)"

definition flags_give :: "string list \<Rightarrow> string option \<Rightarrow> string option \<Rightarrow> bool" where
  "flags_give args path0 path \<longleftrightarrow>
     (\<exists>fps. args = flag_args fps \<and> set (map fst fps) \<subseteq> {''--config'', ''-c''} \<and>
        path = (if fps = [] then path0 else Some (snd (last fps))))"

lemma flag_args_simps [simp]:
  "flag_args [] = []" "flag_args ((f, p) # fps) = f # p # flag_args fps"
  by (simp_all add: flag_args_def)

lemma flags_give_Nil: "flags_give [] path0 path \<longleftrightarrow> path = path0"
proof -
  have "[] = flag_args fps \<longleftrightarrow> fps = []" for fps by (cases fps) auto
  then show ?thesis by (simp add: flags_give_def)
qed

lemma flags_give_single: "\<not> flags_give [f] path0 path"
proof -
  have "[f] \<noteq> flag_args fps" for fps by (cases fps) auto
  then show ?thesis by (simp add: flags_give_def)
qed

lemma flags_give_Cons:
  "flags_give (f # p # args) path0 path \<longleftrightarrow> (f = ''--config'' \<or> f = ''-c'') \<and> flags_give args (Some p) path"
proof
  assume "flags_give (f # p # args) path0 path"
  then obtain fps where fps: "f # p # args = flag_args fps" "set (map fst fps) \<subseteq> {''--config'', ''-c''}"
    "path = (if fps = [] then path0 else Some (snd (last fps)))"
    by (auto simp: flags_give_def)
  then obtain fps' where "fps = (f, p) # fps'" "args = flag_args fps'" by (cases fps) auto
  with fps(2,3) show "(f = ''--config'' \<or> f = ''-c'') \<and> flags_give args (Some p) path"
    by (auto simp: flags_give_def intro!: exI [of _ fps'])
next
  assume *: "(f = ''--config'' \<or> f = ''-c'') \<and> flags_give args (Some p) path"
  then obtain fps where "args = flag_args fps" "set (map fst fps) \<subseteq> {''--config'', ''-c''}"
    "path = (if fps = [] then Some p else Some (snd (last fps)))"
    by (auto simp: flags_give_def)
  with * show "flags_give (f # p # args) path0 path"
    unfolding flags_give_def by (intro exI [of _ "(f, p) # fps"]) auto
qed

lemma parse_args_loop_Args_iff: "parse_args_loop args path0 = Args path \<longleftrightarrow> flags_give args path0 path"
proof (induction args path0 rule: parse_args_loop.induct)
  case (2 arg args path0)
  then show ?case
    by (cases args) (simp_all add: flags_give_single flags_give_Cons)
qed (auto simp: flags_give_Nil)


text \<open>
  The command line is accepted just when it consists of pairs of \<open>--config\<close> or \<open>-c\<close> and a path, and
  then the last path wins; a command line without arguments selects the built-in defaults.
\<close>

lemma parse_args_exact:
  "parse_args argv = Args path \<longleftrightarrow>
     (\<exists>fps. drop 1 argv = flag_args fps \<and> set (map fst fps) \<subseteq> {''--config'', ''-c''} \<and>
        path = (if fps = [] then None else Some (snd (last fps))))"
  unfolding parse_args_def by (simp only: parse_args_loop_Args_iff flags_give_def)

text \<open>
  A server is only ever started with a validated configuration, which is the built-in one when
  the command line names no file, and it asks the runtime for a thread count exactly when
  \<open>tokio_threads\<close> is positive.
\<close>

lemma startup_validated:
  assumes "startup rd fs argv = Started c threads"
  shows "validate c = (Inr () :: 'toml config_error + unit) \<and>
    threads = (if tokio_threads (server c) = 0 then None else Some (tokio_threads (server c))) \<and>
    (parse_args argv = Args None \<longrightarrow> c = config_default)"
proof -
  obtain path where p: "parse_args argv = Args path" "load rd fs path = Inr c"
    "threads = (if tokio_threads (server c) > 0 then Some (tokio_threads (server c)) else None)"
    using assms by (auto simp: startup_def split: args_outcome.splits sum.splits)
  then show ?thesis
    using load_Inr_iff [of rd fs path c] by (auto simp: validate_ok_iff word_neq_0_conv)
qed

end
