(* ===== verification/Resolver.thy ===== *)
theory Resolver
  imports Message Framing Config
begin

text \<open>
  \<open>dnser-resolver\<close>: the forwarding resolver. The table of queries in flight on an upstream socket maps
  a query ID to the sending half of a one-shot channel (of some type \<open>'tx\<close>). Random draws, what a socket
  delivers and whether a timer fires are arguments. \<open>resolve\<close> sees the results of its upstreams in the
  order in which they complete.
\<close>

datatype resolve_error =
    RWrite write_error
  | RParse parse_error
  | RIo io_error
  | RTimeout
  | RNoUpstreams
  | RAllFailed
  | RInvalidResponse
  | RIdSpaceExhausted

type_synonym 'tx in_flight = "u16 \<rightharpoonup> 'tx"

section \<open>Query IDs\<close>

definition RANDOM_ID_ATTEMPTS :: nat where "RANDOM_ID_ATTEMPTS = 16"

text \<open>The linear scan over the offsets \<open>0..=u16::MAX\<close> from a random start, wrapping around.\<close>

function alloc_scan :: "'tx in_flight \<Rightarrow> u16 \<Rightarrow> u16 \<Rightarrow> u16 option" where
  "alloc_scan m start offset =
     (let id = start + offset
      in if m id = None then Some id
         else if offset = 0xFFFF then None
         else alloc_scan m start (offset + 1))"
  by auto

lemma u16_succ:
  assumes "(x :: u16) \<noteq> 0xFFFF"
  shows "unat (x + 1) = Suc (unat x)"
proof -
  have "unat x \<noteq> 65535" using assms by (simp add: word_unat_eq_iff)
  then show ?thesis using unsigned_less [of x, where ?'a = nat] by (simp add: unat_word_ariths)
qed

termination alloc_scan
proof (relation "measure (\<lambda>(m, start, offset). 65535 - unat offset)")
  fix m :: "'tx in_flight" and start offset id :: u16
  assume "offset \<noteq> 0xFFFF"
  then show "((m, start, offset + 1), (m, start, offset)) \<in> measure (\<lambda>(m, start, offset). 65535 - unat offset)"
    using u16_succ [of offset] unsigned_less [of "offset + 1", where ?'a = nat] by simp
qed simp

declare alloc_scan.simps [simp del]

text \<open>\<open>draws n\<close> is the \<open>n\<close>-th ID the random number generator produces during the call.\<close>

definition allocate_and_insert ::
    "'tx in_flight \<Rightarrow> 'tx \<Rightarrow> (nat \<Rightarrow> u16) \<Rightarrow> (resolve_error + u16) \<times> 'tx in_flight" where
  "allocate_and_insert m tx draws =
     (case find (\<lambda>id. m id = None) (map draws [0..<RANDOM_ID_ATTEMPTS]) of
        Some i \<Rightarrow> (Inr i, m(i \<mapsto> tx))
      | None \<Rightarrow>
          (case alloc_scan m (draws RANDOM_ID_ATTEMPTS) 0 of
             Some i \<Rightarrow> (Inr i, m(i \<mapsto> tx))
           | None \<Rightarrow> (Inl RIdSpaceExhausted, m)))"

section \<open>One query to one upstream\<close>

text \<open>Patching the ID and the RD bit into the serialised query.\<close>

definition patch_query :: "u16 \<Rightarrow> bytes \<Rightarrow> bytes" where
  "patch_query assigned_id bs =
     (let bs = u16_to_be_bytes assigned_id @ drop 2 bs
      in bs[2 := bs ! 2 OR ucast (drop_bit 8 H_RD)])"

text \<open>\<open>UpstreamSocket::query\<close> up to the send: the ID and the datagram, or the early error.\<close>

definition query_start ::
    "'tx in_flight \<Rightarrow> 'tx \<Rightarrow> (nat \<Rightarrow> u16) \<Rightarrow> message \<Rightarrow> (resolve_error + u16 \<times> bytes) \<times> 'tx in_flight" where
  "query_start m tx draws query =
     (case to_bytes_mut query of
        Inl e \<Rightarrow> (Inl (RWrite e), m)
      | Inr bs \<Rightarrow>
          (case allocate_and_insert m tx draws of
             (Inl e, m) \<Rightarrow> (Inl e, m)
           | (Inr assigned_id, m) \<Rightarrow> (Inr (assigned_id, patch_query assigned_id bs), m)))"

definition parse_validated_response :: "bytes \<Rightarrow> message \<Rightarrow> u16 \<Rightarrow> resolve_error + message" where
  "parse_validated_response bs query original_id =
     and_then (map_err RParse (message_parse bs)) (\<lambda>msg.
     if \<not> is_response (header msg) \<or> questions msg \<noteq> questions query then Inl RInvalidResponse
     else Inr (msg\<lparr>header := (header msg)\<lparr>h_id := original_id\<rparr>\<rparr>))"

text \<open>\<open>InFlightGuard::drop\<close>: an armed guard removes its ID.\<close>

definition guard_drop :: "u16 option \<Rightarrow> 'tx in_flight \<Rightarrow> 'tx in_flight" where
  "guard_drop guard m = (case guard of Some i \<Rightarrow> m(i := None) | None \<Rightarrow> m)"

section \<open>The TCP fallback\<close>

text \<open>What the network does to one TCP exchange.\<close>

record tcp_env =
  te_timeout :: bool
  te_connect :: "io_error + unit"
  te_out :: out_stream
  te_in :: in_stream

definition tcp_exchange :: "message \<Rightarrow> tcp_env \<Rightarrow> resolve_error + message" where
  "tcp_exchange query env =
     (let original_id = h_id (header query) in
      and_then (map_err RWrite (to_bytes query)) (\<lambda>bs.
      and_then (map_err RIo (te_connect env)) (\<lambda>_.
      and_then (map_err RIo (fst (write_framed bs (te_out env)))) (\<lambda>_.
      and_then (map_err RIo (fst (read_framed (te_in env)))) (\<lambda>frame.
      and_then (ok_or RInvalidResponse frame) (\<lambda>body.
      parse_validated_response body query original_id))))))"

definition tcp_query :: "message \<Rightarrow> tcp_env \<Rightarrow> resolve_error + message" where
  "tcp_query query env = (if te_timeout env then Inl RTimeout else tcp_exchange query env)"

text \<open>
  How the wait for a reply ends, and the rest of \<open>UpstreamSocket::query\<close> after it. The guard stays
  armed only when the timer fires.
\<close>

datatype wait_outcome = Received bytes | SenderDropped | Elapsed

definition query_finish :: "message \<Rightarrow> wait_outcome \<Rightarrow> tcp_env \<Rightarrow> resolve_error + message" where
  "query_finish query w env =
     (case w of
        Received bs \<Rightarrow>
          and_then (parse_validated_response bs query (h_id (header query))) (\<lambda>msg.
          if is_truncated (header msg) then tcp_query query env else Inr msg)
      | SenderDropped \<Rightarrow> Inl RAllFailed
      | Elapsed \<Rightarrow> Inl RTimeout)"

definition guard_armed :: "wait_outcome \<Rightarrow> bool" where
  "guard_armed w \<longleftrightarrow> w = Elapsed"

section \<open>The receive loop\<close>

text \<open>One iteration: whether the loop goes on, the table, and the channel that is sent a reply.\<close>

definition recv_iteration ::
    "'tx in_flight \<Rightarrow> io_error + bytes \<Rightarrow> bool \<times> 'tx in_flight \<times> ('tx \<times> bytes) option" where
  "recv_iteration m recv =
     (case recv of
        Inl e \<Rightarrow> (e = IoConnectionRefused, m, None)
      | Inr datagram \<Rightarrow>
          let buf = take MAX_UDP_SIZE datagram; n = length buf
          in if n < 12 then (True, m, None)
             else
               let id = u16_from_be_bytes (buf ! 0) (buf ! 1)
               in (case m id of
                     Some tx \<Rightarrow> (True, m(id := None), Some (tx, take n buf))
                   | None \<Rightarrow> (True, m, None)))"

section \<open>Racing the upstreams\<close>

fun resolve_loop :: "(resolve_error + message) list \<Rightarrow> resolve_error + message" where
  "resolve_loop [] = Inl RAllFailed"
| "resolve_loop (Inr msg # futs) = Inr msg"
| "resolve_loop (Inl e # futs) = resolve_loop futs"

definition resolve :: "socket_addr list \<Rightarrow> (resolve_error + message) list \<Rightarrow> resolve_error + message" where
  "resolve ups results = (if ups = [] then Inl RNoUpstreams else resolve_loop results)"


text \<open>
  What becomes of one \<open>UpstreamSocket::query\<close> call: an error before the wait (serialisation, no free ID,
  a failed send), or a wait and what follows it. \<open>attempts\<close> lists the calls of one \<open>resolve\<close> in the order
  in which they complete.
\<close>

datatype attempt = Rejected resolve_error | Waited wait_outcome tcp_env

fun attempt_result :: "message \<Rightarrow> attempt \<Rightarrow> resolve_error + message" where
  "attempt_result query (Rejected e) = Inl e"
| "attempt_result query (Waited w env) = query_finish query w env"

definition resolver_resolve :: "socket_addr list \<Rightarrow> attempt list \<Rightarrow> message \<Rightarrow> resolve_error + message" where
  "resolver_resolve ups attempts query = resolve ups (map (attempt_result query) attempts)"

section \<open>Allocation\<close>

lemma alloc_scan_Some: "alloc_scan m start offset = Some i \<Longrightarrow> m i = None"
proof (induction m start offset rule: alloc_scan.induct)
  case (1 m start offset)
  then show ?case by (auto simp: alloc_scan.simps [of m start offset] Let_def split: if_splits)
qed

lemma alloc_scan_None:
  "alloc_scan m start offset = None \<Longrightarrow> offset \<le> k \<Longrightarrow> m (start + k) \<noteq> None"
proof (induction m start offset rule: alloc_scan.induct)
  case (1 m start offset)
  from "1.prems"(1) have taken: "m (start + offset) \<noteq> None"
    by (auto simp: alloc_scan.simps [of m start offset] Let_def split: if_splits)
  show ?case
  proof (cases "offset = k")
    case False
    with "1.prems"(2) have lt: "unat offset < unat k" by (simp add: word_le_nat_alt word_unat_eq_iff)
    then have "offset \<noteq> 0xFFFF"
      using unsigned_less [of k, where ?'a = nat] by (auto simp: word_unat_eq_iff)
    then have "offset + 1 \<le> k" "alloc_scan m start (offset + 1) = None"
      using lt taken "1.prems"(1) u16_succ [of offset]
      by (auto simp: word_le_nat_alt alloc_scan.simps [of m start offset] Let_def split: if_splits)
    with "1.IH" taken \<open>offset \<noteq> 0xFFFF\<close> show ?thesis by blast
  qed (use taken in simp)
qed

lemma alloc_scan_None_full: "alloc_scan m start 0 = None \<Longrightarrow> dom m = UNIV"
proof -
  assume "alloc_scan m start 0 = None"
  then have "m (start + (i - start)) \<noteq> None" for i by (rule alloc_scan_None) simp
  then show ?thesis by auto
qed

lemma allocate_cases:
  obtains (ok) i where "allocate_and_insert m tx draws = (Inr i, m(i \<mapsto> tx))" "m i = None"
  | (full) "allocate_and_insert m tx draws = (Inl RIdSpaceExhausted, m)" "dom m = UNIV"
proof (cases "find (\<lambda>i. m i = None) (map draws [0..<RANDOM_ID_ATTEMPTS])")
  case (Some i)
  then have "m i = None" by (auto simp: find_Some_iff)
  with Some ok show thesis by (simp add: allocate_and_insert_def)
next
  case None
  then show thesis
    using ok full alloc_scan_Some [of m] alloc_scan_None_full [of m]
    by (cases "alloc_scan m (draws RANDOM_ID_ATTEMPTS) 0") (simp_all add: allocate_and_insert_def)
qed

section \<open>The datagram that is sent\<close>

lemma patch_header_bytes:
  "patch_query i (header_bytes h @ body) = header_bytes (h\<lparr>h_id := i, h_flags := h_flags h OR H_RD\<rparr>) @ body"
proof -
  have "drop_bit 8 (h_flags h OR H_RD) = drop_bit 8 (h_flags h) OR drop_bit 8 H_RD" by (simp add: drop_bit_or)
  moreover have u: "ucast (a OR b) = (ucast a OR ucast b :: u8)" for a b :: u16
    by (rule bit_word_eqI) (simp add: bit_simps)
  moreover have "ucast H_RD = (0 :: u8)" by (simp add: H_RD_def)
  then have "ucast (w OR H_RD) = (ucast w :: u8)" for w :: u16 by (simp add: u)
  ultimately show ?thesis
    by (simp add: patch_query_def header_bytes_def header_write_buf u16_to_be_bytes_def)
qed

lemma patch_to_bytes:
  assumes "to_bytes query = Inr b"
  shows "to_bytes (query\<lparr>header := (header query)\<lparr>h_id := i, h_flags := h_flags (header query) OR H_RD\<rparr>\<rparr>)
    = Inr (patch_query i b)"
  using to_bytes_header [OF assms] patch_header_bytes by metis

lemma parse_validated_Inr:
  assumes "parse_validated_response b query i = Inr msg"
  shows "is_response (header msg)" "questions msg = questions query" "h_id (header msg) = i"
    "\<exists>msg0. message_parse b = Inr msg0 \<and> msg = msg0\<lparr>header := (header msg0)\<lparr>h_id := i\<rparr>\<rparr>"
  using assms
  by (auto simp: parse_validated_response_def result_simps is_response_def split: if_splits)

lemma query_finish_Inr:
  assumes "query_finish query w env = Inr msg"
  shows "\<exists>b. parse_validated_response b query (h_id (header query)) = Inr msg"
  using assms
  by (auto simp: query_finish_def tcp_query_def tcp_exchange_def result_simps Let_def
      split: wait_outcome.splits if_splits)


section \<open>The contract of the resolver\<close>

definition answers_query :: "message \<Rightarrow> message \<Rightarrow> bool" where
  "answers_query q msg \<longleftrightarrow>
     is_response (header msg) \<and> questions msg = questions q \<and> h_id (header msg) = h_id (header q)"

lemma query_finish_answers:
  "query_finish q w env = Inr msg \<Longrightarrow> answers_query q msg"
  using query_finish_Inr [of q w env msg] parse_validated_Inr [of _ q "h_id (header q)" msg]
  by (auto simp: answers_query_def)

text \<open>What a client of the resolver relies on: a message it returns is a response to the query.\<close>

locale forwarding_resolver =
  fixes rsv :: "'env \<Rightarrow> message \<Rightarrow> resolve_error + message"
  assumes answers: "rsv env q = Inr msg \<Longrightarrow> answers_query q msg"
    and parsed: "rsv env q = Inr msg \<Longrightarrow>
      \<exists>b msg0. message_parse b = Inr msg0 \<and> msg = msg0\<lparr>header := (header msg0)\<lparr>h_id := h_id (header q)\<rparr>\<rparr>"
begin

lemma counts:
  assumes "rsv env q = Inr msg"
  shows "unat (qd_count (header msg)) = length (questions msg)" "unat (an_count (header msg)) = length (answers msg)"
    "unat (ns_count (header msg)) = length (authority msg)" "unat (ar_count (header msg)) = length (additional msg)"
    "wf_header (header msg)"
  using parsed [OF assms] message_parse_counts by (auto simp: wf_header_def)

end

lemma resolve_loop_find:
  "resolve_loop results = (case find is_ok results of Some r \<Rightarrow> r | None \<Rightarrow> Inl RAllFailed)"
  by (induction results rule: resolve_loop.induct) (auto simp: is_ok_def)

lemma resolver_resolve_Inr:
  assumes "resolver_resolve ups attempts q = Inr msg"
  obtains w env where "Waited w env \<in> set attempts" "query_finish q w env = Inr msg"
proof -
  obtain r where "r \<in> set (map (attempt_result q) attempts)" "r = Inr msg"
    using assms by (auto simp: resolver_resolve_def resolve_def resolve_loop_find find_Some_iff
        split: if_splits option.splits)
  then obtain a where a: "a \<in> set attempts" "attempt_result q a = Inr msg" by auto
  show thesis by (cases a) (use that a in auto)
qed

interpretation fwd: forwarding_resolver "\<lambda>(ups, attempts). resolver_resolve ups attempts"
proof (unfold_locales, goal_cases)
  case (1 env q msg)
  then show ?case by (auto elim!: resolver_resolve_Inr dest: query_finish_answers split: prod.splits)
next
  case (2 env q msg)
  then obtain w e where "query_finish q w e = Inr msg" by (auto elim!: resolver_resolve_Inr split: prod.splits)
  then show ?case using query_finish_Inr parse_validated_Inr(4) by blast
qed

end
