(* ===== verification/Upstream.thy ===== *)
theory Upstream
  imports Resolver
begin

text \<open>
  The life of the queries on one \<open>UpstreamSocket\<close> as a step relation: tasks that run
  \<open>UpstreamSocket::query\<close> interleave with each other and with \<open>recv_loop\<close>. Between two steps another
  thread may take the lock of the in-flight table. The channel of a task is named by the task's number;
  its mailbox is the value \<open>recv_loop\<close> has sent. A task leaves \<open>query\<close> by finishing with a disarmed
  guard (\<open>poll\<close>), or by unwinding with an armed guard: after a failed send, after the timer has fired,
  or because \<open>resolve\<close> has dropped it (no result). The guard is dropped in a step of its own. \<open>us_receiving\<close> says
  whether \<open>recv_loop\<close> is still running.
\<close>

datatype phase =
    Allocated bytes
  | Waiting
  | Unwinding "(resolve_error + message) option"
  | Done "(resolve_error + message) option"

record task =
  t_query :: message
  t_id :: u16
  t_phase :: phase
  t_mailbox :: "bytes option"

record upstream_state =
  us_flight :: "nat in_flight"
  us_tasks :: "nat \<rightharpoonup> task"
  us_sent :: "bytes list"
  us_receiving :: bool

definition us_init :: upstream_state where
  "us_init = \<lparr>us_flight = Map.empty, us_tasks = Map.empty, us_sent = [], us_receiving = True\<rparr>"

definition set_task :: "nat \<Rightarrow> task \<Rightarrow> upstream_state \<Rightarrow> upstream_state" where
  "set_task t k s = s\<lparr>us_tasks := (us_tasks s)(t \<mapsto> k)\<rparr>"

text \<open>\<open>tx.send\<close>: the value reaches the task while its receiver is alive, and is discarded otherwise.\<close>

definition deliver :: "(nat \<times> bytes) option \<Rightarrow> (nat \<rightharpoonup> task) \<Rightarrow> (nat \<rightharpoonup> task)" where
  "deliver out ts =
     (case out of
        None \<Rightarrow> ts
      | Some (t, b) \<Rightarrow>
          (case ts t of
             Some k \<Rightarrow>
               (case t_phase k of
                  Allocated _ \<Rightarrow> ts(t \<mapsto> k\<lparr>t_mailbox := Some b\<rparr>)
                | Waiting \<Rightarrow> ts(t \<mapsto> k\<lparr>t_mailbox := Some b\<rparr>)
                | _ \<Rightarrow> ts)
           | None \<Rightarrow> ts))"

inductive ustep :: "upstream_state \<Rightarrow> upstream_state \<Rightarrow> bool" where
  start: "\<lbrakk>us_tasks s t = None; query_start (us_flight s) t draws q = (Inr (i, b), m)\<rbrakk> \<Longrightarrow>
    ustep s (set_task t \<lparr>t_query = q, t_id = i, t_phase = Allocated b, t_mailbox = None\<rparr> (s\<lparr>us_flight := m\<rparr>))"
| start_fails: "\<lbrakk>us_tasks s t = None; query_start (us_flight s) t draws q = (Inl e, m)\<rbrakk> \<Longrightarrow>
    ustep s (set_task t \<lparr>t_query = q, t_id = 0, t_phase = Done (Some (Inl e)), t_mailbox = None\<rparr> (s\<lparr>us_flight := m\<rparr>))"
| send: "\<lbrakk>us_tasks s t = Some k; t_phase k = Allocated b\<rbrakk> \<Longrightarrow>
    ustep s (set_task t (k\<lparr>t_phase := Waiting\<rparr>) (s\<lparr>us_sent := us_sent s @ [b]\<rparr>))"
| send_fails: "\<lbrakk>us_tasks s t = Some k; t_phase k = Allocated b\<rbrakk> \<Longrightarrow>
    ustep s (set_task t (k\<lparr>t_phase := Unwinding (Some (Inl (RIo e)))\<rparr>) s)"
| cancel: "\<lbrakk>us_tasks s t = Some k; t_phase k = Waiting \<or> t_phase k = Allocated b\<rbrakk> \<Longrightarrow>
    ustep s (set_task t (k\<lparr>t_phase := Unwinding None\<rparr>) s)"
| elapse: "\<lbrakk>us_tasks s t = Some k; t_phase k = Waiting; t_mailbox k = None\<rbrakk> \<Longrightarrow>
    ustep s (set_task t (k\<lparr>t_phase := Unwinding (Some (query_finish (t_query k) Elapsed env))\<rparr>) s)"
| poll_received: "\<lbrakk>us_tasks s t = Some k; t_phase k = Waiting; t_mailbox k = Some b\<rbrakk> \<Longrightarrow>
    ustep s (set_task t (k\<lparr>t_phase := Done (Some (query_finish (t_query k) (Received b) env))\<rparr>) s)"
| poll_dropped: "\<lbrakk>us_tasks s t = Some k; t_phase k = Waiting; t_mailbox k = None; t \<notin> ran (us_flight s)\<rbrakk> \<Longrightarrow>
    ustep s (set_task t (k\<lparr>t_phase := Done (Some (query_finish (t_query k) SenderDropped env))\<rparr>) s)"
| unwind: "\<lbrakk>us_tasks s t = Some k; t_phase k = Unwinding r\<rbrakk> \<Longrightarrow>
    ustep s (set_task t (k\<lparr>t_phase := Done r\<rparr>) (s\<lparr>us_flight := guard_drop (Some (t_id k)) (us_flight s)\<rparr>))"
| recv: "\<lbrakk>us_receiving s; recv_iteration (us_flight s) r = (continue, m, out)\<rbrakk> \<Longrightarrow>
    ustep s (s\<lparr>us_flight := m, us_tasks := deliver out (us_tasks s), us_receiving := continue\<rparr>)"

inductive_cases ustepE: "ustep s s'"

inductive ureach :: "upstream_state \<Rightarrow> bool" where
  reach_init: "ureach us_init"
| reach_step: "ureach s \<Longrightarrow> ustep s s' \<Longrightarrow> ureach s'"

section \<open>The invariant\<close>

definition id_of_reply :: "bytes \<Rightarrow> u16" where
  "id_of_reply b = u16_from_be_bytes (b ! 0) (b ! 1)"

text \<open>
  A result that one of the attempts given to \<open>resolver_resolve\<close> describes; a reply among them is a whole
  header at least, and carries the ID of the task.
\<close>

definition attempt_for :: "task \<Rightarrow> attempt \<Rightarrow> (resolve_error + message) \<Rightarrow> bool" where
  "attempt_for k a res \<longleftrightarrow> attempt_result (t_query k) a = res \<and>
     (\<forall>b env. a = Waited (Received b) env \<longrightarrow> 12 \<le> length b \<and> id_of_reply b = t_id k)"

definition task_ok :: "task \<Rightarrow> bool" where
  "task_ok k \<longleftrightarrow>
     (\<forall>b. t_mailbox k = Some b \<longrightarrow> 12 \<le> length b \<and> id_of_reply b = t_id k) \<and>
     (\<forall>b. t_phase k = Allocated b \<longrightarrow> (\<exists>b0. to_bytes (t_query k) = Inr b0 \<and> b = patch_query (t_id k) b0)) \<and>
     (\<forall>res. t_phase k = Unwinding (Some res) \<or> t_phase k = Done (Some res) \<longrightarrow> (\<exists>a. attempt_for k a res))"

definition owned :: "upstream_state \<Rightarrow> bool" where
  "owned s \<longleftrightarrow> (\<forall>i t. us_flight s i = Some t \<longrightarrow>
     (\<exists>k. us_tasks s t = Some k \<and> t_id k = i \<and> t_mailbox k = None \<and> (\<forall>r. t_phase k \<noteq> Done r)))"

definition sent_ok :: "upstream_state \<Rightarrow> bool" where
  "sent_ok s \<longleftrightarrow> (\<forall>b \<in> set (us_sent s). \<exists>t k b0. us_tasks s t = Some k \<and>
     to_bytes (t_query k) = Inr b0 \<and> b = patch_query (t_id k) b0)"

definition uinv :: "upstream_state \<Rightarrow> bool" where
  "uinv s \<longleftrightarrow> owned s \<and> sent_ok s \<and> (\<forall>t k. us_tasks s t = Some k \<longrightarrow> task_ok k)"

lemma query_start_Inr:
  assumes "query_start m tx draws q = (Inr (i, b), m')"
  shows "m i = None \<and> m' = m(i \<mapsto> tx) \<and> (\<exists>b0. to_bytes q = Inr b0 \<and> b = patch_query i b0)"
  using assms
  by (cases rule: allocate_cases [of m tx draws])
     (auto simp: query_start_def to_bytes_mut_eq split: sum.splits)

lemma query_start_Inl: "query_start m tx draws q = (Inl e, m') \<Longrightarrow> m' = m"
  by (cases rule: allocate_cases [of m tx draws]) (auto simp: query_start_def split: sum.splits)

lemma uinv_task: "uinv s \<Longrightarrow> us_tasks s t = Some k \<Longrightarrow> task_ok k"
  by (simp add: uinv_def)

lemma uinv_owner:
  assumes "uinv s" "us_flight s i = Some t"
  obtains k where "us_tasks s t = Some k" "t_id k = i" "t_mailbox k = None" "\<And>r. t_phase k \<noteq> Done r"
  using assms unfolding uinv_def owned_def by blast

lemma uinv_flight:
  assumes "uinv s" "us_tasks s t = Some k" "us_flight s i = Some t"
  shows "i = t_id k \<and> t_mailbox k = None \<and> (\<forall>r. t_phase k \<noteq> Done r)"
  using uinv_owner [OF assms(1,3)] assms(2) by (metis option.inject)

lemma uinv_ran:
  assumes "uinv s" "us_tasks s t = Some k" "t \<in> ran (us_flight s)"
  shows "t_mailbox k = None \<and> (\<forall>r. t_phase k \<noteq> Done r)"
  using assms uinv_flight by (fastforce simp: ran_def)

text \<open>A step that changes one task, of which the table is told nothing.\<close>

lemma uinv_set_task:
  assumes inv: "uinv s" and k: "us_tasks s t = Some k" and k': "task_ok k'" "t_query k' = t_query k" "t_id k' = t_id k"
    and held: "t \<in> ran (us_flight s) \<Longrightarrow> t_mailbox k' = None \<and> (\<forall>r. t_phase k' \<noteq> Done r)"
  shows "uinv (set_task t k' s)"
  unfolding uinv_def
proof (intro conjI allI impI)
  show "owned (set_task t k' s)"
    unfolding owned_def
  proof (intro allI impI)
    fix i t1 assume "us_flight (set_task t k' s) i = Some t1"
    then have i: "us_flight s i = Some t1" by (simp add: set_task_def)
    then obtain k1 where k1: "us_tasks s t1 = Some k1" "t_id k1 = i" "t_mailbox k1 = None" "\<And>r. t_phase k1 \<noteq> Done r"
      using uinv_owner [OF inv] by metis
    show "\<exists>k. us_tasks (set_task t k' s) t1 = Some k \<and> t_id k = i \<and> t_mailbox k = None \<and> (\<forall>r. t_phase k \<noteq> Done r)"
    proof (cases "t1 = t")
      case True
      then have "t \<in> ran (us_flight s)" using i by (auto intro: ranI)
      with True held k k1 k'(3) show ?thesis by (simp add: set_task_def)
    qed (use k1 in \<open>simp add: set_task_def\<close>)
  qed
  show "sent_ok (set_task t k' s)"
    unfolding sent_ok_def
  proof
    fix b assume "b \<in> set (us_sent (set_task t k' s))"
    then obtain t1 k1 b0 where "us_tasks s t1 = Some k1" "to_bytes (t_query k1) = Inr b0" "b = patch_query (t_id k1) b0"
      using inv by (auto simp: uinv_def sent_ok_def set_task_def)
    with k k' show "\<exists>t1 k1 b0. us_tasks (set_task t k' s) t1 = Some k1 \<and>
        to_bytes (t_query k1) = Inr b0 \<and> b = patch_query (t_id k1) b0"
      by (cases "t1 = t") (auto simp: set_task_def)
  qed
  show "task_ok k1" if "us_tasks (set_task t k' s) t1 = Some k1" for t1 k1
    using that inv k'(1) by (auto simp: set_task_def uinv_def split: if_splits)
qed

lemma uinv_forget:
  assumes "uinv s"
  shows "uinv (s\<lparr>us_flight := (us_flight s)(i := None)\<rparr>)"
proof -
  have "owned (s\<lparr>us_flight := (us_flight s)(i := None)\<rparr>)"
    unfolding owned_def using uinv_owner [OF assms] by (metis fun_upd_apply option.distinct(1)
      upstream_state.select_convs(1,2) upstream_state.surjective upstream_state.update_convs(1))
  with assms show ?thesis by (simp add: uinv_def sent_ok_def)
qed

lemma uinv_new_task:
  assumes inv: "uinv s" and fresh: "us_tasks s t = None" and ok: "task_ok k"
    and m: "m = us_flight s \<or>
      m = (us_flight s)(t_id k \<mapsto> t) \<and> t_mailbox k = None \<and> (\<forall>r. t_phase k \<noteq> Done r)"
  shows "uinv (set_task t k (s\<lparr>us_flight := m\<rparr>))"
  unfolding uinv_def
proof (intro conjI allI impI)
  show "owned (set_task t k (s\<lparr>us_flight := m\<rparr>))"
    unfolding owned_def
  proof (intro allI impI)
    fix i t1 assume i: "us_flight (set_task t k (s\<lparr>us_flight := m\<rparr>)) i = Some t1"
    show "\<exists>k1. us_tasks (set_task t k (s\<lparr>us_flight := m\<rparr>)) t1 = Some k1 \<and> t_id k1 = i \<and>
        t_mailbox k1 = None \<and> (\<forall>r. t_phase k1 \<noteq> Done r)"
    proof (cases "us_flight s i = Some t1")
      case True
      then obtain k1 where "us_tasks s t1 = Some k1" "t_id k1 = i" "t_mailbox k1 = None" "\<And>r. t_phase k1 \<noteq> Done r"
        using uinv_owner [OF inv] by metis
      with fresh show ?thesis by (auto simp: set_task_def)
    next
      case False
      then have "t1 = t" "i = t_id k" "t_mailbox k = None" "\<forall>r. t_phase k \<noteq> Done r"
        using i m by (auto simp: set_task_def split: if_splits)
      then show ?thesis by (simp add: set_task_def)
    qed
  qed
  show "sent_ok (set_task t k (s\<lparr>us_flight := m\<rparr>))"
    unfolding sent_ok_def
  proof
    fix b assume "b \<in> set (us_sent (set_task t k (s\<lparr>us_flight := m\<rparr>)))"
    then obtain t1 k1 b0 where k1: "us_tasks s t1 = Some k1" "to_bytes (t_query k1) = Inr b0" "b = patch_query (t_id k1) b0"
      using inv by (auto simp: uinv_def sent_ok_def set_task_def)
    with fresh have "t1 \<noteq> t" by auto
    with k1 show "\<exists>t1 k1 b0. us_tasks (set_task t k (s\<lparr>us_flight := m\<rparr>)) t1 = Some k1 \<and>
        to_bytes (t_query k1) = Inr b0 \<and> b = patch_query (t_id k1) b0"
      by (auto simp: set_task_def)
  qed
  show "task_ok k1" if "us_tasks (set_task t k (s\<lparr>us_flight := m\<rparr>)) t1 = Some k1" for t1 k1
    using that inv ok by (auto simp: set_task_def uinv_def split: if_splits)
qed

lemma task_okI:
  "task_ok k \<Longrightarrow> (\<And>b. p \<noteq> Allocated b) \<Longrightarrow>
   (\<And>res. p = Unwinding (Some res) \<or> p = Done (Some res) \<Longrightarrow> \<exists>a. attempt_for k a res) \<Longrightarrow>
   task_ok (k\<lparr>t_phase := p\<rparr>)"
  by (simp add: task_ok_def attempt_for_def)

lemma attempts:
  "\<exists>a. attempt_for k a (Inl e)"
  "task_ok k \<Longrightarrow> t_mailbox k = Some b \<Longrightarrow> \<exists>a. attempt_for k a (query_finish (t_query k) (Received b) env)"
proof -
  show "\<exists>a. attempt_for k a (Inl e)" by (rule exI [of _ "Rejected e"]) (simp add: attempt_for_def)
  show "\<exists>a. attempt_for k a (query_finish (t_query k) (Received b) env)" if "task_ok k" "t_mailbox k = Some b"
    using that by (intro exI [of _ "Waited (Received b) env"]) (simp add: attempt_for_def task_ok_def)
qed

lemma uinv_phase:
  assumes "uinv s" "us_tasks s t = Some k" "\<And>b. p \<noteq> Allocated b"
    and "\<And>res. p = Unwinding (Some res) \<or> p = Done (Some res) \<Longrightarrow> \<exists>a. attempt_for k a res"
    and "\<And>r. t \<in> ran (us_flight s) \<Longrightarrow> p \<noteq> Done r"
  shows "uinv (set_task t (k\<lparr>t_phase := p\<rparr>) s)"
  by (rule uinv_set_task [OF assms(1,2) task_okI [OF uinv_task [OF assms(1,2)] assms(3,4)]])
     (use assms(5) uinv_ran [OF assms(1,2)] in auto)

lemma uinv_start:
  assumes "uinv s" "us_tasks s t = None" "query_start (us_flight s) t draws q = (Inr (i, b), m)"
  shows "uinv (set_task t \<lparr>t_query = q, t_id = i, t_phase = Allocated b, t_mailbox = None\<rparr> (s\<lparr>us_flight := m\<rparr>))"
  using query_start_Inr [OF assms(3)] by (intro uinv_new_task assms) (auto simp: task_ok_def)

lemma uinv_start_fails:
  assumes "uinv s" "us_tasks s t = None" "query_start (us_flight s) t draws q = (Inl e, m)"
  shows "uinv (set_task t \<lparr>t_query = q, t_id = 0, t_phase = Done (Some (Inl e)), t_mailbox = None\<rparr> (s\<lparr>us_flight := m\<rparr>))"
  using query_start_Inl [OF assms(3)] by (intro uinv_new_task assms) (auto simp: task_ok_def attempts)

lemma uinv_send:
  assumes "uinv s" "us_tasks s t = Some k" "t_phase k = Allocated b"
  shows "uinv (set_task t (k\<lparr>t_phase := Waiting\<rparr>) (s\<lparr>us_sent := us_sent s @ [b]\<rparr>))"
proof -
  have "uinv (s\<lparr>us_sent := us_sent s @ [b]\<rparr>)"
  proof -
    obtain b0 where "to_bytes (t_query k) = Inr b0" "b = patch_query (t_id k) b0"
      using uinv_task [OF assms(1,2)] assms(3) by (auto simp: task_ok_def)
    with assms show ?thesis by (auto simp: uinv_def owned_def sent_ok_def)
  qed
  then show ?thesis using assms(2) by (auto intro: uinv_phase)
qed

lemma uinv_unwind:
  assumes "uinv s" "us_tasks s t = Some k" "t_phase k = Unwinding r"
  shows "uinv (set_task t (k\<lparr>t_phase := Done r\<rparr>) (s\<lparr>us_flight := guard_drop (Some (t_id k)) (us_flight s)\<rparr>))"
proof -
  let ?s = "s\<lparr>us_flight := guard_drop (Some (t_id k)) (us_flight s)\<rparr>"
  have "uinv ?s" using uinv_forget [OF assms(1)] by (simp add: guard_drop_def)
  moreover have "t \<notin> ran (us_flight ?s)"
    using uinv_flight [OF assms(1,2)] by (auto simp: ran_def guard_drop_def split: if_splits)
  moreover have "\<exists>a. attempt_for k a res" if "r = Some res" for res
    using uinv_task [OF assms(1,2)] assms(3) that by (simp add: task_ok_def)
  ultimately show ?thesis using assms(2) by (auto intro: uinv_phase)
qed

lemma recv_iteration_buf:
  "recv_iteration m (Inr d) =
     (let b = take MAX_UDP_SIZE d
      in if length b < 12 then (True, m, None)
         else (case m (id_of_reply b) of
                 Some tx \<Rightarrow> (True, m(id_of_reply b := None), Some (tx, b)) | None \<Rightarrow> (True, m, None)))"
  by (simp only: recv_iteration_def id_of_reply_def Let_def sum.case take_all [OF order_refl])

lemma recv_iteration_cases:
  assumes "recv_iteration m r = (c, m', out)"
  obtains (quiet) "m' = m" "out = None"
  | (reply) t b where "m (id_of_reply b) = Some t" "m' = m(id_of_reply b := None)" "out = Some (t, b)"
      "12 \<le> length b"
proof (cases r)
  case (Inl e)
  with assms quiet show thesis by (simp add: recv_iteration_def)
next
  case (Inr d)
  define b where "b = take MAX_UDP_SIZE d"
  show thesis
    using assms quiet reply [of b] unfolding Inr recv_iteration_buf Let_def
    by (cases "m (id_of_reply b)") (simp_all add: not_less flip: b_def split: if_splits)
qed

lemma uinv_recv:
  assumes "uinv s" "recv_iteration (us_flight s) r = (c, m, out)"
  shows "uinv (s\<lparr>us_flight := m, us_tasks := deliver out (us_tasks s)\<rparr>)"
  using assms(2)
proof (cases rule: recv_iteration_cases)
  case quiet
  with assms(1) show ?thesis by (simp add: deliver_def)
next
  case (reply t b)
  then obtain k where k: "us_tasks s t = Some k" "t_id k = id_of_reply b" "t_mailbox k = None"
    using uinv_owner [OF assms(1), of "id_of_reply b" t] by blast
  let ?s = "s\<lparr>us_flight := m\<rparr>"
  have inv: "uinv ?s" using uinv_forget [OF assms(1)] reply(2) by simp
  have gone: "t \<notin> ran m"
  proof
    assume "t \<in> ran m"
    then obtain i where "m i = Some t" by (auto simp: ran_def)
    then have "us_flight s i = Some t" "i \<noteq> id_of_reply b" using reply(2) by (auto split: if_splits)
    then show False using uinv_flight [OF assms(1) k(1)] k(2) by blast
  qed
  show ?thesis
  proof (cases "t_phase k = Waiting \<or> (\<exists>d. t_phase k = Allocated d)")
    case True
    then have "deliver out (us_tasks s) = (us_tasks s)(t \<mapsto> k\<lparr>t_mailbox := Some b\<rparr>)"
      using reply k by (auto simp: deliver_def)
    moreover have "task_ok (k\<lparr>t_mailbox := Some b\<rparr>)"
      using uinv_task [OF assms(1) k(1)] reply k by (auto simp: task_ok_def attempt_for_def)
    ultimately show ?thesis
      using uinv_set_task [OF inv, of t k "k\<lparr>t_mailbox := Some b\<rparr>"] gone k by (simp add: set_task_def)
  next
    case False
    then have "deliver out (us_tasks s) = us_tasks s"
      using reply k by (auto simp: deliver_def split: phase.splits)
    with inv show ?thesis by simp
  qed
qed

lemma uinv_receiving [simp]: "uinv (s\<lparr>us_receiving := c\<rparr>) = uinv s"
  by (simp add: uinv_def owned_def sent_ok_def)

lemma uinv_step: "ustep s s' \<Longrightarrow> uinv s \<Longrightarrow> uinv s'"
proof (induction rule: ustep.induct)
  case (start s t draws q i b m)
  then show ?case by (simp add: uinv_start)
next
  case (start_fails s t draws q e m)
  then show ?case by (simp add: uinv_start_fails)
next
  case (send s t k b)
  then show ?case by (simp add: uinv_send)
next
  case (unwind s t k r)
  then show ?case by (simp add: uinv_unwind)
next
  case (recv s r continue m out)
  from uinv_recv [OF recv(3,2)] show ?case
    using uinv_receiving [where s = "s\<lparr>us_flight := m, us_tasks := deliver out (us_tasks s)\<rparr>" and c = continue] by simp
next
  case (poll_received s t k b env)
  then show ?case using uinv_ran by (intro uinv_phase attempts(2)) (auto intro: attempts(2) uinv_task)
qed (auto intro!: uinv_phase dest: uinv_ran simp: attempts query_finish_def)

lemma uinv_reach: "ureach s \<Longrightarrow> uinv s"
  by (induction rule: ureach.induct)
     (auto simp: uinv_step, simp add: uinv_def owned_def sent_ok_def us_init_def)

section \<open>After the receive loop\<close>

text \<open>No message for the task, delivered or about to be returned.\<close>

definition unanswered :: "upstream_state \<Rightarrow> nat \<Rightarrow> bool" where
  "unanswered s t \<longleftrightarrow> (\<forall>k. us_tasks s t = Some k \<longrightarrow> t_mailbox k = None \<and>
     (\<forall>msg. t_phase k \<noteq> Unwinding (Some (Inr msg)) \<and> t_phase k \<noteq> Done (Some (Inr msg))))"

lemma unanswered_step:
  "ustep s s' \<Longrightarrow> \<not> us_receiving s \<Longrightarrow> unanswered s t \<Longrightarrow> \<not> us_receiving s' \<and> unanswered s' t"
  by (induction rule: ustep.induct)
    (auto simp: unanswered_def set_task_def query_finish_def split: if_splits)

lemma unanswered_steps:
  "ustep\<^sup>*\<^sup>* s s' \<Longrightarrow> \<not> us_receiving s \<Longrightarrow> unanswered s t \<Longrightarrow> \<not> us_receiving s' \<and> unanswered s' t"
  by (induction rule: rtranclp_induct) (auto dest: unanswered_step)

section \<open>A lost query\<close>

text \<open>
  A schedule in which an unwinding task removes the entry of another query: task 0 has been sent its
  reply when it is dropped, and before its guard is dropped task 1 draws the ID that the reply has
  just freed.
\<close>

definition lost_query :: message where
  "lost_query = message_default\<lparr>header := header_default\<lparr>qd_count := 1\<rparr>,
     questions := [\<lparr>q_name = [97], qtype = RT_A, qclass = class_IN\<rparr>]\<rparr>"

definition lost_datagram :: bytes where
  "lost_datagram = [0, 5, 1, 0, 0, 1, 0, 0, 0, 0, 0, 0, 1, 97, 0, 0, 1, 0, 1]"

definition lost_task :: "phase \<Rightarrow> bytes option \<Rightarrow> task" where
  "lost_task p b = \<lparr>t_query = lost_query, t_id = 5, t_phase = p, t_mailbox = b\<rparr>"

lemma lost_start: "m 5 = None \<Longrightarrow> query_start m t (\<lambda>_. 5) lost_query = (Inr (5, lost_datagram), m(5 \<mapsto> t))"
proof -
  assume "m 5 = None"
  then have "find (\<lambda>i. m i = None) (map (\<lambda>_. 5) [0..<RANDOM_ID_ATTEMPTS]) = Some 5"
    by (simp add: RANDOM_ID_ATTEMPTS_def upt_conv_Cons)
  moreover have "to_bytes_mut lost_query = Inr [0, 0, 0, 0, 0, 1, 0, 0, 0, 0, 0, 0, 1, 97, 0, 0, 1, 0, 1]"
    by code_simp
  moreover have "patch_query 5 [0, 0, 0, 0, 0, 1, 0, 0, 0, 0, 0, 0, 1, 97, 0, 0, 1, 0, 1] = lost_datagram"
    by code_simp
  ultimately show ?thesis by (simp add: query_start_def allocate_and_insert_def)
qed


definition lost_state :: "nat in_flight \<Rightarrow> task list \<Rightarrow> nat \<Rightarrow> upstream_state" where
  "lost_state m ks n =
     \<lparr>us_flight = m, us_tasks = (\<lambda>t. if t < length ks then Some (ks ! t) else None),
      us_sent = replicate n lost_datagram, us_receiving = True\<rparr>"

lemma set_task_lost_state:
  "t < length ks \<Longrightarrow> set_task t k (lost_state m ks n) = lost_state m (ks[t := k]) n"
  "t = length ks \<Longrightarrow> set_task t k (lost_state m ks n) = lost_state m (ks @ [k]) n"
  by (auto simp: set_task_def lost_state_def fun_eq_iff nth_append less_Suc_eq)

lemma lost_state_fields [simp]:
  "us_flight (lost_state m ks n) = m" "us_sent (lost_state m ks n) = replicate n lost_datagram"
  "us_tasks (lost_state m ks n) t = (if t < length ks then Some (ks ! t) else None)"
  "(lost_state m ks n)\<lparr>us_flight := m'\<rparr> = lost_state m' ks n"
  "(lost_state m ks n)\<lparr>us_sent := replicate n lost_datagram @ [lost_datagram]\<rparr> = lost_state m ks (Suc n)"
  by (simp_all add: lost_state_def replicate_append_same)

lemma lost_state_receiving:
  "us_receiving (lost_state m ks n)" "(lost_state m ks n)\<lparr>us_receiving := True\<rparr> = lost_state m ks n"
  by (simp_all add: lost_state_def)

lemma lost_start_step:
  assumes "m 5 = None"
  shows "ustep (lost_state m ks n) (lost_state (m(5 \<mapsto> length ks)) (ks @ [lost_task (Allocated lost_datagram) None]) n)"
  using ustep.start [of "lost_state m ks n" "length ks", OF _ lost_start]
  by (simp add: assms set_task_lost_state lost_task_def)

lemma lost_send_step:
  assumes "t < length ks" "ks ! t = lost_task (Allocated lost_datagram) None"
  shows "ustep (lost_state m ks n) (lost_state m (ks[t := lost_task Waiting None]) (Suc n))"
  using ustep.send [of "lost_state m ks n" t "ks ! t" lost_datagram] assms
  by (simp add: set_task_lost_state) (simp add: lost_task_def)

lemma lost_recv_step:
  assumes "m 5 = Some t" "t < length ks" "ks ! t = lost_task Waiting None"
  shows "ustep (lost_state m ks n) (lost_state (m(5 := None)) (ks[t := lost_task Waiting (Some lost_datagram)]) n)"
proof -
  have i: "id_of_reply lost_datagram = 5" "take MAX_UDP_SIZE lost_datagram = lost_datagram" "\<not> length lost_datagram < 12"
    by (simp_all add: id_of_reply_def lost_datagram_def u16_from_be_bytes_def MAX_UDP_SIZE_def)
  then have "recv_iteration m (Inr lost_datagram) = (True, m(5 := None), Some (t, lost_datagram))"
    using assms(1) by (simp add: recv_iteration_buf)
  moreover have "lost_state (m(5 := None)) ks n \<lparr>us_tasks := deliver (Some (t, lost_datagram)) (us_tasks (lost_state m ks n))\<rparr>
      = lost_state (m(5 := None)) (ks[t := lost_task Waiting (Some lost_datagram)]) n"
    using assms by (auto simp: deliver_def lost_task_def lost_state_def fun_eq_iff nth_list_update)
  ultimately show ?thesis
    using ustep.recv [of "lost_state m ks n" "Inr lost_datagram" True "m(5 := None)"] by (simp add: lost_state_receiving)
qed

lemma lost_cancel_step:
  assumes "t < length ks" "ks ! t = lost_task Waiting b"
  shows "ustep (lost_state m ks n) (lost_state m (ks[t := lost_task (Unwinding None) b]) n)"
  using ustep.cancel [of "lost_state m ks n" t "ks ! t"] assms
  by (simp add: set_task_lost_state) (simp add: lost_task_def)

lemma lost_unwind_step:
  assumes "t < length ks" "ks ! t = lost_task (Unwinding None) b"
  shows "ustep (lost_state m ks n) (lost_state (m(5 := None)) (ks[t := lost_task (Done None) b]) n)"
  using ustep.unwind [of "lost_state m ks n" t "ks ! t" None] assms
  by (simp add: set_task_lost_state guard_drop_def) (simp add: lost_task_def)

lemma lost_reach:
  "ureach (lost_state Map.empty [lost_task (Done None) (Some lost_datagram), lost_task Waiting None] 2)"
proof -
  have "ureach (lost_state Map.empty [] 0)"
    using reach_init by (simp add: us_init_def lost_state_def)
  then have "ureach (lost_state [5 \<mapsto> 0] [lost_task (Allocated lost_datagram) None] 0)"
    using lost_start_step [of Map.empty "[]" 0] by (auto intro: reach_step)
  then have "ureach (lost_state [5 \<mapsto> 0] [lost_task Waiting None] 1)"
    using lost_send_step [of 0 "[lost_task (Allocated lost_datagram) None]" "[5 \<mapsto> 0]" 0] by (auto intro: reach_step)
  then have "ureach (lost_state Map.empty [lost_task Waiting (Some lost_datagram)] 1)"
    using lost_recv_step [of "[5 \<mapsto> 0]" 0 "[lost_task Waiting None]" 1] by (auto intro: reach_step)
  then have "ureach (lost_state Map.empty [lost_task (Unwinding None) (Some lost_datagram)] 1)"
    using lost_cancel_step [of 0 "[lost_task Waiting (Some lost_datagram)]"] by (auto intro: reach_step)
  then have "ureach (lost_state [5 \<mapsto> 1] [lost_task (Unwinding None) (Some lost_datagram), lost_task (Allocated lost_datagram) None] 1)"
    using lost_start_step [of Map.empty "[lost_task (Unwinding None) (Some lost_datagram)]" 1] by (auto intro: reach_step)
  then have "ureach (lost_state [5 \<mapsto> 1] [lost_task (Unwinding None) (Some lost_datagram), lost_task Waiting None] 2)"
    using lost_send_step [of 1 "[lost_task (Unwinding None) (Some lost_datagram), lost_task (Allocated lost_datagram) None]" "[5 \<mapsto> 1]" 1]
    by (auto intro: reach_step simp: numeral_2_eq_2)
  then show ?thesis
    using lost_unwind_step [of 0 "[lost_task (Unwinding None) (Some lost_datagram), lost_task Waiting None]" "Some lost_datagram" "[5 \<mapsto> 1]" 2]
    by (auto intro: reach_step)
qed

end
