(* ===== verification/Resolver_Props.thy ===== *)
theory Resolver_Props
  imports Upstream
begin

text \<open>Properties of the resolver and of the queries on an upstream socket.\<close>

text \<open>
  C26: an ID is allocated exactly when one is free. The ID is not in use, only its entry of the table
  changes, and it is one of the sixteen random draws whenever one of them is free; the call fails, with
  \<open>IdSpaceExhausted\<close> and the table unchanged, only when all 65536 IDs are in use.
\<close>

theorem allocate_and_insert_exact:
  "case allocate_and_insert m tx draws of
     (Inr i, m') \<Rightarrow> m i = None \<and> m' = m(i \<mapsto> tx) \<and>
       (i \<in> draws ` {..<RANDOM_ID_ATTEMPTS} \<or> (\<forall>n < RANDOM_ID_ATTEMPTS. m (draws n) \<noteq> None))
   | (Inl e, m') \<Rightarrow> e = RIdSpaceExhausted \<and> m' = m \<and> dom m = UNIV"
proof (cases "find (\<lambda>i. m i = None) (map draws [0..<RANDOM_ID_ATTEMPTS])")
  case (Some i)
  then have "m i = None" "i \<in> draws ` {..<RANDOM_ID_ATTEMPTS}" by (auto simp: find_Some_iff)
  with Some show ?thesis by (simp add: allocate_and_insert_def)
next
  case None
  then have "\<forall>n < RANDOM_ID_ATTEMPTS. m (draws n) \<noteq> None" by (auto simp: find_None_iff)
  with None show ?thesis
    using alloc_scan_Some [of m] alloc_scan_None_full [of m]
    by (auto simp: allocate_and_insert_def split: option.split)
qed

theorem allocate_and_insert_exact_witness:
  "case allocate_and_insert [7 \<mapsto> ()] () (\<lambda>n. if n < 3 then 7 else 9) of
     (Inr i, m') \<Rightarrow> i \<noteq> 7 \<and> m' = [7 \<mapsto> (), i \<mapsto> ()]
   | (Inl e, m') \<Rightarrow> False"
proof -
  have "dom [7 \<mapsto> ()] \<noteq> (UNIV :: u16 set)" by (auto simp: set_eq_iff intro: exI [of _ 8])
  then show ?thesis
    using allocate_and_insert_exact [of "[7 \<mapsto> ()]" "()" "\<lambda>n. if n < 3 then 7 else 9"]
    by (auto split: prod.splits sum.splits if_splits)
qed

lemma wf_patched:
  assumes "wf_message q"
  shows "wf_message (q\<lparr>header := (header q)\<lparr>h_id := i, h_flags := h_flags (header q) OR H_RD\<rparr>\<rparr>)"
proof -
  have "(h_flags (header q) OR H_RD) AND H_Z = 0"
    using assms by (simp add: wf_message_def wf_header_def bit.conj_disj_distrib2) (simp add: H_RD_def H_Z_def)
  with assms show ?thesis by (simp add: wf_message_def wf_header_def)
qed

text \<open>
  C27: what goes on the wire. The datagram sent upstream is the serialisation of the query with the
  allocated ID in place of its own and the RD bit set, and nothing else changed; parsing it gives that
  message back when the query is well-formed.
\<close>

theorem query_start_datagram:
  assumes "query_start m tx draws q = (Inr (i, b), m')"
  shows "to_bytes (q\<lparr>header := (header q)\<lparr>h_id := i, h_flags := h_flags (header q) OR H_RD\<rparr>\<rparr>) = Inr b \<and>
    (wf_message q \<longrightarrow>
       message_parse b = Inr (q\<lparr>header := (header q)\<lparr>h_id := i, h_flags := h_flags (header q) OR H_RD\<rparr>\<rparr>))"
proof -
  let ?q = "q\<lparr>header := (header q)\<lparr>h_id := i, h_flags := h_flags (header q) OR H_RD\<rparr>\<rparr>"
  have "to_bytes ?q = Inr b" using query_start_Inr [OF assms] patch_to_bytes by blast
  then show ?thesis
    using parse_built [of ?q _ "[]"] wf_patched [of q i] by (auto simp: to_bytes_def result_simps finish_def)
qed

theorem query_start_datagram_witness:
  "to_bytes (lost_query\<lparr>header := (header lost_query)\<lparr>h_id := 5, h_flags := 0x100\<rparr>\<rparr>) = Inr lost_datagram \<and>
   message_parse lost_datagram = Inr (lost_query\<lparr>header := (header lost_query)\<lparr>h_id := 5, h_flags := 0x100\<rparr>\<rparr>)"
proof -
  have "wf_message lost_query" "h_flags (header lost_query) OR H_RD = 0x100" by code_simp+
  then show ?thesis using query_start_datagram [OF lost_start [of Map.empty undefined]] by simp
qed

lemma attempt_answers: "attempt_for k a (Inr msg) \<Longrightarrow> answers_query (t_query k) msg"
  by (cases a) (auto simp: attempt_for_def dest: query_finish_answers)

text \<open>
  C14: in every state the queries on an upstream socket can reach, an ID in the table belongs to a
  task that holds that very ID and is still waiting for its reply; a reply that reaches a task carries
  the task's ID and a whole header; and a task that ends with a message ends with a response to its own
  query, under the query's original ID.
\<close>

theorem upstream_safety:
  assumes "ureach s"
  shows "(us_flight s i = Some t \<longrightarrow>
      (\<exists>k. us_tasks s t = Some k \<and> t_id k = i \<and> t_mailbox k = None \<and> (\<forall>r. t_phase k \<noteq> Done r))) \<and>
    (us_tasks s t = Some k \<longrightarrow>
      (\<forall>b. t_mailbox k = Some b \<longrightarrow> 12 \<le> length b \<and> u16_from_be_bytes (b ! 0) (b ! 1) = t_id k) \<and>
      (\<forall>msg. t_phase k = Done (Some (Inr msg)) \<longrightarrow>
         is_response (header msg) \<and> questions msg = questions (t_query k) \<and>
         h_id (header msg) = h_id (header (t_query k))))"
proof -
  note inv = uinv_reach [OF assms]
  have "\<exists>k. us_tasks s t = Some k \<and> t_id k = i \<and> t_mailbox k = None \<and> (\<forall>r. t_phase k \<noteq> Done r)"
    if "us_flight s i = Some t" using uinv_owner [OF inv that] by blast
  moreover have "task_ok k" if "us_tasks s t = Some k" using uinv_task [OF inv that] .
  then have "\<forall>b. t_mailbox k = Some b \<longrightarrow> 12 \<le> length b \<and> u16_from_be_bytes (b ! 0) (b ! 1) = t_id k"
    "\<forall>msg. t_phase k = Done (Some (Inr msg)) \<longrightarrow> answers_query (t_query k) msg" if "us_tasks s t = Some k"
    using that attempt_answers by (auto simp: task_ok_def id_of_reply_def)
  ultimately show ?thesis unfolding answers_query_def by blast
qed

theorem upstream_safety_witness:
  "12 \<le> length lost_datagram \<and> u16_from_be_bytes (lost_datagram ! 0) (lost_datagram ! 1) = 5"
  using upstream_safety [OF lost_reach, of 5 0 "lost_task (Done None) (Some lost_datagram)"]
  by (simp add: lost_task_def)



definition dead_state :: "upstream_state" where
  "dead_state = us_init\<lparr>us_receiving := False\<rparr>"

lemma dead_reach: "ureach dead_state"
proof -
  have "recv_iteration (us_flight us_init) (Inl (IoOther 5)) = (False, us_flight us_init, None)"
    by (simp add: recv_iteration_def)
  from reach_step [OF reach_init recv [OF _ this]] show ?thesis
    by (simp add: dead_state_def us_init_def deliver_def)
qed

lemma dead_run:
  obtains s where "ustep\<^sup>*\<^sup>* dead_state s" "us_sent s = [lost_datagram]"
    "us_tasks s 0 = Some (lost_task (Done (Some (Inl RTimeout))) None)"
proof -
  let ?u = "\<lambda>m p ds. \<lparr>us_flight = m, us_tasks = [0 \<mapsto> lost_task p None], us_sent = ds, us_receiving = False\<rparr>"
  let ?a = "?u [5 \<mapsto> 0] (Allocated lost_datagram) []" and ?w = "?u [5 \<mapsto> 0] Waiting [lost_datagram]"
  let ?x = "?u [5 \<mapsto> 0] (Unwinding (Some (Inl RTimeout))) [lost_datagram]"
  let ?d = "?u Map.empty (Done (Some (Inl RTimeout))) [lost_datagram]"
  have "query_start (us_flight dead_state) 0 (\<lambda>_. 5) lost_query = (Inr (5, lost_datagram), [5 \<mapsto> 0])"
    by (simp add: dead_state_def us_init_def lost_start)
  from ustep.start [OF _ this] have "ustep dead_state ?a"
    by (simp add: dead_state_def us_init_def set_task_def lost_task_def)
  moreover have "ustep ?a ?w"
    using send [of ?a 0 "lost_task (Allocated lost_datagram) None" lost_datagram] by (simp add: set_task_def lost_task_def)
  moreover have "ustep ?w ?x"
    using elapse [of ?w 0 "lost_task Waiting None"] by (simp add: set_task_def lost_task_def query_finish_def)
  moreover have "ustep ?x ?d"
    using unwind [of ?x 0 "lost_task (Unwinding (Some (Inl RTimeout))) None" "Some (Inl RTimeout)"]
    by (simp add: set_task_def lost_task_def guard_drop_def)
  ultimately have "ustep\<^sup>*\<^sup>* dead_state ?d" by (meson r_into_rtranclp rtranclp_trans)
  then show thesis by (rule that) simp_all
qed

definition ended :: "message \<Rightarrow> upstream_state \<times> nat \<Rightarrow> resolve_error + message \<Rightarrow> bool" where
  "ended q st res \<longleftrightarrow> ureach (fst st) \<and>
     (\<exists>k. us_tasks (fst st) (snd st) = Some k \<and> t_query k = q \<and> t_phase k = Done (Some res))"

lemma ended_attempt:
  assumes "ended q st res"
  shows "\<exists>a k. us_tasks (fst st) (snd st) = Some k \<and> t_query k = q \<and> attempt_for k a res"
proof -
  obtain k where k: "us_tasks (fst st) (snd st) = Some k" "t_query k = q" "t_phase k = Done (Some res)" "ureach (fst st)"
    using assms by (auto simp: ended_def)
  with uinv_task [OF uinv_reach [OF k(4)] k(1)] show ?thesis by (auto simp: task_ok_def)
qed

text \<open>
  C29: the two models of the resolver agree. However the queries on the upstream sockets interleave, the
  results of the calls that one \<open>resolve\<close> races are those of attempts as \<open>resolver_resolve\<close> takes them, in
  which a received reply has the ID of its call: what is proved of \<open>resolver_resolve\<close> for all attempts holds
  for every \<open>resolve\<close> on those sockets.
\<close>

theorem resolve_refines_attempts:
  assumes "list_all2 (ended q) calls results"
  shows "\<exists>attempts. resolve ups results = resolver_resolve ups attempts q \<and>
    list_all2 (\<lambda>(s, t) a. \<forall>b env. a = Waited (Received b) env \<longrightarrow>
      12 \<le> length b \<and> (\<exists>k. us_tasks s t = Some k \<and> u16_from_be_bytes (b ! 0) (b ! 1) = t_id k)) calls attempts"
proof -
  let ?at = "\<lambda>st a res. \<exists>k. us_tasks (fst st) (snd st) = Some k \<and> t_query k = q \<and> attempt_for k a res"
  have "\<exists>as. map (attempt_result q) as = results \<and> list_all2 (\<lambda>st a. \<exists>res. ?at st a res) calls as"
    using assms
  proof (induction rule: list_all2_induct)
    case (Cons st calls res results)
    obtain a where a: "?at st a res" using ended_attempt [OF Cons(1)] by blast
    obtain as where "map (attempt_result q) as = results" "list_all2 (\<lambda>st a. \<exists>res. ?at st a res) calls as"
      using Cons.IH by blast
    moreover have "attempt_result q a = res" using a by (auto simp: attempt_for_def)
    ultimately show ?case using a by (intro exI [of _ "a # as"]) auto
  qed simp
  then obtain as where as: "map (attempt_result q) as = results" "list_all2 (\<lambda>st a. \<exists>res. ?at st a res) calls as"
    by blast
  have "resolve ups results = resolver_resolve ups as q" by (simp add: resolver_resolve_def as(1))
  moreover from as(2) have "list_all2 (\<lambda>(s, t) a. \<forall>b env. a = Waited (Received b) env \<longrightarrow>
      12 \<le> length b \<and> (\<exists>k. us_tasks s t = Some k \<and> u16_from_be_bytes (b ! 0) (b ! 1) = t_id k)) calls as"
    by (rule list_all2_mono) (auto simp: attempt_for_def id_of_reply_def)
  ultimately show ?thesis by blast
qed

theorem resolve_refines_attempts_witness:
  "\<exists>s attempts. ended lost_query (s, 0) (Inl RTimeout) \<and>
     resolve (upstreams resolver_config_default) [Inl RTimeout] =
       resolver_resolve (upstreams resolver_config_default) attempts lost_query"
proof -
  obtain s where s: "ustep\<^sup>*\<^sup>* dead_state s" "us_tasks s 0 = Some (lost_task (Done (Some (Inl RTimeout))) None)"
    by (rule dead_run)
  have "ureach s" using s(1) dead_reach by (induction rule: rtranclp_induct) (auto intro: reach_step)
  with s(2) have "ended lost_query (s, 0) (Inl RTimeout)" by (simp add: ended_def lost_task_def)
  moreover from this have "list_all2 (ended lost_query) [(s, 0)] [Inl RTimeout]" by simp
  ultimately show ?thesis using resolve_refines_attempts by blast
qed



text \<open>
  C31: the race behind the comment on \<open>disarm\<close>. A task that is dropped after \<open>recv_loop\<close> has taken its
  entry, but before it has seen the reply, still removes its ID; another query may have drawn that ID
  in between. There is a reachable state in which a query has been sent and waits, although the table
  is empty, so that its reply will be ignored; and its next step is to fail with \<open>AllFailed\<close>.
\<close>

theorem upstream_guard_race:
  "\<exists>s k s'. ureach s \<and> us_tasks s 1 = Some k \<and> t_phase k = Waiting \<and> t_mailbox k = None \<and>
     length (us_sent s) = 2 \<and> us_flight s = Map.empty \<and>
     (\<forall>d. recv_iteration (us_flight s) (Inr d) = (True, us_flight s, None)) \<and>
     ustep s s' \<and> us_tasks s' 1 = Some (k\<lparr>t_phase := Done (Some (Inl RAllFailed))\<rparr>)"
proof -
  let ?s = "lost_state Map.empty [lost_task (Done None) (Some lost_datagram), lost_task Waiting None] 2"
  let ?k = "lost_task Waiting None"
  let ?s' = "set_task 1 (?k\<lparr>t_phase := Done (Some (Inl RAllFailed))\<rparr>) ?s"
  have step: "ustep ?s ?s'"
    using poll_dropped [of ?s 1 ?k] by (simp add: lost_task_def query_finish_def)
  have quiet: "recv_iteration Map.empty (Inr d) = (True, Map.empty, None)" for d
    by (simp add: recv_iteration_def Let_def)
  have "t_phase ?k = Waiting" "t_mailbox ?k = None" by (simp_all add: lost_task_def)
  then show ?thesis
    by (intro exI [of _ ?s] exI [of _ ?k] exI [of _ ?s'] conjI)
       (use lost_reach step in \<open>simp_all add: quiet set_task_lost_state\<close>)
qed

text \<open>
  racing the upstreams. Without upstreams \<open>resolve\<close> fails with \<open>NoUpstreams\<close>; otherwise it returns
  the first success in the order of completion, whatever failed before it, and \<open>AllFailed\<close> when every
  upstream fails.
\<close>

lemma resolve_first_success:
  "resolve ups results =
     (if ups = [] then Inl RNoUpstreams
      else (case find is_ok results of Some r \<Rightarrow> r | None \<Rightarrow> Inl RAllFailed))"
  by (simp add: resolve_def resolve_loop_find)

text \<open>
  C15: over UDP, over the TCP fallback and whichever upstream wins, a message that \<open>resolve\<close> returns is
  a response, repeats the question section of the query, carries the ID of the query, and its section
  counts are the lengths of its sections.
\<close>

theorem resolver_resolve_answers:
  assumes "resolver_resolve ups attempts q = Inr msg"
  shows "is_response (header msg) \<and> questions msg = questions q \<and> h_id (header msg) = h_id (header q) \<and>
    unat (qd_count (header msg)) = length (questions msg) \<and> unat (an_count (header msg)) = length (answers msg) \<and>
    unat (ns_count (header msg)) = length (authority msg) \<and> unat (ar_count (header msg)) = length (additional msg)"
  using fwd.answers [of "(ups, attempts)" q msg] fwd.counts [of "(ups, attempts)" q msg] assms
  by (simp add: answers_query_def)

definition ok_reply :: bytes where
  "ok_reply = [0, 5, 0x81, 0x80, 0, 1, 0, 0, 0, 0, 0, 0, 1, 97, 0, 0, 1, 0, 1]"

definition idle_tcp :: tcp_env where
  "idle_tcp = \<lparr>te_timeout = True, te_connect = Inr (), te_out = \<lparr>written = [], failing = None\<rparr>,
     te_in = \<lparr>incoming = [], ending = None\<rparr>\<rparr>"

definition one_upstream :: "socket_addr list" where
  "one_upstream = [\<lparr>sa_ip = V4 (Ipv4Addr 8 8 8 8), sa_port = 53\<rparr>]"

theorem resolver_resolve_answers_witness:
  "\<exists>msg. resolver_resolve one_upstream [Waited Elapsed idle_tcp, Waited (Received ok_reply) idle_tcp] lost_query = Inr msg \<and>
     is_response (header msg) \<and> h_id (header msg) = h_id (header lost_query)"
proof -
  have "is_ok (resolver_resolve one_upstream [Waited Elapsed idle_tcp, Waited (Received ok_reply) idle_tcp] lost_query)"
    by code_simp
  then obtain msg where
    "resolver_resolve one_upstream [Waited Elapsed idle_tcp, Waited (Received ok_reply) idle_tcp] lost_query = Inr msg"
    by (auto simp: is_ok_def split: sum.splits)
  with resolver_resolve_answers [OF this] show ?thesis by blast
qed

end
