(* ===== verification/Handler.thy ===== *)
theory Handler
  imports Cache_Props Resolver_Props
begin

text \<open>
  \<open>dnser-server/src/handler.rs\<close>: how one query becomes one reply, and the UDP and TCP request paths
  around it (\<open>worker.rs\<close>: \<open>handle_query\<close>, \<open>tcp.rs\<close>: \<open>handle_conn\<close>). The environment of a query fixes what
  its upstreams do (the attempts of \<open>resolve\<close>, in the order of their completion), the times at which
  the cache is asked and filled, the iteration orders its eviction meets, and the outcome of the send.
\<close>

record query_env =
  qe_upstreams :: "socket_addr list"
  qe_attempts :: "attempt list"
  qe_now :: instant
  qe_later :: instant
  qe_it :: "nat \<Rightarrow> shard \<Rightarrow> shard"
  qe_send :: "io_error + unit"

section \<open>Replies\<close>

definition MAX_UDP_PAYLOAD :: nat where "MAX_UDP_PAYLOAD = 512"

definition SERVER_UDP_PAYLOAD :: u16 where "SERVER_UDP_PAYLOAD = of_nat MAX_UDP_SIZE"

definition query_udp_limit :: "message \<Rightarrow> nat" where
  "query_udp_limit query =
     (case Option.bind (message_opt query) edns_udp_size of
        Some advertised \<Rightarrow> clamp MAX_UDP_PAYLOAD MAX_UDP_SIZE (unat advertised)
      | None \<Rightarrow> MAX_UDP_PAYLOAD)"

definition add_edns_opt :: "message \<Rightarrow> message" where
  "add_edns_opt response =
     (let additional' = filter (\<lambda>rr. \<not> is_opt rr) (additional response) @ [edns_opt SERVER_UDP_PAYLOAD]
      in response\<lparr>additional := additional',
                  header := (header response)\<lparr>ar_count := of_nat (length additional')\<rparr>\<rparr>)"

definition build_servfail :: "message \<Rightarrow> message" where
  "build_servfail query = message_default
     \<lparr>header := reply_to (header query) (ucast (rcode_val ServFail)), questions := questions query\<rparr>"

definition build_truncated :: "message \<Rightarrow> message" where
  "build_truncated query = message_default
     \<lparr>header := reply_to (header query) H_TC, questions := questions query\<rparr>"

definition build_badvers :: "message \<Rightarrow> message" where
  "build_badvers query =
     (let h = (reply_to (header query) 0)\<lparr>ar_count := 1\<rparr>;
          opt = set_edns_extended_rcode 1 (edns_opt SERVER_UDP_PAYLOAD)
      in message_default\<lparr>header := h, questions := questions query, additional := [opt]\<rparr>)"

section \<open>Processing a query\<close>

text \<open>The cached response, readdressed to the query.\<close>

definition readdress :: "message \<Rightarrow> message \<Rightarrow> message" where
  "readdress query cached =
     cached\<lparr>header := (header cached)
       \<lparr>h_id := h_id (header query),
        h_flags := (h_flags (header cached) AND NOT H_RD) OR (h_flags (header query) AND H_RD)\<rparr>\<rparr>"

definition cached_reply :: "query_env \<Rightarrow> cache \<Rightarrow> message \<Rightarrow> bool \<Rightarrow> message option" where
  "cached_reply env c query has_opt =
     (case questions query of
        [question] \<Rightarrow>
          (case cache_get c question (qe_now env) of
             Some cached \<Rightarrow>
               let cached = readdress query cached
               in Some (if has_opt then add_edns_opt cached else cached)
           | None \<Rightarrow> None)
      | _ \<Rightarrow> None)"

definition upstream_reply :: "query_env \<Rightarrow> cache \<Rightarrow> message \<Rightarrow> bool \<Rightarrow> message \<times> cache" where
  "upstream_reply env c query has_opt =
     (case resolver_resolve (qe_upstreams env) (qe_attempts env) query of
        Inr msg \<Rightarrow>
          let c = cache_insert (qe_it env) c msg (qe_later env)
          in (if has_opt then add_edns_opt msg else msg, c)
      | Inl _ \<Rightarrow> (build_servfail query, c))"

definition process_query :: "query_env \<Rightarrow> cache \<Rightarrow> message \<Rightarrow> message \<times> cache" where
  "process_query env c query =
     (let opt = message_opt query in
      if (case opt of Some rr \<Rightarrow> edns_version rr \<noteq> Some 0 | None \<Rightarrow> False) then (build_badvers query, c)
      else
        let has_opt = (opt \<noteq> None) in
        (case cached_reply env c query has_opt of
           Some cached \<Rightarrow> (cached, c)
         | None \<Rightarrow> upstream_reply env c query has_opt))"

text \<open>
  The two sides of the \<open>await\<close> in \<open>process_query\<close>: what it replies without asking the upstreams, if
  anything, and what it does once \<open>resolve\<close> has returned. Between the two, other queries use the cache.
\<close>

definition query_lookup :: "query_env \<Rightarrow> cache \<Rightarrow> message \<Rightarrow> message option" where
  "query_lookup env c query =
     (let opt = message_opt query in
      if (case opt of Some rr \<Rightarrow> edns_version rr \<noteq> Some 0 | None \<Rightarrow> False) then Some (build_badvers query)
      else cached_reply env c query (opt \<noteq> None))"

definition query_forward :: "query_env \<Rightarrow> cache \<Rightarrow> message \<Rightarrow> message \<times> cache" where
  "query_forward env c query = upstream_reply env c query (message_opt query \<noteq> None)"

lemma process_query_phases:
  "process_query env c query =
     (case query_lookup env c query of Some r \<Rightarrow> (r, c) | None \<Rightarrow> query_forward env c query)"
  by (auto simp: process_query_def query_lookup_def query_forward_def Let_def split: option.split)

section \<open>The request paths\<close>

datatype query_error = QParse parse_error | QWrite write_error | QIo io_error

text \<open>
  The end of \<open>handle_query\<close>: serialising the response and sending it, or a truncated one in its place.
  The second component is the datagram handed to \<open>send_to\<close>, if it came to that.
\<close>

definition send_response :: "(io_error + unit) \<Rightarrow> message \<Rightarrow> message \<Rightarrow> (query_error + unit) \<times> bytes option" where
  "send_response sent query response =
     (let udp_limit = query_udp_limit query in
      case to_bytes response of
        Inl e \<Rightarrow> (Inl (QWrite e), None)
      | Inr bs \<Rightarrow>
          if length bs > udp_limit
          then (case to_bytes (build_truncated query) of
                  Inl e \<Rightarrow> (Inl (QWrite e), None)
                | Inr tr \<Rightarrow> (map_err QIo sent, Some tr))
          else (map_err QIo sent, Some bs))"

definition handle_query :: "query_env \<Rightarrow> cache \<Rightarrow> bytes \<Rightarrow> (query_error + unit) \<times> bytes option \<times> cache" where
  "handle_query env c data =
     (case message_parse data of
        Inl e \<Rightarrow> (Inl (QParse e), None, c)
      | Inr query \<Rightarrow>
          (case process_query env c query of
             (response, c) \<Rightarrow>
               (case send_response (qe_send env) query response of (res, out) \<Rightarrow> (res, out, c))))"

text \<open>
  \<open>handle_conn\<close>: the loop over the frames of a connection. \<open>idle n\<close> says whether the \<open>n\<close>-th read times
  out, \<open>envs n\<close> is the environment of the \<open>n\<close>-th query.
\<close>

function handle_conn ::
    "(nat \<Rightarrow> query_env) \<Rightarrow> (nat \<Rightarrow> bool) \<Rightarrow> nat \<Rightarrow> in_stream \<Rightarrow> out_stream \<Rightarrow> cache \<Rightarrow>
     (query_error + unit) \<times> out_stream \<times> cache" where
  "handle_conn envs idle n stream out c =
     (if idle n then (Inr (), out, c)
      else
        (case read_framed stream of
           (Inl e, stream) \<Rightarrow> (Inl (QIo e), out, c)
         | (Inr None, stream) \<Rightarrow> (Inr (), out, c)
         | (Inr (Some body), stream) \<Rightarrow>
             (case message_parse body of
                Inl e \<Rightarrow> (Inl (QParse e), out, c)
              | Inr query \<Rightarrow>
                  (case process_query (envs n) c query of
                     (response, c) \<Rightarrow>
                       (case to_bytes response of
                          Inl e \<Rightarrow> (Inl (QWrite e), out, c)
                        | Inr bs \<Rightarrow>
                            (case write_framed bs out of
                               (Inl e, out) \<Rightarrow> (Inl (QIo e), out, c)
                             | (Inr _, out) \<Rightarrow> handle_conn envs idle (Suc n) stream out c))))))"
  by pat_completeness auto
termination
  by (relation "measure (\<lambda>(envs, idle, n, stream, out, c). length (incoming stream))")
     (auto dest: read_framed_progress [OF sym])

declare handle_conn.simps [simp del]

section \<open>The shape of a reply\<close>

definition counts_ok :: "message \<Rightarrow> bool" where
  "counts_ok m \<longleftrightarrow>
     qd_count (header m) = of_nat (length (questions m)) \<and> an_count (header m) = of_nat (length (answers m)) \<and>
     ns_count (header m) = of_nat (length (authority m)) \<and> ar_count (header m) = of_nat (length (additional m))"

lemma of_nat_unat_eq: "unat (w :: u16) = n \<Longrightarrow> w = of_nat n"
  by auto

lemma parsed_counts_ok: "message_parse b = Inr m \<Longrightarrow> counts_ok m"
  using message_parse_counts [of b m] by (simp add: counts_ok_def of_nat_unat_eq)

lemma resolved_counts_ok:
  "resolver_resolve ups attempts q = Inr msg \<Longrightarrow> counts_ok msg"
  using fwd.counts [of "(ups, attempts)" q msg] by (simp add: counts_ok_def of_nat_unat_eq)

lemma counts_ok_add_edns_opt: "counts_ok m \<Longrightarrow> counts_ok (add_edns_opt m)"
  by (simp add: counts_ok_def add_edns_opt_def Let_def)

lemma counts_ok_readdress: "counts_ok (readdress q m) = counts_ok m"
  by (simp add: counts_ok_def readdress_def)

lemma length_rewrite_ttls [simp]: "length (rewrite_ttls s rrs) = length rrs"
  by (simp add: rewrite_ttls_def)

lemma serve_fields [simp]:
  "header (serve e now) = header (ce_response e)" "questions (serve e now) = questions (ce_response e)"
  by (simp_all add: serve_def Let_def)

lemma counts_ok_serve: "counts_ok (serve e now) = counts_ok (ce_response e)"
  by (simp add: counts_ok_def serve_def Let_def)

lemma built_counts_ok:
  assumes "counts_ok q"
  shows "counts_ok (build_servfail q)" "counts_ok (build_truncated q)" "counts_ok (build_badvers q)"
  using assms
  by (simp_all add: counts_ok_def build_servfail_def build_truncated_def build_badvers_def message_default_def
      reply_to_def header_default_def Let_def)

end
