(* ===== verification/Handler_Props.thy ===== *)
theory Handler_Props
  imports Handler Proto_Props
begin

text \<open>
  Properties of the request path: what \<open>process_query\<close> replies in every state of the server's cache, and
  what the UDP and TCP paths send.
\<close>

section \<open>Reachable caches of the server\<close>

text \<open>
  The cache of a running server: filled with what \<open>resolve\<close> returned to some query, whichever other queries
  have used the cache since that query missed it, and swept by the reaper.
\<close>

inductive srv_reach :: "cache \<Rightarrow> bool" where
  srv_new: "srv_reach (cache_new h hs cap neg)"
| srv_insert: "srv_reach c \<Longrightarrow> iter_order it \<Longrightarrow> resolver_resolve ups attempts q = Inr msg \<Longrightarrow>
    srv_reach (cache_insert it c msg now)"
| srv_sweep: "srv_reach c \<Longrightarrow> srv_reach (cache_evict_expired c now)"

lemma srv_cache_reach: "srv_reach c \<Longrightarrow> cache_reach c"
  by (induction rule: srv_reach.induct) (auto intro: cache_reach.intros)

lemma query_forward_cache:
  obtains (same) "snd (query_forward env c q) = c"
  | (filled) msg where "resolver_resolve (qe_upstreams env) (qe_attempts env) q = Inr msg"
      "snd (query_forward env c q) = cache_insert (qe_it env) c msg (qe_later env)"
  by (cases "resolver_resolve (qe_upstreams env) (qe_attempts env) q")
    (auto simp: query_forward_def upstream_reply_def Let_def)

lemma srv_forward: "srv_reach c \<Longrightarrow> iter_order (qe_it env) \<Longrightarrow> srv_reach (snd (query_forward env c q))"
  by (cases rule: query_forward_cache [of env c q]) (auto intro: srv_insert)

lemma srv_query: "srv_reach c \<Longrightarrow> iter_order (qe_it env) \<Longrightarrow> srv_reach (snd (process_query env c q))"
  by (simp add: process_query_phases srv_forward split: option.split)

text \<open>Everything stored was a response of an upstream, with truthful counts.\<close>

lemma srv_entry:
  "srv_reach c \<Longrightarrow> cache_map c k = Some e \<Longrightarrow>
   is_response (header (ce_response e)) \<and> counts_ok (ce_response e)"
proof (induction arbitrary: k e rule: srv_reach.induct)
  case (srv_new h hs cap neg)
  then show ?case by simp
next
  case (srv_insert c it ups attempts q msg now)
  note inv = reach_inv [OF srv_cache_reach [OF srv_insert(1)]]
  have "is_response (header msg)" "counts_ok msg"
    using srv_insert(3) fwd.answers [of "(ups, attempts)" q msg] resolved_counts_ok
    by (auto simp: answers_query_def)
  then show ?case
    using rcache.put_view [OF inv srv_insert(2), of msg now k e] srv_insert(4,5)
    by (auto simp: entry_for_def)
next
  case (srv_sweep c now)
  then show ?case
    using cache_map_evict_expired [OF reach_inv [OF srv_cache_reach [OF srv_sweep(1)]]]
    by (auto split: option.splits if_splits)
qed

text \<open>All that the replies rely on, which also holds while threads are inside the operations of the cache.\<close>

definition serves_responses :: "cache \<Rightarrow> bool" where
  "serves_responses c \<longleftrightarrow> shards_ok c \<and>
     (\<forall>k e. cache_map c k = Some e \<longrightarrow> is_response (header (ce_response e)) \<and> counts_ok (ce_response e))"

lemma srv_serves: "srv_reach c \<Longrightarrow> serves_responses c"
  using srv_entry reach_inv [OF srv_cache_reach] by (auto simp: serves_responses_def cache_inv_shards_ok)

section \<open>The reply to a query\<close>

lemma readdress_bits:
  "bit (h_flags (header (readdress q m))) n \<longleftrightarrow>
     (if n = 8 then bit (h_flags (header q)) 8 else bit (h_flags (header m)) n)"
proof -
  have "bit H_RD n \<longleftrightarrow> n = 8" by (rule bit_single; simp add: flag_defs)
  moreover have "n < 16" if "bit w n" for w :: u16 using bit_imp_le_length [OF that] by simp
  ultimately show ?thesis by (simp add: readdress_def bit_or_iff bit_and_iff bit_not_iff) auto
qed

lemma readdress_response: "is_response (header (readdress q m)) = is_response (header m)"
  unfolding is_response_def flag_bit using readdress_bits [of q m 15] by simp

lemma readdress_rd: "recursion_desired (header (readdress q m)) = recursion_desired (header q)"
  unfolding recursion_desired_def flag_bit using readdress_bits [of q m 8] by simp

lemma readdress_id [simp]: "h_id (header (readdress q m)) = h_id (header q)"
  by (simp add: readdress_def)

lemma readdress_questions [simp]: "questions (readdress q m) = questions m"
  by (simp add: readdress_def)

lemma add_edns_opt_fields [simp]:
  "h_id (header (add_edns_opt m)) = h_id (header m)" "h_flags (header (add_edns_opt m)) = h_flags (header m)"
  "questions (add_edns_opt m) = questions m" "answers (add_edns_opt m) = answers m"
  "authority (add_edns_opt m) = authority m"
  "is_response (header (add_edns_opt m)) = is_response (header m)"
  "recursion_desired (header (add_edns_opt m)) = recursion_desired (header m)"
  by (simp_all add: add_edns_opt_def Let_def is_response_def recursion_desired_def)

lemma built_reply:
  "is_response (header (build_servfail q))" "is_response (header (build_truncated q))"
  "is_response (header (build_badvers q))"
  "h_id (header (build_servfail q)) = h_id (header q)" "h_id (header (build_truncated q)) = h_id (header q)"
  "h_id (header (build_badvers q)) = h_id (header q)"
  "questions (build_servfail q) = questions q" "questions (build_truncated q) = questions q"
  "questions (build_badvers q) = questions q"
proof -
  have "is_response (reply_to h x)" for h x
    unfolding is_response_def flag_bit by (simp add: reply_to_def header_default_def bit_reply_flags)
  then show "is_response (header (build_servfail q))" "is_response (header (build_truncated q))"
    "is_response (header (build_badvers q))"
    by (simp_all add: build_servfail_def build_truncated_def build_badvers_def Let_def)
      (simp add: is_response_def)
qed (simp_all add: build_servfail_def build_truncated_def build_badvers_def message_default_def reply_to_def Let_def)

text \<open>Two questions the cache does not tell apart.\<close>

definition same_question :: "question \<Rightarrow> question \<Rightarrow> bool" where
  "same_question a b \<longleftrightarrow> str_to_ascii_lowercase (q_name a) = str_to_ascii_lowercase (q_name b) \<and>
     qtype a = qtype b \<and> qclass a = qclass b"

lemma u16_from_class_inject: "u16_from_class a = u16_from_class b \<longleftrightarrow> a = b"
  by (cases a; cases b) (simp add: u16_from_class_def)

lemma same_question_key: "same_question a b \<longleftrightarrow> cache_key_from_question a = cache_key_from_question b"
  by (auto simp: same_question_def cache_key_from_question_def rt.val_inject u16_from_class_inject)

lemma cached_reply_Some:
  assumes "serves_responses c" "cached_reply env c q has_opt = Some r" "\<forall>x \<in> set (questions q). length (q_name x) \<le> MAX_NAME_LEN"
  obtains e x where "questions q = [x]" "entry_ok (max_negative_ttl c) (cache_key_from_question x) e"
    "qe_now env < expires_at e" "is_response (header (ce_response e))" "counts_ok (ce_response e)"
    "r = (if has_opt then add_edns_opt (readdress q (serve e (qe_now env))) else readdress q (serve e (qe_now env)))"
proof -
  obtain x m where x: "questions q = [x]" "cache_get c x (qe_now env) = Some m"
    "r = (if has_opt then add_edns_opt (readdress q m) else readdress q m)"
    using assms(2) by (auto simp: cached_reply_def Let_def split: list.splits option.splits)
  have len: "length (q_name x) \<le> MAX_NAME_LEN" using assms(3) x(1) by simp
  obtain e where e: "cache_map c (cache_key_from_question x) = Some e" "qe_now env < expires_at e" "m = serve e (qe_now env)"
    using x(2) by (auto simp: rcache.get_view [OF len] not_le split: option.splits if_splits)
  show thesis
    using that [OF x(1) cache_map_ok [OF _ e(1)] e(2)] assms(1) e(1) x(3) e(3) by (auto simp: serves_responses_def)
qed

lemma entry_question:
  assumes "entry_ok neg (cache_key_from_question x) e"
  obtains y where "questions (ce_response e) = [y]" "same_question y x"
  using assms by (auto simp: entry_ok_def same_question_key split: option.splits elim!: cacheable_SomeD)


lemma parsed_question_names:
  assumes "message_parse b = Inr q"
  shows "\<forall>x \<in> set (questions q). length (q_name x) \<le> MAX_NAME_LEN"
  using message_parse_elems(1) [OF assms]
  by (fastforce simp: question_parse_def result_simps Let_def dest: read_name_wf split: if_splits)

definition reply_ok :: "message \<Rightarrow> message \<Rightarrow> bool" where
  "reply_ok q r \<longleftrightarrow> is_response (header r) \<and> h_id (header r) = h_id (header q) \<and>
     list_all2 same_question (questions r) (questions q) \<and> counts_ok r"

lemma same_question_refl: "list_all2 same_question xs xs"
  by (simp add: list_all2_same same_question_def)

lemma reply_ok_add_edns_opt: "reply_ok q m \<Longrightarrow> reply_ok q (add_edns_opt m)"
  by (simp add: reply_ok_def counts_ok_add_edns_opt)

lemma reply_ok_built:
  assumes "counts_ok q"
  shows "reply_ok q (build_servfail q)" "reply_ok q (build_truncated q)" "reply_ok q (build_badvers q)"
  using assms by (simp_all add: reply_ok_def built_reply built_counts_ok same_question_refl)

lemma reply_ok_cached:
  assumes "serves_responses c" "cached_reply env c q has_opt = Some r" "\<forall>x \<in> set (questions q). length (q_name x) \<le> MAX_NAME_LEN"
  shows "reply_ok q r"
proof -
  obtain e x where e: "questions q = [x]" "entry_ok (max_negative_ttl c) (cache_key_from_question x) e"
    "is_response (header (ce_response e))" "counts_ok (ce_response e)"
    "r = (if has_opt then add_edns_opt (readdress q (serve e (qe_now env))) else readdress q (serve e (qe_now env)))"
    using cached_reply_Some [OF assms] by metis
  obtain y where "questions (ce_response e) = [y]" "same_question y x" using entry_question [OF e(2)] .
  with e have "reply_ok q (readdress q (serve e (qe_now env)))"
    by (simp add: reply_ok_def readdress_response counts_ok_readdress counts_ok_serve)
  with e(5) show ?thesis by (simp add: reply_ok_add_edns_opt)
qed

lemma reply_ok_upstream:
  assumes "counts_ok q"
  shows "reply_ok q (fst (upstream_reply env c q has_opt))"
proof (cases "resolver_resolve (qe_upstreams env) (qe_attempts env) q")
  case (Inl e)
  then show ?thesis using reply_ok_built [OF assms] by (simp add: upstream_reply_def)
next
  case (Inr msg)
  then have "reply_ok q msg"
    using fwd.answers [of "(qe_upstreams env, qe_attempts env)" q msg] resolved_counts_ok
    by (simp add: reply_ok_def answers_query_def same_question_refl)
  with Inr show ?thesis by (simp add: upstream_reply_def Let_def reply_ok_add_edns_opt)
qed

lemma query_phases_reply_ok:
  assumes "counts_ok q"
  shows "serves_responses c \<Longrightarrow> \<forall>x \<in> set (questions q). length (q_name x) \<le> MAX_NAME_LEN \<Longrightarrow>
      query_lookup env c q = Some r \<Longrightarrow> reply_ok q r"
    and "reply_ok q (fst (query_forward env c' q))"
  using reply_ok_built [OF assms] reply_ok_cached reply_ok_upstream [OF assms]
  by (auto simp: query_lookup_def query_forward_def Let_def split: if_splits)

lemma process_query_reply_ok:
  assumes "srv_reach c" "counts_ok q" "\<forall>x \<in> set (questions q). length (q_name x) \<le> MAX_NAME_LEN"
  shows "reply_ok q (fst (process_query env c q))"
  using query_phases_reply_ok [OF assms(2)] srv_serves [OF assms(1)] assms(3) by (simp add: process_query_phases split: option.split)

lemma parsed_reply_ok:
  assumes "message_parse b = Inr q"
  shows "serves_responses c \<Longrightarrow> query_lookup env c q = Some r \<Longrightarrow> reply_ok q r"
    and "reply_ok q (fst (query_forward env c' q))"
  using query_phases_reply_ok [OF parsed_counts_ok [OF assms]] parsed_question_names [OF assms] by blast+

section \<open>Sizes\<close>

lemma query_udp_limit_bounds: "512 \<le> query_udp_limit q" "query_udp_limit q \<le> 4096"
  using clamp_bounds [of MAX_UDP_PAYLOAD MAX_UDP_SIZE]
  by (auto simp: query_udp_limit_def MAX_UDP_PAYLOAD_def MAX_UDP_SIZE_def split: option.split)

lemma truncated_length:
  assumes "to_bytes (build_truncated q) = Inr b" "questions q = [] \<or> (\<exists>x. questions q = [x] \<and> length (q_name x) \<le> MAX_NAME_LEN)"
  shows "length b \<le> 512"
proof -
  let ?m = "build_truncated q"
  have fields: "questions ?m = questions q" "answers ?m = []" "authority ?m = []" "additional ?m = []"
    by (simp_all add: build_truncated_def message_default_def)
  obtain w where w: "write_section question_write (questions q) (header_write (header ?m) writer_new) = Inr w" "b = wr_buf w"
    using assms(1) by (auto simp: to_bytes_def build_writer_def result_simps fields finish_def)
  have h: "length (wr_buf (header_write (header ?m) writer_new)) = 12" by (simp add: length_header_write)
  from assms(2) show ?thesis
  proof
    assume "questions q = []"
    with w h show ?thesis by simp
  next
    assume "\<exists>x. questions q = [x] \<and> length (q_name x) \<le> MAX_NAME_LEN"
    then obtain x where x: "questions q = [x]" "length (q_name x) \<le> 253" by (auto simp: MAX_NAME_LEN_def)
    with w have "question_write x (header_write (header ?m) writer_new) = Inr w" by (auto simp: result_simps)
    from question_write_length [OF this] h x(2) w(2) show ?thesis by simp
  qed
qed

lemma send_response_Some:
  assumes "send_response sent q r = (res, Some d)"
  shows "to_bytes r = Inr d \<and> length d \<le> query_udp_limit q \<or> to_bytes (build_truncated q) = Inr d"
  using assms by (auto simp: send_response_def Let_def split: sum.splits if_splits)

section \<open>Names that cannot be written\<close>

lemma write_name_loop_empty:
  assumes "[] \<in> set ls" "\<forall>s \<in> dom (name_offsets w). length (drop offset nm) < length s" "drop offset nm = join_dots ls"
  shows "\<exists>e. write_name_loop nm offset ls w = Inl e"
  using assms
proof (induction ls arbitrary: offset w)
  case (Cons l ls)
  have free: "name_offsets w (drop offset nm) = None" using Cons.prems(2) by (metis domIff less_irrefl)
  show ?case
  proof (cases "l = [] \<or> length l > 63")
    case True
    with free show ?thesis by (auto simp: Let_def)
  next
    case False
    then have "[] \<in> set ls" using Cons.prems(1) by auto
    then have ne: "ls \<noteq> []" by auto
    then have "drop offset nm = l @ dot # join_dots ls" using Cons.prems(3) by (cases ls) simp_all
    then have nx: "drop (offset + length l + 1) nm = join_dots ls"
      by (metis (no_types, lifting) add.assoc add.commute append_eq_conv_conj drop_Suc_Cons drop_drop drop0 plus_1_eq_Suc)
    let ?w1 = "if wr_pos w \<le> 0x3FFF then w\<lparr>name_offsets := (name_offsets w)(drop offset nm \<mapsto> of_nat (wr_pos w))\<rparr> else w"
    let ?w = "write_bytes l (write_u8 (of_nat (length l)) ?w1)"
    have shorter: "length (join_dots ls) < length (drop offset nm)"
      using \<open>drop offset nm = l @ dot # join_dots ls\<close> by simp
    have "\<forall>s \<in> dom (name_offsets ?w). length (drop (offset + length l + 1) nm) < length s"
    proof
      fix s assume "s \<in> dom (name_offsets ?w)"
      then have "s = drop offset nm \<or> s \<in> dom (name_offsets w)" by (auto simp: write_defs split: if_splits)
      then have "length (drop offset nm) \<le> length s" using Cons.prems(2) by (meson less_imp_le order_refl)
      with shorter show "length (drop (offset + length l + 1) nm) < length s" unfolding nx by (rule less_le_trans)
    qed
    from Cons.IH [OF \<open>[] \<in> set ls\<close> this nx] False free show ?thesis by (simp add: Let_def)
  qed
qed simp

definition unwritable :: "bytes \<Rightarrow> bool" where
  "unwritable n \<longleftrightarrow> trim_end_dots n \<noteq> [] \<and> [] \<in> set (split_dots (trim_end_dots n))"

lemma write_name_unwritable:
  "unwritable n \<Longrightarrow> name_offsets w = Map.empty \<Longrightarrow> \<exists>e. write_name n w = Inl e"
  using write_name_loop_empty [of "split_dots (trim_end_dots n)" w 0 "trim_end_dots n"]
  by (simp add: write_name_def unwritable_def Let_def)

lemma to_bytes_unwritable:
  assumes "questions m = x # xs" "unwritable (q_name x)"
  shows "\<exists>e. to_bytes m = Inl e"
proof -
  have "name_offsets (header_write (header m) writer_new) = Map.empty"
    by (simp add: header_write_new)
  from write_name_unwritable [OF assms(2) this] assms(1) show ?thesis
    by (auto simp: to_bytes_def build_writer_def question_write_def)
qed


text \<open>Case does not matter: a name is unwritable just when its lowercased form is.\<close>

lemma lowercase_dot: "to_ascii_lowercase b = dot \<longleftrightarrow> b = dot"
proof (cases "0x41 \<le> b \<and> b \<le> 0x5A")
  case True
  have "b \<le> b OR 0x20" by (rule le_word_or2)
  with True have "0x41 \<le> b OR 0x20" "0x41 \<le> b" by (auto intro: order_trans)
  moreover have "\<not> 0x41 \<le> dot" by (simp add: dot_def)
  ultimately show ?thesis using True by (auto simp: to_ascii_lowercase_def)
qed (auto simp: to_ascii_lowercase_def)

lemma split_dots_lowercase: "split_dots (map to_ascii_lowercase s) = map (map to_ascii_lowercase) (split_dots s)"
  by (induction s) (auto simp: lowercase_dot split: list.splits)

lemma trim_end_dots_lowercase: "trim_end_dots (map to_ascii_lowercase s) = map to_ascii_lowercase (trim_end_dots s)"
  by (induction s) (auto simp: lowercase_dot split: list.splits)

lemma unwritable_lowercase: "unwritable (str_to_ascii_lowercase n) = unwritable n"
  by (auto simp: unwritable_def str_to_ascii_lowercase_def trim_end_dots_lowercase split_dots_lowercase)

lemma same_question_unwritable: "same_question a b \<Longrightarrow> unwritable (q_name a) = unwritable (q_name b)"
  by (metis same_question_def unwritable_lowercase)


section \<open>Properties\<close>

definition hx_env :: "attempt list \<Rightarrow> instant \<Rightarrow> query_env" where
  "hx_env as t = \<lparr>qe_upstreams = one_upstream, qe_attempts = as, qe_now = t, qe_later = t,
     qe_it = (\<lambda>_ s. s), qe_send = Inr ()\<rparr>"

definition hx_data :: bytes where
  "hx_data = [0, 9, 1, 0, 0, 1, 0, 0, 0, 0, 0, 0, 1, 97, 0, 0, 1, 0, 1]"

definition hx_query :: message where
  "hx_query =
     \<lparr>header = \<lparr>h_id = 9, h_flags = 0x100, qd_count = 1, an_count = 0, ns_count = 0, ar_count = 0\<rparr>,
      questions = [\<lparr>q_name = [97], qtype = RT_A, qclass = class_IN\<rparr>],
      answers = [], authority = [], additional = []\<rparr>"

lemma hx_parse: "message_parse hx_data = Inr hx_query"
  by code_simp

text \<open>
  C1: every query that parses gets a fitting reply. Whatever the upstreams do and whatever the cache
  holds, the reply of \<open>process_query\<close> is a response with the ID of the query, its question section is
  that of the query up to the case of a cached name, and its four counts are true.
\<close>

theorem process_query_replies:
  assumes "srv_reach c" "message_parse b = Inr q"
  shows "let r = fst (process_query env c q) in
    is_response (header r) \<and> h_id (header r) = h_id (header q) \<and>
    list_all2 same_question (questions r) (questions q) \<and> counts_ok r"
  using process_query_reply_ok [OF assms(1) parsed_counts_ok [OF assms(2)] parsed_question_names [OF assms(2)]]
  by (simp add: reply_ok_def Let_def)

theorem process_query_replies_witness:
  "h_id (header (fst (process_query (hx_env [] 0) ex_cache hx_query))) = 9"
proof -
  have "srv_reach ex_cache" unfolding ex_cache_def by (rule srv_new)
  from process_query_replies [OF this hx_parse, of "hx_env [] 0"] show ?thesis
    by (simp add: Let_def hx_query_def)
qed

text \<open>
  C32: EDNS. A reply to a query with an OPT record carries exactly one OPT record, advertising 4096
  bytes: with extended RCODE 1 (BADVERS) if the query's version is not 0, and with a zero TTL on a cache
  hit and on an upstream answer, whatever OPT records the upstream sent. The reply to a query that
  could not be resolved carries none.
\<close>

theorem process_query_edns:
  assumes "message_opt q = Some rr"
  shows "filter is_opt (additional (fst (process_query env c q))) =
    (if edns_version rr \<noteq> Some 0 then [set_edns_extended_rcode 1 (edns_opt 4096)]
     else if cached_reply env c q True = None \<and>
             \<not> is_ok (resolver_resolve (qe_upstreams env) (qe_attempts env) q) then []
     else [edns_opt 4096])"
proof -
  have pay: "SERVER_UDP_PAYLOAD = 4096" by (simp add: SERVER_UDP_PAYLOAD_def MAX_UDP_SIZE_def)
  have add: "filter is_opt (additional (add_edns_opt m)) = [edns_opt 4096]" for m
    by (simp add: add_edns_opt_def Let_def pay)
  have cached: "filter is_opt (additional r) = [edns_opt 4096]" if "cached_reply env c q True = Some r" for r
    using that add by (auto simp: cached_reply_def Let_def split: list.splits option.splits)
  show ?thesis
    using assms add cached
    by (auto simp: process_query_def upstream_reply_def Let_def pay build_badvers_def build_servfail_def
        message_default_def is_ok_def split: option.splits sum.splits)
qed

theorem process_query_edns_witness:
  "filter is_opt (additional (fst (process_query (hx_env [] 0) ex_cache (hx_query\<lparr>additional := [set_edns_version 1 (edns_opt 512)]\<rparr>))))
     = [set_edns_extended_rcode 1 (edns_opt 4096)]"
proof -
  let ?rr = "set_edns_version 1 (edns_opt 512)"
  have "edns_version ?rr = Some 1" by code_simp
  moreover have "message_opt (hx_query\<lparr>additional := [?rr]\<rparr>) = Some ?rr" by (simp add: message_opt_def)
  ultimately show ?thesis using process_query_edns [of "hx_query\<lparr>additional := [?rr]\<rparr>" ?rr] by simp
qed

text \<open>
  C3: the UDP size limit. A datagram sent in reply to a query with at most one question is never longer
  than the limit the client can take, which lies between 512 and 4096 bytes; it is the serialisation of
  a fitting reply, and where the full reply does not fit, of one with the TC bit set and no records.
\<close>

theorem handle_query_fits:
  assumes "srv_reach c" "message_parse data = Inr q" "length (questions q) \<le> 1"
    and "handle_query env c data = (res, Some d, c')"
  shows "length d \<le> query_udp_limit q \<and> 512 \<le> query_udp_limit q \<and> query_udp_limit q \<le> 4096 \<and>
    (\<exists>m. to_bytes m = Inr d \<and> reply_ok q m \<and>
      (m = fst (process_query env c q) \<or> m = build_truncated q))"
proof -
  have names: "questions q = [] \<or> (\<exists>x. questions q = [x] \<and> length (q_name x) \<le> MAX_NAME_LEN)"
    using assms(3) parsed_question_names [OF assms(2)] by (cases "questions q") auto
  obtain r c1 where r: "process_query env c q = (r, c1)" by fastforce
  then have ok: "reply_ok q r"
    using process_query_reply_ok [OF assms(1) parsed_counts_ok [OF assms(2)] parsed_question_names [OF assms(2)], of env]
    by simp
  from assms(4) consider "to_bytes r = Inr d" "length d \<le> query_udp_limit q"
    | "to_bytes (build_truncated q) = Inr d"
    by (auto simp: handle_query_def assms(2) r split: prod.splits dest: send_response_Some)
  then show ?thesis
  proof cases
    case 1
    with ok r query_udp_limit_bounds show ?thesis by (auto intro: exI [of _ r])
  next
    case 2
    with truncated_length [OF _ names] have "length d \<le> 512" by blast
    with 2 query_udp_limit_bounds [of q] reply_ok_built(2) [OF parsed_counts_ok [OF assms(2)]]
    show ?thesis by (auto intro: order_trans)
  qed
qed

theorem handle_query_fits_witness:
  "\<exists>d c'. handle_query (hx_env [] 0) ex_cache hx_data = (Inr (), Some d, c') \<and> length d \<le> query_udp_limit hx_query"
proof -
  have reach: "srv_reach ex_cache" unfolding ex_cache_def by (rule srv_new)
  have one: "length (questions hx_query) \<le> 1" by (simp add: hx_query_def)
  obtain res out c' where r: "handle_query (hx_env [] 0) ex_cache hx_data = (res, out, c')"
    by (metis prod.exhaust)
  have "is_ok (fst (handle_query (hx_env [] 0) ex_cache hx_data))"
    "fst (snd (handle_query (hx_env [] 0) ex_cache hx_data)) \<noteq> None"
    by code_simp+
  then obtain d where h: "handle_query (hx_env [] 0) ex_cache hx_data = (Inr (), Some d, c')"
    unfolding r by (cases res) auto
  with handle_query_fits [OF reach hx_parse one h] show ?thesis by blast
qed


lemma process_query_miss:
  assumes "message_opt q = None" "cached_reply env c q False = None"
  shows "process_query env c q = upstream_reply env c q False"
  using assms by (simp add: process_query_def Let_def)

text \<open>
  Failure. When the cache has no answer and no upstream gives one, the reply is a SERVFAIL that
  repeats the question and the RD bit, carries no records, and the cache is not touched.
\<close>

lemma process_query_servfail:
  assumes "message_opt q = None" "cached_reply env c q False = None"
    and "resolver_resolve (qe_upstreams env) (qe_attempts env) q = Inl e"
  shows "process_query env c q = (build_servfail q, c) \<and>
    header_rcode (header (build_servfail q)) = Inr ServFail \<and>
    recursion_desired (header (build_servfail q)) = recursion_desired (header q) \<and>
    questions (build_servfail q) = questions q \<and>
    answers (build_servfail q) = [] \<and> authority (build_servfail q) = [] \<and> additional (build_servfail q) = []"
proof -
  have flags: "h_flags (header (build_servfail q)) = H_QR OR 2 OR (h_flags (header q) AND H_RD)"
    by (simp add: build_servfail_def reply_to_def)
  have "(h_flags (header (build_servfail q))) AND H_RCODE = 2"
    unfolding flags by (simp add: flag_defs bit.conj_disj_distrib2 and.assoc)
  then have "header_rcode (header (build_servfail q)) = Inr ServFail"
    by (simp add: header_rcode_def rcode_try_from_def)
  moreover have "recursion_desired (header (build_servfail q)) = recursion_desired (header q)"
    unfolding recursion_desired_def flag_bit flags bit_reply_flags by simp
  moreover have "process_query env c q = (build_servfail q, c)"
    using assms by (simp add: process_query_miss upstream_reply_def)
  ultimately show ?thesis by (simp add: build_servfail_def message_default_def)
qed


lemma served_from_cache:
  assumes "srv_reach c" "iter_order (qe_it env)" "message_opt q = None" "cached_reply env c q False = None"
    and "resolver_resolve (qe_upstreams env) (qe_attempts env) q = Inr m"
    and "cacheable (max_negative_ttl c) m = Some (x, ttl)"
    and "message_parse b = Inr q2" "questions q2 = [y]" "same_question y x" "message_opt q2 = None"
    and "qe_now env2 < qe_later env + unat ttl * nanos_per_sec"
  defines "c2 \<equiv> snd (process_query env c q)"
  shows "process_query env2 c2 q2 = (readdress q2 (serve (entry_for m ttl (qe_later env)) (qe_now env2)), c2)"
proof -
  note inv = reach_inv [OF srv_cache_reach [OF assms(1)]]
  have c2: "c2 = cache_insert (qe_it env) c m (qe_later env)"
    using assms(5) unfolding c2_def process_query_miss [OF assms(3,4)] by (simp add: upstream_reply_def Let_def)
  have len: "length (q_name y) \<le> MAX_NAME_LEN" using parsed_question_names [OF assms(7)] assms(8) by simp
  have "cache_get c2 y (qe_now env2) = Some (serve (entry_for m ttl (qe_later env)) (qe_now env2))"
    unfolding c2 using rcache.get_after_put [OF inv assms(2,6) len] assms(9,11) by (simp add: same_question_key)
  then show ?thesis
    using assms(8,10) by (simp add: process_query_def cached_reply_def Let_def)
qed


definition hx_answer :: bytes where
  "hx_answer = [0, 5, 0x81, 0x80, 0, 1, 0, 1, 0, 0, 0, 1,
     1, 97, 0, 0, 1, 0, 1,
     0xC0, 12, 0, 1, 0, 1, 0, 0, 0, 60, 0, 4, 192, 0, 2, 1,
     0, 0, 41, 0x04, 0xD0, 0, 0, 0x80, 0, 0, 0]"

definition hx_response :: message where
  "hx_response =
     \<lparr>header = \<lparr>h_id = 9, h_flags = 0x8180, qd_count = 1, an_count = 1, ns_count = 0, ar_count = 1\<rparr>,
      questions = questions hx_query,
      answers = [\<lparr>rr_name = [97], rr_class = class_IN, rr_ttl = 60, rr_rdata = RD_A (Ipv4Addr 192 0 2 1)\<rparr>],
      authority = [],
      additional = [\<lparr>rr_name = [], rr_class = DnsClass 1232, rr_ttl = 0x8000, rr_rdata = RD_OPT []\<rparr>]\<rparr>"

abbreviation "hx_env1 \<equiv> hx_env [Waited (Received hx_answer) idle_tcp] 0"

abbreviation "hx_env2 \<equiv> hx_env [] 1000000000"

lemma hx_first:
  "srv_reach ex_cache" "iter_order (qe_it hx_env1)" "message_opt hx_query = None"
  "cached_reply hx_env1 ex_cache hx_query False = None"
  "resolver_resolve (qe_upstreams hx_env1) (qe_attempts hx_env1) hx_query = Inr hx_response"
  "cacheable (max_negative_ttl ex_cache) hx_response = Some (hd (questions hx_query), 60)"
  "questions hx_query = [hd (questions hx_query)]" "same_question (hd (questions hx_query)) (hd (questions hx_query))"
  "qe_now hx_env2 < qe_later hx_env1 + unat (60 :: u32) * nanos_per_sec"
proof -
  show "srv_reach ex_cache" unfolding ex_cache_def by (rule srv_new)
  show "iter_order (qe_it hx_env1)" by (simp add: hx_env_def iter_order_id)
  show "message_opt hx_query = None" "questions hx_query = [hd (questions hx_query)]"
    "same_question (hd (questions hx_query)) (hd (questions hx_query))"
    by (simp_all add: hx_query_def message_opt_def same_question_def)
  show "cached_reply hx_env1 ex_cache hx_query False = None" by code_simp
  show "resolver_resolve (qe_upstreams hx_env1) (qe_attempts hx_env1) hx_query = Inr hx_response" by code_simp
  show "cacheable (max_negative_ttl ex_cache) hx_response = Some (hd (questions hx_query), 60)" by code_simp
  show "qe_now hx_env2 < qe_later hx_env1 + unat (60 :: u32) * nanos_per_sec"
    by (simp add: hx_env_def nanos_per_sec_def)
qed

lemma hx_secs: "elapsed_secs (qe_now hx_env2) (qe_later hx_env1) = 1"
  by (simp add: hx_env_def elapsed_secs_def nanos_per_sec_def)




text \<open>
  C39: queries that stay unanswered. A label on the wire may contain dots; when the name of the first
  question so gets an empty label before its end, the query parses, but no reply to it can be
  serialised: \<open>handle_query\<close> fails with a write error and sends nothing, not even SERVFAIL.
\<close>

theorem unwritable_query_unanswered:
  assumes "srv_reach c" "message_parse data = Inr q" "questions q = x # xs" "unwritable (q_name x)"
  shows "\<exists>e c'. handle_query env c data = (Inl (QWrite e), None, c')"
proof -
  obtain r c1 where r: "process_query env c q = (r, c1)" by fastforce
  then have "list_all2 same_question (questions r) (questions q)"
    using process_query_reply_ok [OF assms(1) parsed_counts_ok [OF assms(2)] parsed_question_names [OF assms(2)], of env]
    by (simp add: reply_ok_def)
  then obtain y ys where "questions r = y # ys" "same_question y x"
    using assms(3) by (auto simp: list_all2_Cons2)
  then obtain e where "to_bytes r = Inl e"
    using to_bytes_unwritable [of r y ys] same_question_unwritable assms(4) by blast
  then show ?thesis by (simp add: handle_query_def send_response_def assms(2) r)
qed

definition hx_dots :: bytes where
  "hx_dots = [0, 9, 1, 0, 0, 1, 0, 0, 0, 0, 0, 0, 4, 97, 46, 46, 98, 0, 0, 1, 0, 1]"

theorem unwritable_query_unanswered_witness:
  "\<exists>e c'. handle_query hx_env1 ex_cache hx_dots = (Inl (QWrite e), None, c')"
proof -
  let ?x = "\<lparr>q_name = [97, 46, 46, 98], qtype = RT_A, qclass = class_IN\<rparr>"
  have p: "message_parse hx_dots = Inr (hx_query\<lparr>questions := [?x]\<rparr>)" by code_simp
  have "unwritable (q_name ?x)" by code_simp
  then show ?thesis using unwritable_query_unanswered [OF hx_first(1) p] by simp
qed

section \<open>Connections\<close>

text \<open>What a connection should do with the bodies of its frames: answer them one after the other.\<close>

fun conn_spec :: "(nat \<Rightarrow> query_env) \<Rightarrow> nat \<Rightarrow> cache \<Rightarrow> bytes list \<Rightarrow> (bytes list \<times> cache) option" where
  "conn_spec envs n c [] = Some ([], c)"
| "conn_spec envs n c (b # bs) =
     (case message_parse b of
        Inl _ \<Rightarrow> None
      | Inr q \<Rightarrow>
          (case process_query (envs n) c q of
             (r, c) \<Rightarrow>
               (case to_bytes r of
                  Inl _ \<Rightarrow> None
                | Inr d \<Rightarrow>
                    if length d > 65535 then None
                    else map_option (\<lambda>(ds, c). (d # ds, c)) (conn_spec envs (Suc n) c bs))))"

lemma handle_conn_spec:
  assumes "\<forall>n. \<not> idle n" "\<forall>b \<in> set bodies. b \<noteq> [] \<and> length b \<le> 65535" "failing out = None"
    and "conn_spec envs n c bodies = Some (ds, c')"
  shows "handle_conn envs idle n \<lparr>incoming = concat (map frame bodies), ending = None\<rparr> out c =
    (Inr (), out\<lparr>written := written out @ concat (map frame ds)\<rparr>, c')"
  using assms(2-4)
proof (induction bodies arbitrary: n out c ds)
  case Nil
  then show ?case
    by (subst handle_conn.simps) (use Nil assms(1) in \<open>auto simp: read_framed_def read_exact_def\<close>)
next
  case (Cons b bs)
  obtain q where q: "message_parse b = Inr q" using Cons.prems(3) by (auto split: sum.splits)
  obtain r c1 where r: "process_query (envs n) c q = (r, c1)" by fastforce
  from Cons.prems(3) q r obtain d ds' where d: "to_bytes r = Inr d" "length d \<le> 65535" "ds = d # ds'"
      "conn_spec envs (Suc n) c1 bs = Some (ds', c')"
    by (auto split: sum.splits if_splits)
  have rd: "read_framed \<lparr>incoming = concat (map frame (b # bs)), ending = None\<rparr> =
      (Inr (Some b), \<lparr>incoming = concat (map frame bs), ending = None\<rparr>)"
    using read_framed_frame [of b "concat (map frame bs)" None] Cons.prems(1) by simp
  have wr: "write_framed d out = (Inr (), out\<lparr>written := written out @ frame d\<rparr>)"
    by (rule write_framed_ok [OF d(2) Cons.prems(2)])
  have "handle_conn envs idle (Suc n) \<lparr>incoming = concat (map frame bs), ending = None\<rparr>
      (out\<lparr>written := written out @ frame d\<rparr>) c1 =
      (Inr (), out\<lparr>written := written out @ frame d @ concat (map frame ds')\<rparr>, c')"
    using Cons.IH [of "out\<lparr>written := written out @ frame d\<rparr>" "Suc n" c1 ds'] Cons.prems(1,2) d(4) by simp
  then show ?case
    by (subst handle_conn.simps) (simp add: assms(1) [rule_format] rd q r d(1) wr del: list.map(2) concat.simps(2), simp add: d(3))
qed

text \<open>
  C33: a TCP connection pipelines. On a connection whose frames hold parsable queries, and whose replies
  serialise, the loop of \<open>handle_conn\<close> processes the queries in order, each on the cache the one before
  left behind, writes exactly one frame per query in the same order, and ends cleanly with the stream.
\<close>

theorem handle_conn_answers_in_order:
  assumes "\<forall>n. \<not> idle n" "\<forall>b \<in> set bodies. b \<noteq> [] \<and> length b \<le> 65535" "failing out = None"
    and "conn_spec envs 0 c bodies = Some (ds, c')"
  shows "handle_conn envs idle 0 \<lparr>incoming = concat (map frame bodies), ending = None\<rparr> out c =
      (Inr (), out\<lparr>written := written out @ concat (map frame ds)\<rparr>, c') \<and> length ds = length bodies"
proof -
  have "conn_spec envs n c bs = Some (ds, c') \<Longrightarrow> length ds = length bs" for envs n c bs ds c'
    by (induction bs arbitrary: n c ds) (auto split: sum.splits prod.splits if_splits)
  with handle_conn_spec [OF assms] assms(4) show ?thesis by blast
qed

theorem handle_conn_answers_in_order_witness:
  "\<exists>ds c'. handle_conn (\<lambda>_. hx_env [] 0) (\<lambda>_. False) 0 \<lparr>incoming = frame hx_data @ frame hx_data, ending = None\<rparr>
       \<lparr>written = [], failing = None\<rparr> ex_cache = (Inr (), \<lparr>written = concat (map frame ds), failing = None\<rparr>, c') \<and>
     length ds = 2"
proof -
  let ?env = "hx_env [] 0" and ?d = "[0, 9, 0x81, 2, 0, 1, 0, 0, 0, 0, 0, 0, 1, 97, 0, 0, 1, 0, 1]"
  have "cached_reply ?env ex_cache hx_query False = None"
    "resolver_resolve (qe_upstreams ?env) (qe_attempts ?env) hx_query = Inl RAllFailed"
    by code_simp+
  then have "process_query ?env ex_cache hx_query = (build_servfail hx_query, ex_cache)"
    by (simp add: process_query_miss hx_first(3) upstream_reply_def)
  moreover have "to_bytes (build_servfail hx_query) = Inr ?d" by code_simp
  ultimately have "conn_spec (\<lambda>_. ?env) 0 ex_cache [hx_data, hx_data] = Some ([?d, ?d], ex_cache)"
    by (simp add: hx_parse)
  from handle_conn_answers_in_order [OF _ _ _ this, of "\<lambda>_. False" "\<lparr>written = [], failing = None\<rparr>"] show ?thesis
    by (intro exI [of _ "[?d, ?d]"] exI [of _ ex_cache]) (simp add: hx_data_def)
qed

end
