(* ===== verification/Testing.thy ===== *)
theory Testing
  imports Handler_Props
begin

text \<open>
  \<open>dnser-testing\<close>: the test support crate, whose mock upstreams and clients stand in for the network in
  the integration tests: query builders, typed fixtures, bytes-in bytes-out mock responders, the
  loops that serve them over UDP and TCP, and one-shot clients. \<open>None\<close> is a panic (\<open>unwrap\<close> of an
  error). A responder's task ends at its first receive error or panic; the sockets are the sequences of
  what they deliver, and the streams those of \<open>Framing\<close>.

  The properties run the resolver against these mocks, over the real wire format on both sides.
\<close>

section \<open>Query builders\<close>

definition str_bytes :: "string \<Rightarrow> bytes" where
  "str_bytes s = map of_char s"

definition make_query :: "bytes \<Rightarrow> record_type \<Rightarrow> message" where
  "make_query name ty =
     message_default
       \<lparr>header := header_default\<lparr>h_id := 1234, h_flags := H_RD, qd_count := 1\<rparr>,
        questions := [\<lparr>q_name = name, qtype = ty, qclass = class_IN\<rparr>]\<rparr>"

definition make_edns_query :: "bytes \<Rightarrow> record_type \<Rightarrow> u16 \<Rightarrow> message" where
  "make_edns_query name ty udp_size =
     (let q = make_query name ty;
          q = q\<lparr>additional := additional q @ [edns_opt udp_size]\<rparr>
      in q\<lparr>header := (header q)\<lparr>ar_count := 1\<rparr>\<rparr>)"

definition soa_record :: "bytes \<Rightarrow> u32 \<Rightarrow> u32 \<Rightarrow> resource_record" where
  "soa_record zone ttl minimum =
     \<lparr>rr_name = zone, rr_class = class_IN, rr_ttl = ttl,
      rr_rdata = RD_SOA (str_bytes ''ns1.'' @ zone) (str_bytes ''admin.'' @ zone) 1 3600 600 86400 minimum\<rparr>"

section \<open>Typed fixtures\<close>

definition fixture_question :: "bytes \<Rightarrow> record_type \<Rightarrow> question" where
  "fixture_question name ty = \<lparr>q_name = name, qtype = ty, qclass = class_IN\<rparr>"

definition a_record :: "bytes \<Rightarrow> ipv4_addr \<Rightarrow> u32 \<Rightarrow> resource_record" where
  "a_record name ip ttl = \<lparr>rr_name = name, rr_class = class_IN, rr_ttl = ttl, rr_rdata = RD_A ip\<rparr>"

definition fixture_noerror :: "question \<Rightarrow> resource_record list \<Rightarrow> message" where
  "fixture_noerror q ans =
     message_default
       \<lparr>header := header_default\<lparr>h_id := 1, h_flags := H_QR OR H_RD OR H_RA, qd_count := 1,
                                an_count := of_nat (length ans)\<rparr>,
        questions := [q], answers := ans\<rparr>"

definition fixture_servfail :: "question \<Rightarrow> message" where
  "fixture_servfail q =
     message_default
       \<lparr>header := header_default\<lparr>h_id := 1, h_flags := H_QR OR ucast (rcode_val ServFail), qd_count := 1\<rparr>,
        questions := [q]\<rparr>"

definition fixture_truncated :: "question \<Rightarrow> resource_record list \<Rightarrow> message" where
  "fixture_truncated q ans =
     message_default
       \<lparr>header := header_default\<lparr>h_id := 1, h_flags := H_QR OR H_TC OR H_RD, qd_count := 1,
                                an_count := of_nat (length ans)\<rparr>,
        questions := [q], answers := ans\<rparr>"

definition fixture_nxdomain :: "question \<Rightarrow> resource_record \<Rightarrow> message" where
  "fixture_nxdomain q soa =
     message_default
       \<lparr>header := header_default\<lparr>h_id := 1, h_flags := H_QR OR ucast (rcode_val NXDomain), qd_count := 1,
                                ns_count := 1\<rparr>,
        questions := [q], authority := [soa]\<rparr>"

definition fixture_nodata :: "question \<Rightarrow> resource_record \<Rightarrow> message" where
  "fixture_nodata q soa =
     message_default
       \<lparr>header := header_default\<lparr>h_id := 1, h_flags := H_QR OR H_RA, qd_count := 1, ns_count := 1\<rparr>,
        questions := [q], authority := [soa]\<rparr>"

section \<open>Mock upstreams\<close>

definition unwrap :: "'e + 'a \<Rightarrow> 'a option" where
  "unwrap m = (case m of Inl _ \<Rightarrow> None | Inr x \<Rightarrow> Some x)"

type_synonym responder = "bytes \<Rightarrow> bytes option"

definition mock_echo :: responder where
  "mock_echo query_bytes =
     Option.bind (unwrap (message_try_from query_bytes)) (\<lambda>query.
     unwrap (to_bytes (message_default
       \<lparr>header := reply_to (header query) H_RA, questions := questions query\<rparr>)))"

definition mock_truncated :: responder where
  "mock_truncated query_bytes =
     Option.bind (unwrap (message_try_from query_bytes)) (\<lambda>query.
     unwrap (to_bytes (message_default
       \<lparr>header := reply_to (header query) H_TC, questions := questions query\<rparr>)))"

definition mock_zone :: "message \<Rightarrow> bytes" where
  "mock_zone query = (case questions query of q # _ \<Rightarrow> q_name q | [] \<Rightarrow> str_bytes ''example.com'')"

definition mock_nxdomain :: responder where
  "mock_nxdomain query_bytes =
     Option.bind (unwrap (message_try_from query_bytes)) (\<lambda>query.
     let zone = mock_zone query;
         h = (reply_to (header query) (H_RA OR ucast (rcode_val NXDomain)))\<lparr>ns_count := 1\<rparr>
     in unwrap (to_bytes (message_default
          \<lparr>header := h, questions := questions query, authority := [soa_record zone 60 60]\<rparr>)))"

definition mock_nodata :: responder where
  "mock_nodata query_bytes =
     Option.bind (unwrap (message_try_from query_bytes)) (\<lambda>query.
     let zone = mock_zone query;
         h = (reply_to (header query) H_RA)\<lparr>ns_count := 1\<rparr>
     in unwrap (to_bytes (message_default
          \<lparr>header := h, questions := questions query, authority := [soa_record zone 60 60]\<rparr>)))"

text \<open>The answers of \<open>many_a_records(n)\<close>: 10.0.0.0, 10.0.0.1, and so on, \<open>n\<close> of them.\<close>

definition many_answers :: "u8 \<Rightarrow> bytes \<Rightarrow> resource_record list" where
  "many_answers n name =
     map (\<lambda>i. \<lparr>rr_name = name, rr_class = class_IN, rr_ttl = 300,
               rr_rdata = RD_A (Ipv4Addr 10 0 0 (of_nat i))\<rparr>) [0..<unat n]"

definition many_a_records :: "u8 \<Rightarrow> responder" where
  "many_a_records n query_bytes =
     Option.bind (unwrap (message_try_from query_bytes)) (\<lambda>query.
     let name = (case questions query of q # _ \<Rightarrow> q_name q | [] \<Rightarrow> []);
         ans = many_answers n name;
         h = (reply_to (header query) H_RA)\<lparr>an_count := of_nat (length ans)\<rparr>
     in unwrap (to_bytes (message_default\<lparr>header := h, questions := questions query, answers := ans\<rparr>)))"

section \<open>Responder loops\<close>

text \<open>What the task of \<open>spawn_udp_responder\<close> sends, given what its socket receives.\<close>

fun udp_responder :: "responder \<Rightarrow> (io_error + bytes \<times> 'peer) list \<Rightarrow> (bytes \<times> 'peer) list" where
  "udp_responder respond (Inr (datagram, peer) # rest) =
     (case respond (take 4096 datagram) of
        None \<Rightarrow> []
      | Some resp \<Rightarrow> (if resp \<noteq> [] then [(resp, peer)] else []) @ udp_responder respond rest)"
| "udp_responder respond _ = []"

text \<open>\<open>spawn_udp_responder_counted\<close>: also the final value of the counter.\<close>

fun udp_responder_counted ::
    "responder \<Rightarrow> (io_error + bytes \<times> 'peer) list \<Rightarrow> nat \<Rightarrow> (bytes \<times> 'peer) list \<times> nat" where
  "udp_responder_counted respond (Inr (datagram, peer) # rest) n =
     (case respond (take 4096 datagram) of
        None \<Rightarrow> ([], Suc n)
      | Some resp \<Rightarrow>
          let (sent, n') = udp_responder_counted respond rest (Suc n)
          in ((if resp \<noteq> [] then [(resp, peer)] else []) @ sent, n'))"
| "udp_responder_counted respond _ n = ([], n)"

text \<open>One connection of \<open>spawn_tcp_responder\<close>.\<close>

function tcp_responder :: "responder \<Rightarrow> in_stream \<Rightarrow> out_stream \<Rightarrow> out_stream" where
  "tcp_responder respond stream out =
     (case read_framed stream of
        (Inr (Some body), stream) \<Rightarrow>
          (case respond body of
             None \<Rightarrow> out
           | Some resp \<Rightarrow>
               (case write_framed resp out of
                  (Inl _, out) \<Rightarrow> out
                | (Inr _, out) \<Rightarrow> tcp_responder respond stream out))
      | _ \<Rightarrow> out)"
  by pat_completeness auto
termination
  by (relation "measure (\<lambda>(respond, stream, out). length (incoming stream))")
     (auto dest: read_framed_progress [OF sym])

declare tcp_responder.simps [simp del]

text \<open>\<open>spawn_dual_responder\<close>: the two responders behind one address.\<close>

definition dual_responder ::
    "responder \<Rightarrow> responder \<Rightarrow> ((io_error + bytes \<times> 'peer) list \<Rightarrow> (bytes \<times> 'peer) list) \<times>
       (in_stream \<Rightarrow> out_stream \<Rightarrow> out_stream)" where
  "dual_responder udp_respond tcp_respond = (udp_responder udp_respond, tcp_responder tcp_respond)"

section \<open>One-shot clients\<close>

text \<open>\<open>udp_query\<close>: the datagram it sends, and what becomes of the one it receives.\<close>

definition client_udp_query :: "message \<Rightarrow> (bytes \<Rightarrow> bytes option) \<Rightarrow> message option" where
  "client_udp_query query srv =
     Option.bind (unwrap (to_bytes query)) (\<lambda>sent.
     Option.bind (srv sent) (\<lambda>reply.
     unwrap (message_try_from (take 4096 reply))))"

text \<open>\<open>tcp_query\<close>: \<open>srv\<close> gives what the connection delivers once it has received the query.\<close>

definition client_tcp_query :: "message \<Rightarrow> (bytes \<Rightarrow> in_stream) \<Rightarrow> message option" where
  "client_tcp_query query srv =
     Option.bind (unwrap (to_bytes query)) (\<lambda>bs.
     case write_framed bs \<lparr>written = [], failing = None\<rparr> of
       (Inl _, _) \<Rightarrow> None
     | (Inr _, out) \<Rightarrow>
         (case read_framed (srv (written out)) of
            (Inr (Some body), _) \<Rightarrow> unwrap (message_parse body)
          | _ \<Rightarrow> None))"

section \<open>What the mocks answer\<close>

lemma unwrap_simps [simp]: "unwrap (Inr x) = Some x" "unwrap (Inl e) = None"
  by (simp_all add: unwrap_def)

lemma wf_serialises:
  assumes "wf_message m"
  obtains b where "to_bytes m = Inr b" "message_parse b = Inr m"
proof -
  obtain w where "build_writer m = Inr w" using build_writer_ok [OF assms] by blast
  with parse_built [OF assms this, of "[]"] show thesis
    by (intro that [of "wr_buf w"]) (simp_all add: to_bytes_def finish_def)
qed

text \<open>The reply every mock builds: the query's questions under a reply header, and some records.\<close>

definition mock_reply :: "message \<Rightarrow> u16 \<Rightarrow> resource_record list \<Rightarrow> resource_record list \<Rightarrow> message" where
  "mock_reply q x an ns =
     \<lparr>header = (reply_to (header q) x)\<lparr>an_count := of_nat (length an), ns_count := of_nat (length ns)\<rparr>,
      questions = questions q, answers = an, authority = ns, additional = []\<rparr>"

lemma reply_flags_Z: "x AND H_Z = 0 \<Longrightarrow> (H_QR OR x OR (f AND H_RD)) AND H_Z = 0"
  by (simp add: flag_bit bit_reply_flags)

lemma wf_mock_reply:
  assumes "wf_message q" "x AND H_Z = 0" "length an < 65536" "length ns < 65536" "\<forall>r \<in> set (an @ ns). wf_rr r"
  shows "wf_message (mock_reply q x an ns)"
  using assms by (auto simp: wf_message_def wf_header_def mock_reply_def reply_flags_Z unat_of_nat_u16)

lemma mock_reply_flags:
  "is_response (header (mock_reply q x an ns))"
  "is_truncated (header (mock_reply q x an ns)) \<longleftrightarrow> bit x 9"
  by (simp_all add: mock_reply_def flag_bits bit_reply_flags) (simp add: H_QR_def)

lemma mock_replies:
  assumes "message_parse b = Inr q"
  shows "mock_echo b = unwrap (to_bytes (mock_reply q H_RA [] []))"
    "mock_truncated b = unwrap (to_bytes (mock_reply q H_TC [] []))"
    "mock_nxdomain b = unwrap (to_bytes (mock_reply q (H_RA OR 3) [] [soa_record (mock_zone q) 60 60]))"
    "mock_nodata b = unwrap (to_bytes (mock_reply q H_RA [] [soa_record (mock_zone q) 60 60]))"
    "questions q = [x] \<Longrightarrow> many_a_records n b =
       unwrap (to_bytes (mock_reply q H_RA (many_answers n (q_name x)) []))"
  using assms
  by (simp_all add: mock_echo_def mock_truncated_def mock_nxdomain_def mock_nodata_def many_a_records_def
      message_try_from_def mock_reply_def message_default_def Let_def reply_to_def header_default_def
      rcode_val.simps)

lemma wf_many_answers: "wf_name name \<Longrightarrow> r \<in> set (many_answers n name) \<Longrightarrow> wf_rr r"
  by (auto simp: many_answers_def wf_rr_def)

lemma length_many_answers [simp]: "length (many_answers n name) = unat n"
  by (simp add: many_answers_def)

section \<open>Sizes\<close>

lemma rr_write_A_length:
  assumes "rr_write rr w = Inr w'" "rr_rdata rr = RD_A ip"
  shows "length (wr_buf w') \<le> length (wr_buf w) + length (rr_name rr) + 16"
  using assms
  by (cases ip) (auto simp: rr_write_def rr_record_type_def result_simps write_u16_def write_u32_def reserve_u16_def backfill_u16_def
      write_bytes_def Let_def split: prod.splits dest!: write_name_length)

lemma write_A_section_length:
  assumes "write_section rr_write rrs w = Inr w'" "\<forall>r \<in> set rrs. (\<exists>ip. rr_rdata r = RD_A ip) \<and> length (rr_name r) \<le> 253"
  shows "length (wr_buf w') \<le> length (wr_buf w) + 269 * length rrs"
  using assms
proof (induction rrs arbitrary: w)
  case (Cons r rrs)
  then obtain w1 where w1: "rr_write r w = Inr w1" "write_section rr_write rrs w1 = Inr w'"
    by (auto simp: result_simps)
  then have "length (wr_buf w1) \<le> length (wr_buf w) + 269"
    using Cons.prems(2) rr_write_A_length [OF w1(1)] by fastforce
  moreover have "length (wr_buf w') \<le> length (wr_buf w1) + 269 * length rrs"
    using Cons w1(2) by simp
  ultimately show ?case by simp
qed simp

lemma mock_reply_length:
  assumes "to_bytes (mock_reply q x an []) = Inr b" "questions q = [qn]" "length (q_name qn) \<le> 253"
    and "\<forall>r \<in> set an. (\<exists>ip. rr_rdata r = RD_A ip) \<and> length (rr_name r) \<le> 253"
  shows "length b \<le> 271 + 269 * length an"
proof -
  let ?h = "header_write (header (mock_reply q x an [])) writer_new"
  obtain w1 w2 where w: "question_write qn ?h = Inr w1" "write_section rr_write an w1 = Inr w2" "b = wr_buf w2"
    using assms(1,2) by (auto simp: to_bytes_def build_writer_def result_simps finish_def mock_reply_def)
  have "length (wr_buf ?h) = 12" by (simp add: length_header_write)
  then show ?thesis
    using question_write_length [OF w(1)] write_A_section_length [OF w(2) assms(4)] assms(3) w(3) by simp
qed

lemma to_bytes_id:
  assumes "to_bytes m = Inr b"
  shows "12 \<le> length b" "u16_from_be_bytes (b ! 0) (b ! 1) = h_id (header m)"
proof -
  obtain body where b: "b = header_bytes (header m) @ body" using to_bytes_header [OF assms] by metis
  then show "12 \<le> length b" by simp
  show "u16_from_be_bytes (b ! 0) (b ! 1) = h_id (header m)"
    by (simp add: b header_bytes_def header_write_buf u16_to_be_bytes_def be_simps)
qed

section \<open>The resolver against the mocks\<close>

text \<open>
  What can be read from a connection with a responder once a request has been written to it.
\<close>

definition tcp_replies :: "(in_stream \<Rightarrow> out_stream \<Rightarrow> out_stream) \<Rightarrow> bytes \<Rightarrow> in_stream" where
  "tcp_replies conn request =
     \<lparr>incoming = written (conn \<lparr>incoming = request, ending = None\<rparr> \<lparr>written = [], failing = None\<rparr>),
      ending = None\<rparr>"

lemma tcp_replies_one:
  assumes "respond bs = Some r" "bs \<noteq> []" "length bs \<le> 65535" "length r \<le> 65535"
  shows "tcp_replies (tcp_responder respond) (frame bs) = \<lparr>incoming = frame r, ending = None\<rparr>"
proof -
  have rd: "read_framed \<lparr>incoming = frame bs, ending = None\<rparr> = (Inr (Some bs), \<lparr>incoming = [], ending = None\<rparr>)"
    using read_framed_frame [OF assms(2,3), of "[]" None] by simp
  have "read_framed \<lparr>incoming = [], ending = None\<rparr> = (Inr None, \<lparr>incoming = [], ending = None\<rparr>)"
    by (simp add: read_framed_def read_exact_def)
  then have stop: "tcp_responder respond \<lparr>incoming = [], ending = None\<rparr> out = out" for out
    by (subst tcp_responder.simps) simp
  show ?thesis
    unfolding tcp_replies_def
    by (subst tcp_responder.simps) (simp add: rd assms write_framed_ok stop)
qed

text \<open>The UDP half of the fallback: the truncated reply reaches the query that asked.\<close>

lemma truncated_mock_delivered:
  assumes wf: "wf_message q" and qn: "questions q = [qn]"
    and start: "query_start m tx draws q = (Inr (i, d), m')" and d: "length d \<le> 4096"
  obtains r where "udp_responder mock_truncated [Inr (d, peer)] = [(r, peer)]"
    "recv_iteration m' (Inr r) = (True, m'(i := None), Some (tx, r))"
    "\<forall>env. query_finish q (Received r) env = tcp_query q env"
proof -
  let ?q = "q\<lparr>header := (header q)\<lparr>h_id := i, h_flags := h_flags (header q) OR H_RD\<rparr>\<rparr>"
  let ?r = "mock_reply ?q H_TC [] []"
  have m': "m' = m(i \<mapsto> tx)" and d': "to_bytes ?q = Inr d"
    using query_start_Inr [OF start] patch_to_bytes by blast+
  note wf' = wf_patched [OF wf, of i]
  obtain d2 where "to_bytes ?q = Inr d2" "message_parse d2 = Inr ?q" by (rule wf_serialises [OF wf'])
  with d' have p: "message_parse d = Inr ?q" by simp
  have "wf_message ?r" by (rule wf_mock_reply [OF wf']) (simp_all add: H_TC_def H_Z_def)
  then obtain r where r: "to_bytes ?r = Inr r" "message_parse r = Inr ?r" by (rule wf_serialises)
  have len: "length (q_name qn) \<le> 253"
    using wf qn by (simp add: wf_message_def wf_question_def wf_name_def MAX_NAME_LEN_def)
  then have rl: "length r \<le> 271" using mock_reply_length [OF r(1)] qn by simp
  have hdr: "12 \<le> length r" "u16_from_be_bytes (r ! 0) (r ! 1) = i"
    using to_bytes_id [OF r(1)] by (simp_all add: mock_reply_def)
  have "mock_truncated d = Some r" using mock_replies(2) [OF p] r(1) by simp
  moreover have "r \<noteq> []" using hdr(1) by auto
  ultimately have "udp_responder mock_truncated [Inr (d, peer)] = [(r, peer)]" using d by simp
  moreover have "recv_iteration m' (Inr r) = (True, m'(i := None), Some (tx, r))"
    using hdr rl m' by (simp add: recv_iteration_def Let_def MAX_UDP_SIZE_def)
  moreover have "query_finish q (Received r) env = tcp_query q env" for env
  proof -
    have "bit H_TC 9" by (simp add: H_TC_def)
    then have "parse_validated_response r q (h_id (header q)) =
        Inr (?r\<lparr>header := (header ?r)\<lparr>h_id := h_id (header q)\<rparr>\<rparr>)"
      using mock_reply_flags(1) [of ?q H_TC "[]" "[]"] r(2)
      by (simp add: parse_validated_response_def) (simp add: mock_reply_def)
    moreover have "is_truncated ((header ?r)\<lparr>h_id := h_id (header q)\<rparr>)"
      using mock_reply_flags(2) [of ?q H_TC "[]" "[]"] \<open>bit H_TC 9\<close> by (simp add: is_truncated_def)
    ultimately show ?thesis by (simp add: query_finish_def)
  qed
  ultimately show thesis using that by blast
qed

text \<open>The TCP half: the whole answer comes back.\<close>

lemma many_mock_over_tcp:
  assumes wf: "wf_message q" and qn: "questions q = [qn]" and bs: "to_bytes q = Inr bs" "length bs \<le> 65535"
    and n: "unat n \<le> 240"
    and env: "\<not> te_timeout env" "te_connect env = Inr ()" "failing (te_out env) = None"
      "te_in env = tcp_replies (tcp_responder (many_a_records n)) (frame bs)"
  shows "tcp_query q env = Inr (mock_reply q H_RA (many_answers n (q_name qn)) [])"
proof -
  let ?an = "many_answers n (q_name qn)" and ?r = "mock_reply q H_RA (many_answers n (q_name qn)) []"
  have name: "wf_name (q_name qn)" using wf qn by (simp add: wf_message_def wf_question_def)
  then have len: "length (q_name qn) \<le> 253" by (simp add: wf_name_def MAX_NAME_LEN_def)
  have p: "message_parse bs = Inr q" using wf_serialises [OF wf] bs(1) by (metis sum.inject(2))
  have "wf_message ?r"
    using wf_many_answers [OF name] n by (intro wf_mock_reply wf) (auto simp: H_RA_def H_Z_def)
  then obtain r where r: "to_bytes ?r = Inr r" "message_parse r = Inr ?r" by (rule wf_serialises)
  have "length r \<le> 271 + 269 * unat n"
    using mock_reply_length [OF r(1) qn len] len by (auto simp: many_answers_def)
  then have rl: "length r \<le> 65535" using n by simp
  have ne: "bs \<noteq> []" "r \<noteq> []" using to_bytes_id(1) [OF bs(1)] to_bytes_id(1) [OF r(1)] by auto
  have "many_a_records n bs = Some r" using mock_replies(5) [OF p qn] r(1) by simp
  then have "te_in env = \<lparr>incoming = frame r, ending = None\<rparr>"
    using env(4) tcp_replies_one ne(1) bs(2) rl by simp
  then have "fst (read_framed (te_in env)) = Inr (Some r)"
    using read_framed_frame [OF ne(2) rl, of "[]" None] by simp
  moreover have "parse_validated_response r q (h_id (header q)) = Inr ?r"
    using mock_reply_flags(1) [of q H_RA ?an "[]"] r(2)
    by (simp add: parse_validated_response_def) (simp add: mock_reply_def)
  ultimately show ?thesis
    using env bs by (simp add: tcp_query_def tcp_exchange_def write_framed_ok)
qed

definition tx_query :: message where
  "tx_query = make_query (str_bytes ''example.com'') RT_A"

lemma tx_query_ok:
  "wf_message tx_query" "questions tx_query = [fixture_question (str_bytes ''example.com'') RT_A]"
  "(case to_bytes tx_query of Inr b \<Rightarrow> length b = 29 | _ \<Rightarrow> False)"
  by code_simp+

text \<open>
  C16: TCP fallback, end to end over the wire format. A well-formed query with one question is sent over
  UDP to an upstream that answers every datagram with TC set, and the same upstream serves up to 240 A
  records over TCP. The truncated reply is delivered to the query by its ID, and the query ends with the
  complete response of the TCP exchange: all the answers, in order, under the client's ID and question.
\<close>

theorem dual_fallback_resolves:
  assumes "wf_message q" "questions q = [qn]" "to_bytes q = Inr bs" "length bs \<le> 4096" "unat n \<le> 240"
    and "query_start m tx draws q = (Inr (i, d), m')"
    and "dual_responder mock_truncated (many_a_records n) = (udp, tcp)"
  shows "\<exists>r. udp [Inr (d, peer)] = [(r, peer)] \<and>
    recv_iteration m' (Inr r) = (True, m, Some (tx, r)) \<and>
    query_finish q (Received r)
      \<lparr>te_timeout = False, te_connect = Inr (), te_out = \<lparr>written = [], failing = None\<rparr>,
       te_in = tcp_replies tcp (frame bs)\<rparr> =
      Inr \<lparr>header = (reply_to (header q) H_RA)\<lparr>an_count := of_nat (unat n)\<rparr>, questions = [qn],
           answers = map (\<lambda>k. a_record (q_name qn) (Ipv4Addr 10 0 0 (of_nat k)) 300) [0..<unat n],
           authority = [], additional = []\<rparr>"
proof -
  have ds: "udp = udp_responder mock_truncated" "tcp = tcp_responder (many_a_records n)"
    using assms(7) by (simp_all add: dual_responder_def)
  have start: "m i = None" "m' = m(i \<mapsto> tx)" "d = patch_query i bs"
    using query_start_Inr [OF assms(6)] assms(3) by auto
  have dl: "length d \<le> 4096" using to_bytes_id(1) [OF assms(3)] assms(4) start(3) by (simp add: patch_query_def Let_def)
  obtain r where r: "udp_responder mock_truncated [Inr (d, peer)] = [(r, peer)]"
      "recv_iteration m' (Inr r) = (True, m'(i := None), Some (tx, r))"
      "\<forall>env. query_finish q (Received r) env = tcp_query q env"
    by (rule truncated_mock_delivered [OF assms(1,2,6) dl, of peer])
  have "m'(i := None) = m" using start by (simp add: fun_upd_idem)
  then have delivered: "recv_iteration m' (Inr r) = (True, m, Some (tx, r))" using r(2) by metis
  have reply: "mock_reply q H_RA (many_answers n (q_name qn)) [] =
      \<lparr>header = (reply_to (header q) H_RA)\<lparr>an_count := of_nat (unat n)\<rparr>, questions = [qn],
       answers = map (\<lambda>k. a_record (q_name qn) (Ipv4Addr 10 0 0 (of_nat k)) 300) [0..<unat n],
       authority = [], additional = []\<rparr>"
    using assms(2) by (simp add: mock_reply_def many_answers_def a_record_def reply_to_def header_default_def)
  have "length bs \<le> 65535" using assms(4) by simp
  note whole = many_mock_over_tcp [OF assms(1,2,3) this assms(5)]
  show ?thesis
  proof (intro exI [of _ r] conjI)
    show "udp [Inr (d, peer)] = [(r, peer)]" using r(1) ds(1) by simp
    show "recv_iteration m' (Inr r) = (True, m, Some (tx, r))" by (rule delivered)
  qed (unfold r(3) [rule_format] reply [symmetric] ds(2), rule whole, simp_all)
qed

theorem dual_fallback_resolves_witness:
  "\<exists>r bs env. to_bytes tx_query = Inr bs \<and>
     udp_responder mock_truncated [Inr (patch_query 7 bs, ())] = [(r, ())] \<and>
     (\<exists>msg. query_finish tx_query (Received r) env = Inr msg \<and> length (answers msg) = 3)"
proof -
  obtain bs where bs: "to_bytes tx_query = Inr bs" "length bs = 29"
    using tx_query_ok(3) by (auto split: sum.splits)
  have "RANDOM_ID_ATTEMPTS = Suc 15" by (simp add: RANDOM_ID_ATTEMPTS_def)
  then have start: "query_start Map.empty () (\<lambda>_. 7) tx_query = (Inr (7, patch_query 7 bs), [7 \<mapsto> ()])"
    using bs(1) by (simp add: query_start_def to_bytes_mut_eq allocate_and_insert_def upt_conv_Cons)
  have dual: "dual_responder mock_truncated (many_a_records 3) =
      (udp_responder mock_truncated, tcp_responder (many_a_records 3))" by (simp add: dual_responder_def)
  have "length bs \<le> 4096" "unat (3 :: u8) \<le> 240" using bs(2) by simp_all
  from dual_fallback_resolves [OF tx_query_ok(1,2) bs(1) this start dual, of "()"] bs(1)
  show ?thesis by fastforce
qed

section \<open>The negative mocks\<close>

lemma wf_name_prefix:
  assumes "wf_name zone" "zone \<noteq> []" "length zone + length l < MAX_NAME_LEN" "valid_utf8 l"
    and "l \<noteq> []" "length l \<le> 63" "dot \<notin> set l"
  shows "wf_name (l @ dot # zone)"
proof -
  have "split_dots l = [l]" using assms(7) by (induction l) auto
  then show ?thesis using assms by (auto simp: wf_name_def split_dots_append_dot valid_utf8_dot)
qed

lemma wf_soa_record:
  assumes "wf_name zone" "zone \<noteq> []" "length zone \<le> 247"
  shows "wf_rr (soa_record zone ttl minimum)"
proof -
  have "str_bytes ''ns1.'' = str_bytes ''ns1'' @ [dot]" "str_bytes ''admin.'' = str_bytes ''admin'' @ [dot]"
    by code_simp+
  moreover have "wf_name (l @ dot # zone)" if "l \<in> {str_bytes ''ns1'', str_bytes ''admin''}" for l
    using that assms
    by (intro wf_name_prefix) (auto simp: MAX_NAME_LEN_def str_bytes_def dot_def intro!: ascii_valid_utf8)
  ultimately show ?thesis using assms(1) by (simp add: wf_rr_def soa_record_def)
qed

text \<open>
  The negative mocks exercise negative caching. For a well-formed query with one question, whose
  name leaves room for the names of the SOA record, \<open>mocks::nxdomain\<close> and \<open>mocks::nodata\<close> answer with a
  message that parses, has the right response code and no answers, and that the cache keeps under that
  question for 60 seconds or the configured cap, whichever is less.
\<close>

lemma negative_mocks_cacheable:
  assumes "wf_message q" "message_parse b = Inr q" "questions q = [qn]" "q_name qn \<noteq> []" "length (q_name qn) \<le> 247"
    and "neg \<noteq> 0"
  shows "(\<exists>r m. mock_nxdomain b = Some r \<and> message_parse r = Inr m \<and> header_rcode (header m) = Inr NXDomain \<and>
      answers m = [] \<and> cacheable neg m = Some (qn, min 60 neg)) \<and>
    (\<exists>r m. mock_nodata b = Some r \<and> message_parse r = Inr m \<and> header_rcode (header m) = Inr NoError \<and>
      answers m = [] \<and> cacheable neg m = Some (qn, min 60 neg))"
proof -
  let ?soa = "soa_record (q_name qn) 60 60"
  have soa: "wf_rr ?soa"
    using assms by (intro wf_soa_record) (auto simp: wf_message_def wf_question_def)
  have zone: "mock_zone q = q_name qn" using assms(3) by (simp add: mock_zone_def)
  have mask: "H_RCODE = mask 4" by (simp add: H_RCODE_def mask_eq_exp_minus_1)
  have rc: "header_rcode (header (mock_reply q x [] [?soa])) = rcode_try_from (ucast (x AND H_RCODE))" for x
  proof -
    have "(H_QR OR x OR (h_flags (header q) AND H_RD)) AND H_RCODE = x AND H_RCODE"
      by (rule bit_word_eqI) (auto simp: bit_and_iff bit_reply_flags mask bit_mask_iff)
    then show ?thesis by (simp add: header_rcode_def mock_reply_def)
  qed
  have reply: "\<exists>r m. unwrap (to_bytes (mock_reply q x [] [?soa])) = Some r \<and> message_parse r = Inr m \<and>
      header_rcode (header m) = Inr c \<and> answers m = [] \<and> cacheable neg m = Some (qn, min 60 neg)"
    if x: "x AND H_Z = 0" "\<not> bit x 9" "rcode_try_from (ucast (x AND H_RCODE)) = Inr c" "c = NoError \<or> c = NXDomain" for x c
  proof -
    let ?m = "mock_reply q x [] [?soa]"
    have "wf_message ?m" using assms(1) x(1) soa by (intro wf_mock_reply) simp_all
    then obtain r where r: "to_bytes ?m = Inr r" "message_parse r = Inr ?m" by (rule wf_serialises)
    have hrc: "header_rcode (header ?m) = Inr c" using rc x(3) by simp
    have "min 60 neg \<noteq> 0" using assms(6) by (simp add: min_def)
    moreover have "effective_ttl neg c ?m = Some (Some (min 60 neg))"
      using x(4) by (auto simp: effective_ttl_def mock_reply_def soa_record_def)
    moreover have "questions ?m = [qn]" using assms(3) by (simp add: mock_reply_def)
    ultimately have "cacheable neg ?m = Some (qn, min 60 neg)"
      using x(2) hrc mock_reply_flags(2) [of q x "[]" "[?soa]"] by (simp add: cacheable_def)
    then show ?thesis using r hrc by (intro exI [of _ r] exI [of _ ?m]) (simp, simp add: mock_reply_def)
  qed
  have "rcode_try_from (ucast ((H_RA OR 3) AND H_RCODE)) = Inr NXDomain" "rcode_try_from (ucast (H_RA AND H_RCODE)) = Inr NoError"
    by code_simp+
  moreover have "(H_RA OR 3) AND H_Z = 0" "H_RA AND H_Z = 0" "\<not> bit (H_RA OR 3) 9" "\<not> bit H_RA 9"
    by (simp_all add: H_RA_def H_Z_def)
  ultimately show ?thesis using reply mock_replies(3,4) [OF assms(2)] zone by simp
qed

section \<open>Counting responders\<close>

text \<open>
  The counted responder sends what the plain one sends, and as long as no reply panics and no receive
  fails it counts every datagram: a test that sees the counter unchanged knows that nothing was asked.
\<close>

lemma counted_sends_the_same: "fst (udp_responder_counted respond rs n) = udp_responder respond rs"
  by (induction respond rs n rule: udp_responder_counted.induct) (auto split: option.split prod.split)

lemma counted_counts:
  "\<forall>x \<in> set rs. \<exists>d p. x = Inr (d, p) \<and> respond (take 4096 d) \<noteq> None \<Longrightarrow>
     snd (udp_responder_counted respond rs n) = n + length rs"
proof (induction rs arbitrary: n)
  case (Cons x rs)
  then obtain d p resp where "x = Inr (d, p)" "respond (take 4096 d) = Some resp" by force
  moreover have "snd (udp_responder_counted respond rs (Suc n)) = Suc n + length rs" using Cons by simp
  ultimately show ?case by (cases "udp_responder_counted respond rs (Suc n)") simp
qed simp

text \<open>The clients undo what a server does that echoes a message's bytes.\<close>

lemma client_udp_roundtrip:
  assumes "wf_message q" "wf_message m" "\<And>sent. message_parse sent = Inr q \<Longrightarrow> srv sent = unwrap (to_bytes m)"
    and "\<And>b. to_bytes m = Inr b \<Longrightarrow> length b \<le> 4096"
  shows "client_udp_query q srv = Some m"
proof -
  obtain b where b: "to_bytes q = Inr b" "message_parse b = Inr q" by (rule wf_serialises [OF assms(1)])
  obtain r where r: "to_bytes m = Inr r" "message_parse r = Inr m" by (rule wf_serialises [OF assms(2)])
  show ?thesis using b r assms(3) [OF b(2)] assms(4) [OF r(1)] by (simp add: client_udp_query_def message_try_from_def)
qed

lemma client_tcp_roundtrip:
  assumes "wf_message q" "wf_message m" "\<And>b. message_parse b = Inr q \<Longrightarrow> respond b = unwrap (to_bytes m)"
    and "\<And>b. to_bytes q = Inr b \<Longrightarrow> length b \<le> 65535" "\<And>b. to_bytes m = Inr b \<Longrightarrow> length b \<le> 65535"
  shows "client_tcp_query q (tcp_replies (tcp_responder respond)) = Some m"
proof -
  obtain b where b: "to_bytes q = Inr b" "message_parse b = Inr q" by (rule wf_serialises [OF assms(1)])
  obtain r where r: "to_bytes m = Inr r" "message_parse r = Inr m" by (rule wf_serialises [OF assms(2)])
  have ne: "b \<noteq> []" "r \<noteq> []" using to_bytes_id(1) [OF b(1)] to_bytes_id(1) [OF r(1)] by auto
  have "tcp_replies (tcp_responder respond) (frame b) = \<lparr>incoming = frame r, ending = None\<rparr>"
    using b r ne assms(3) [OF b(2)] assms(4,5) by (intro tcp_replies_one) simp_all
  then show ?thesis
    using b r ne assms(4,5) read_framed_frame [OF ne(2), of "[]" None]
    by (simp add: client_tcp_query_def write_framed_ok)
qed

end
