(* ===== verification/Server.thy ===== *)
theory Server
  imports Handler_Props "HOL-Library.Multiset"
begin

text \<open>
  \<open>dnser-server\<close>: starting the server (\<open>lib.rs\<close>), and its tasks as one step relation: the UDP workers
  (\<open>worker.rs\<close>) with the query tasks they spawn, the TCP worker (\<open>tcp.rs\<close>) with its connections, the
  cache reaper, and the shutdown (\<open>ServerHandle::shutdown\<close>). The two semaphores are the numbers of
  permits they still have. A query takes two steps on the shared cache, as \<open>process_query\<close> does: it is
  looked up, and if it missed, its answer is inserted when \<open>resolve\<close> has returned; in between any other task
  can run, and the worker can abort the query.
\<close>

section \<open>Starting\<close>

text \<open>
  Binding sockets is the operating system's part: \<open>bind n addr\<close> is the outcome of the \<open>n\<close>-th bind, the
  local address of the new socket. A socket is represented by that address.
\<close>

fun bind_more :: "(nat \<Rightarrow> socket_addr \<Rightarrow> io_error + socket_addr) \<Rightarrow> socket_addr \<Rightarrow> nat list \<Rightarrow> io_error + socket_addr list" where
  "bind_more bind resolved [] = Inr []"
| "bind_more bind resolved (i # is) =
     and_then (bind i resolved) (\<lambda>s. and_then (bind_more bind resolved is) (\<lambda>ss. Inr (s # ss)))"

definition bind_udp_sockets ::
    "(nat \<Rightarrow> socket_addr \<Rightarrow> io_error + socket_addr) \<Rightarrow> socket_addr \<Rightarrow> nat \<Rightarrow> io_error + socket_addr \<times> socket_addr list" where
  "bind_udp_sockets bind listen_addr cnt =
     and_then (bind 0 listen_addr) (\<lambda>resolved.
     and_then (bind_more bind resolved [1..<cnt]) (\<lambda>sockets.
     Inr (resolved, resolved # sockets)))"

datatype worker_phase = Running | Draining | Stopped

text \<open>
  A query task waits for its upstreams when \<open>qt_query\<close> is the query it forwards. Likewise a connection is the
  query it forwards, or \<open>None\<close> between two queries. Three fields record the history: the datagrams accepted
  with their senders, those handed to \<open>send_to\<close> with their destinations, and the queries with their replies.
\<close>

record query_task =
  qt_worker :: nat
  qt_peer :: socket_addr
  qt_data :: bytes
  qt_query :: "message option"

record server_state =
  sv_cache :: cache
  sv_udp_permits :: nat
  sv_tcp_permits :: nat
  sv_workers :: "worker_phase list"
  sv_tcp_running :: bool
  sv_tasks :: "query_task list"
  sv_conns :: "message option list"
  sv_reaper :: bool
  sv_shutdown :: bool
  sv_received :: "(socket_addr \<times> bytes) list"
  sv_sent :: "(socket_addr \<times> bytes) list"
  sv_replies :: "(message \<times> message) list"

definition server_cache :: "hasher \<Rightarrow> (nat \<Rightarrow> hasher) \<Rightarrow> config \<Rightarrow> cache" where
  "server_cache h hs cfg =
     cache_new h hs (max_entries (cache_cfg cfg)) (ucast (max_negative_ttl_secs (cache_cfg cfg)))"

definition start ::
    "hasher \<Rightarrow> (nat \<Rightarrow> hasher) \<Rightarrow> (resolver_config \<Rightarrow> io_error + unit) \<Rightarrow>
     (nat \<Rightarrow> socket_addr \<Rightarrow> io_error + socket_addr) \<Rightarrow> (socket_addr \<Rightarrow> io_error + socket_addr) \<Rightarrow>
     config \<Rightarrow> io_error + server_state" where
  "start h hs resolver_new bind_udp bind_tcp cfg =
     (let server_cfg = server cfg; num_workers = unat (workers server_cfg) in
      and_then (resolver_new (resolver cfg)) (\<lambda>_.
      and_then (bind_udp_sockets bind_udp (listen server_cfg) num_workers) (\<lambda>(udp_addr, udp_sockets).
      and_then (bind_tcp (listen server_cfg)) (\<lambda>tcp_addr.
      Inr \<lparr>sv_cache = server_cache h hs cfg,
           sv_udp_permits = unat (udp_max_inflight server_cfg),
           sv_tcp_permits = unat (tcp_max_connections server_cfg),
           sv_workers = map (\<lambda>_. Running) udp_sockets,
           sv_tcp_running = True, sv_tasks = [], sv_conns = [], sv_reaper = True,
           sv_shutdown = False, sv_received = [], sv_sent = [], sv_replies = []\<rparr>))))"

section \<open>Steps\<close>

text \<open>The tasks of one worker.\<close>

definition tasks_of :: "nat \<Rightarrow> server_state \<Rightarrow> query_task list" where
  "tasks_of w s = filter (\<lambda>t. qt_worker t = w) (sv_tasks s)"

text \<open>The end of a query task: its permit is dropped, and the datagram has gone to its peer.\<close>

definition end_task :: "query_task list \<Rightarrow> query_task \<Rightarrow> bytes option \<Rightarrow> server_state \<Rightarrow> server_state" where
  "end_task rest t out s =
     s\<lparr>sv_tasks := rest, sv_udp_permits := sv_udp_permits s + 1,
       sv_sent := sv_sent s @ (case out of None \<Rightarrow> [] | Some b \<Rightarrow> [(qt_peer t, b)])\<rparr>"

definition replied :: "message \<Rightarrow> message \<Rightarrow> server_state \<Rightarrow> server_state" where
  "replied q r s = s\<lparr>sv_replies := sv_replies s @ [(q, r)]\<rparr>"

text \<open>
  \<open>Worker::run\<close>: a datagram is accepted with a permit or dropped without one. Its task, \<open>handle_query\<close>, ends
  if it does not parse or is answered at once, otherwise it waits for the upstreams and then ends. On
  shutdown the worker leaves its loop, and stops once its tasks have ended or were aborted.
\<close>

inductive udp_step :: "server_state \<Rightarrow> server_state \<Rightarrow> bool" where
  udp_accept: "\<lbrakk>w < length (sv_workers s); sv_workers s ! w = Running; sv_udp_permits s > 0\<rbrakk> \<Longrightarrow>
    udp_step s (s\<lparr>sv_udp_permits := sv_udp_permits s - 1,
               sv_tasks := \<lparr>qt_worker = w, qt_peer = p, qt_data = take MAX_UDP_SIZE d, qt_query = None\<rparr> # sv_tasks s,
               sv_received := sv_received s @ [(p, take MAX_UDP_SIZE d)]\<rparr>)"
| udp_dropped: "\<lbrakk>w < length (sv_workers s); sv_workers s ! w = Running; sv_udp_permits s = 0\<rbrakk> \<Longrightarrow> udp_step s s"
| udp_malformed: "\<lbrakk>sv_tasks s = ts1 @ t # ts2; qt_query t = None; message_parse (qt_data t) = Inl e\<rbrakk> \<Longrightarrow>
    udp_step s (end_task (ts1 @ ts2) t None s)"
| udp_answered: "\<lbrakk>sv_tasks s = ts1 @ t # ts2; qt_query t = None; message_parse (qt_data t) = Inr q;
    query_lookup env (sv_cache s) q = Some r; send_response (qe_send env) q r = (res, out)\<rbrakk> \<Longrightarrow>
    udp_step s (end_task (ts1 @ ts2) t out (replied q r s))"
| udp_missed: "\<lbrakk>sv_tasks s = ts1 @ t # ts2; qt_query t = None; message_parse (qt_data t) = Inr q;
    query_lookup env (sv_cache s) q = None\<rbrakk> \<Longrightarrow>
    udp_step s (s\<lparr>sv_tasks := ts1 @ t\<lparr>qt_query := Some q\<rparr> # ts2\<rparr>)"
| udp_resolved: "\<lbrakk>sv_tasks s = ts1 @ t # ts2; qt_query t = Some q; iter_order (qe_it env);
    query_forward env (sv_cache s) q = (r, c); send_response (qe_send env) q r = (res, out)\<rbrakk> \<Longrightarrow>
    udp_step s (end_task (ts1 @ ts2) t out (replied q r (s\<lparr>sv_cache := c\<rparr>)))"
| udp_break: "\<lbrakk>w < length (sv_workers s); sv_workers s ! w = Running; sv_shutdown s\<rbrakk> \<Longrightarrow>
    udp_step s (s\<lparr>sv_workers := (sv_workers s)[w := Draining]\<rparr>)"
| udp_abort: "\<lbrakk>w < length (sv_workers s); sv_workers s ! w = Draining\<rbrakk> \<Longrightarrow>
    udp_step s (s\<lparr>sv_tasks := filter (\<lambda>t. qt_worker t \<noteq> w) (sv_tasks s),
               sv_udp_permits := sv_udp_permits s + length (tasks_of w s)\<rparr>)"
| udp_stop: "\<lbrakk>w < length (sv_workers s); sv_workers s ! w = Draining; tasks_of w s = []\<rbrakk> \<Longrightarrow>
    udp_step s (s\<lparr>sv_workers := (sv_workers s)[w := Stopped]\<rparr>)"

text \<open>
  \<open>TcpWorker::run\<close> and the connections it spawns, which outlive its loop. A connection answers its queries
  one at a time, and closes between two of them (also where reading, parsing or writing fails).
\<close>

inductive tcp_step :: "server_state \<Rightarrow> server_state \<Rightarrow> bool" where
  tcp_accept: "\<lbrakk>sv_tcp_running s; sv_tcp_permits s > 0\<rbrakk> \<Longrightarrow>
    tcp_step s (s\<lparr>sv_tcp_permits := sv_tcp_permits s - 1, sv_conns := None # sv_conns s\<rparr>)"
| tcp_dropped: "\<lbrakk>sv_tcp_running s; sv_tcp_permits s = 0\<rbrakk> \<Longrightarrow> tcp_step s s"
| conn_answered: "\<lbrakk>None \<in> set (sv_conns s); message_parse body = Inr q; query_lookup env (sv_cache s) q = Some r\<rbrakk> \<Longrightarrow>
    tcp_step s (replied q r s)"
| conn_missed: "\<lbrakk>sv_conns s = cs1 @ None # cs2; message_parse body = Inr q; query_lookup env (sv_cache s) q = None\<rbrakk> \<Longrightarrow>
    tcp_step s (s\<lparr>sv_conns := cs1 @ Some q # cs2\<rparr>)"
| conn_resolved: "\<lbrakk>sv_conns s = cs1 @ Some q # cs2; iter_order (qe_it env); query_forward env (sv_cache s) q = (r, c)\<rbrakk> \<Longrightarrow>
    tcp_step s (replied q r (s\<lparr>sv_cache := c, sv_conns := cs1 @ None # cs2\<rparr>))"
| conn_close: "sv_conns s = cs1 @ None # cs2 \<Longrightarrow>
    tcp_step s (s\<lparr>sv_conns := cs1 @ cs2, sv_tcp_permits := sv_tcp_permits s + 1\<rparr>)"
| tcp_break: "\<lbrakk>sv_tcp_running s; sv_shutdown s\<rbrakk> \<Longrightarrow> tcp_step s (s\<lparr>sv_tcp_running := False\<rparr>)"

text \<open>A tick of the cache reaper.\<close>

inductive reaper_step :: "server_state \<Rightarrow> server_state \<Rightarrow> bool" where
  reap: "sv_reaper s \<Longrightarrow> reaper_step s (s\<lparr>sv_cache := cache_evict_expired (sv_cache s) now\<rparr>)"

text \<open>\<open>ServerHandle::shutdown\<close> up to its waiting: the signal is sent and the reaper aborted.\<close>

definition signal_shutdown :: "server_state \<Rightarrow> server_state" where
  "signal_shutdown s = s\<lparr>sv_shutdown := True, sv_reaper := False\<rparr>"

definition sstep :: "server_state \<Rightarrow> server_state \<Rightarrow> bool" where
  "sstep s s' \<longleftrightarrow> udp_step s s' \<or> tcp_step s s' \<or> reaper_step s s' \<or>
     (\<not> sv_shutdown s \<and> s' = signal_shutdown s)"

lemma sstep_udp [intro]: "udp_step s s' \<Longrightarrow> sstep s s'"
  by (simp add: sstep_def)

inductive sreach :: "config \<Rightarrow> server_state \<Rightarrow> bool" for cfg where
  sreach_start: "start h hs rn bu bt cfg = Inr s \<Longrightarrow> sreach cfg s"
| sreach_step: "sreach cfg s \<Longrightarrow> sstep s s' \<Longrightarrow> sreach cfg s'"

section \<open>The invariant\<close>

definition sinv :: "config \<Rightarrow> server_state \<Rightarrow> bool" where
  "sinv cfg s \<longleftrightarrow>
     srv_reach (sv_cache s) \<and> capacity (sv_cache s) = max_entries (cache_cfg cfg) \<and>
     sv_udp_permits s + length (sv_tasks s) = unat (udp_max_inflight (server cfg)) \<and>
     sv_tcp_permits s + length (sv_conns s) = unat (tcp_max_connections (server cfg)) \<and>
     (\<forall>t \<in> set (sv_tasks s). qt_worker t < length (sv_workers s) \<and> sv_workers s ! qt_worker t \<noteq> Stopped) \<and>
     (sv_shutdown s \<longleftrightarrow> \<not> sv_reaper s) \<and>
     (\<not> sv_shutdown s \<longrightarrow> sv_tcp_running s \<and> (\<forall>p \<in> set (sv_workers s). p = Running))"

lemma start_Inr:
  assumes "start h hs rn bu bt cfg = Inr s"
  shows "sv_cache s = server_cache h hs cfg" "sv_udp_permits s = unat (udp_max_inflight (server cfg))"
    "sv_tcp_permits s = unat (tcp_max_connections (server cfg))" "sv_tasks s = []" "sv_conns s = []"
    "\<not> sv_shutdown s" "sv_reaper s" "sv_tcp_running s" "\<forall>p \<in> set (sv_workers s). p = Running"
    "sv_received s = []" "sv_sent s = []" "sv_replies s = []"
  using assms by (auto simp: start_def result_simps Let_def)

lemma query_forward_capacity: "capacity (snd (query_forward env c q)) = capacity c"
  by (cases rule: query_forward_cache [of env c q]) (simp_all add: cache_insert_capacity)

lemma evict_expired_capacity: "capacity (cache_evict_expired c now) = capacity c"
  by (simp add: cache_evict_expired_def evict_expired_shards_eq)

lemma srv_forwarded:
  assumes "srv_reach c" "iter_order (qe_it env)" "query_forward env c q = (r, c')"
  shows "srv_reach c'" "capacity c' = capacity c"
  using srv_forward [OF assms(1,2), of q] query_forward_capacity [of env c q] assms(3) by simp_all

lemma end_task_fields [simp]:
  "sv_cache (end_task ts t out s) = sv_cache s" "sv_tasks (end_task ts t out s) = ts"
  "sv_udp_permits (end_task ts t out s) = sv_udp_permits s + 1" "sv_tcp_permits (end_task ts t out s) = sv_tcp_permits s"
  "sv_workers (end_task ts t out s) = sv_workers s" "sv_tcp_running (end_task ts t out s) = sv_tcp_running s"
  "sv_conns (end_task ts t out s) = sv_conns s" "sv_reaper (end_task ts t out s) = sv_reaper s"
  "sv_shutdown (end_task ts t out s) = sv_shutdown s" "sv_received (end_task ts t out s) = sv_received s"
  "sv_replies (end_task ts t out s) = sv_replies s"
  by (simp_all add: end_task_def)

lemma replied_fields [simp]:
  "sv_cache (replied q r s) = sv_cache s" "sv_tasks (replied q r s) = sv_tasks s"
  "sv_udp_permits (replied q r s) = sv_udp_permits s" "sv_tcp_permits (replied q r s) = sv_tcp_permits s"
  "sv_workers (replied q r s) = sv_workers s" "sv_tcp_running (replied q r s) = sv_tcp_running s"
  "sv_conns (replied q r s) = sv_conns s" "sv_reaper (replied q r s) = sv_reaper s"
  "sv_shutdown (replied q r s) = sv_shutdown s" "sv_received (replied q r s) = sv_received s"
  "sv_sent (replied q r s) = sv_sent s" "sv_replies (replied q r s) = sv_replies s @ [(q, r)]"
  by (simp_all add: replied_def)

lemma sinv_udp: "udp_step s s' \<Longrightarrow> sinv cfg s \<Longrightarrow> sinv cfg s'"
proof (induction rule: udp_step.induct)
  case (udp_resolved s ts1 t ts2 q env r c res out)
  then have "srv_reach c" "capacity c = capacity (sv_cache s)"
    using srv_forwarded [of "sv_cache s" env q r c] by (simp_all add: sinv_def)
  with udp_resolved show ?case by (auto simp: sinv_def)
next
  case (udp_abort w s)
  have "length (tasks_of w s) + length (filter (\<lambda>t. qt_worker t \<noteq> w) (sv_tasks s)) = length (sv_tasks s)"
    unfolding tasks_of_def by (rule sum_length_filter_compl)
  with udp_abort show ?case by (auto simp: sinv_def)
next
  case (udp_stop w s)
  then have "\<forall>t \<in> set (sv_tasks s). qt_worker t \<noteq> w" by (auto simp: tasks_of_def filter_empty_conv)
  moreover have "sv_shutdown s" using udp_stop nth_mem by (fastforce simp: sinv_def)
  ultimately show ?case using udp_stop by (auto simp: sinv_def nth_list_update)
next
  case (udp_break w s)
  then show ?case by (auto simp: sinv_def nth_list_update)
qed (auto simp: sinv_def)

lemma sinv_tcp: "tcp_step s s' \<Longrightarrow> sinv cfg s \<Longrightarrow> sinv cfg s'"
  by (induction rule: tcp_step.induct) (auto simp: sinv_def dest: srv_forwarded)

lemma sinv_reaper: "reaper_step s s' \<Longrightarrow> sinv cfg s \<Longrightarrow> sinv cfg s'"
  by (induction rule: reaper_step.induct) (auto simp: sinv_def evict_expired_capacity intro: srv_sweep)

lemma sinv_step: "sstep s s' \<Longrightarrow> sinv cfg s \<Longrightarrow> sinv cfg s'"
  unfolding sstep_def
proof (elim disjE conjE)
  assume "sinv cfg s" "\<not> sv_shutdown s" "s' = signal_shutdown s"
  then show ?thesis by (simp add: sinv_def signal_shutdown_def)
qed (rule sinv_udp sinv_tcp sinv_reaper; assumption)+

lemma sinv_reach: "sreach cfg s \<Longrightarrow> sinv cfg s"
proof (induction rule: sreach.induct)
  case (sreach_start h hs rn bu bt s)
  then show ?case using start_Inr [OF sreach_start] 
    by (auto simp: sinv_def server_cache_def cache_new_def intro: srv_new [unfolded cache_new_def])
qed (rule sinv_step)

section \<open>The replies\<close>

text \<open>A datagram sent answers one received from the same peer.\<close>

definition answers_peer :: "server_state \<Rightarrow> socket_addr \<Rightarrow> bytes \<Rightarrow> bool" where
  "answers_peer s p b \<longleftrightarrow> (\<exists>d q r. (p, d) \<in> set (sv_received s) \<and> message_parse d = Inr q \<and>
     (q, r) \<in> set (sv_replies s) \<and>
     (to_bytes r = Inr b \<and> length b \<le> query_udp_limit q \<or> to_bytes (build_truncated q) = Inr b))"

definition hinv :: "server_state \<Rightarrow> bool" where
  "hinv s \<longleftrightarrow>
     (\<forall>(q, r) \<in> set (sv_replies s). reply_ok q r) \<and>
     (\<forall>(p, b) \<in> set (sv_sent s). answers_peer s p b) \<and>
     (\<forall>t \<in> set (sv_tasks s). (qt_peer t, qt_data t) \<in> set (sv_received s) \<and>
        (\<forall>q. qt_query t = Some q \<longrightarrow> message_parse (qt_data t) = Inr q)) \<and>
     (\<forall>q. Some q \<in> set (sv_conns s) \<longrightarrow> (\<exists>b. message_parse b = Inr q)) \<and>
     mset (map fst (sv_sent s)) + mset (map qt_peer (sv_tasks s)) \<subseteq># mset (map fst (sv_received s))"

lemma answers_peer_mono:
  assumes "answers_peer s p b" "set (sv_received s) \<subseteq> set (sv_received s')" "set (sv_replies s) \<subseteq> set (sv_replies s')"
  shows "answers_peer s' p b"
  using assms by (fastforce simp: answers_peer_def)

text \<open>A task with its reply: the datagram goes to the peer the query came from.\<close>

lemma hinv_end:
  assumes "hinv s" "sv_tasks s = ts1 @ t # ts2" "message_parse (qt_data t) = Inr q" "reply_ok q r"
    and "send_response sent q r = (res, out)"
  shows "hinv (end_task (ts1 @ ts2) t out (replied q r (s\<lparr>sv_cache := c\<rparr>)))" (is "hinv ?s")
proof -
  have old: "answers_peer ?s p b" if "(p, b) \<in> set (sv_sent s)" for p b
    using assms(1) that by (auto simp: hinv_def intro: answers_peer_mono)
  have new: "answers_peer ?s (qt_peer t) b" if "out = Some b" for b
    using assms(1,2,3) send_response_Some [OF assms(5) [unfolded that]] by (fastforce simp: answers_peer_def hinv_def)
  have count: "mset (map fst (sv_sent s)) + add_mset (qt_peer t) (mset (map qt_peer (ts1 @ ts2))) \<subseteq># mset (map fst (sv_received s))"
    using assms(1,2) by (simp add: hinv_def)
  then have "mset (map fst (sv_sent s)) + mset (map qt_peer (ts1 @ ts2)) \<subseteq># mset (map fst (sv_received s))"
    by (rule subset_mset.order_trans [rotated]) simp
  with count have "mset (map fst (sv_sent ?s)) + mset (map qt_peer (ts1 @ ts2)) \<subseteq># mset (map fst (sv_received s))"
    by (cases out) (simp_all add: end_task_def)
  moreover have "\<forall>(p, b) \<in> set (sv_sent ?s). answers_peer ?s p b"
    using old new by (cases out) (auto simp: end_task_def)
  ultimately show ?thesis using assms(1,2,4) by (auto simp: hinv_def)
qed

text \<open>What keeps the history and only lets tasks go.\<close>

lemma hinv_less:
  assumes "hinv s" "sv_received s' = sv_received s" "sv_sent s' = sv_sent s" "sv_replies s' = sv_replies s"
    and "mset (sv_tasks s') \<subseteq># mset (sv_tasks s)" "set (sv_conns s') \<subseteq> insert None (set (sv_conns s))"
  shows "hinv s'"
proof -
  have "mset (map qt_peer (sv_tasks s')) \<subseteq># mset (map qt_peer (sv_tasks s))"
    using image_mset_subseteq_mono [OF assms(5)] by simp
  then have "mset (map fst (sv_sent s)) + mset (map qt_peer (sv_tasks s')) \<subseteq># mset (map fst (sv_received s))"
    using assms(1) unfolding hinv_def by (meson subset_mset.add_left_mono subset_mset.order_trans)
  moreover have "set (sv_tasks s') \<subseteq> set (sv_tasks s)" using set_mset_mono [OF assms(5)] by simp
  moreover have "answers_peer s' = answers_peer s" by (intro ext) (simp add: answers_peer_def assms(2,4))
  ultimately show ?thesis using assms(1,2,3,4,6) by (auto simp: hinv_def)
qed

lemma hinv_replied:
  assumes "hinv s" "reply_ok q r"
  shows "hinv (replied q r s)"
proof -
  have "answers_peer (replied q r s) p b" if "answers_peer s p b" for p b
    by (rule answers_peer_mono [OF that]) auto
  then show ?thesis using assms by (auto simp: hinv_def)
qed

lemma hinv_udp:
  assumes "udp_step s s'" "srv_reach (sv_cache s)" "hinv s"
  shows "hinv s'"
  using assms
proof (induction rule: udp_step.induct)
  case (udp_accept w s p d)
  let ?s = "s\<lparr>sv_udp_permits := sv_udp_permits s - 1,
     sv_tasks := \<lparr>qt_worker = w, qt_peer = p, qt_data = take MAX_UDP_SIZE d, qt_query = None\<rparr> # sv_tasks s,
     sv_received := sv_received s @ [(p, take MAX_UDP_SIZE d)]\<rparr>"
  have "answers_peer ?s p b" if "answers_peer s p b" for p b by (rule answers_peer_mono [OF that]) auto
  with udp_accept show ?case by (auto simp: hinv_def)
next
  case (udp_answered s ts1 t ts2 q env r res out)
  have "reply_ok q r" by (rule parsed_reply_ok(1) [OF udp_answered(3) srv_serves [OF udp_answered(6)] udp_answered(4)])
  from hinv_end [OF udp_answered(7,1,3) this udp_answered(5), of "sv_cache s"] show ?case by simp
next
  case (udp_missed s ts1 t ts2 q env)
  have "answers_peer (s\<lparr>sv_tasks := ts1 @ t\<lparr>qt_query := Some q\<rparr> # ts2\<rparr>) = answers_peer s"
    by (intro ext) (simp add: answers_peer_def)
  with udp_missed show ?case by (auto simp: hinv_def)
next
  case (udp_resolved s ts1 t ts2 q env r c res out)
  then have q: "message_parse (qt_data t) = Inr q" by (auto simp: hinv_def)
  have "reply_ok q r" using parsed_reply_ok(2) [OF q, of env "sv_cache s"] udp_resolved(4) by simp
  then show ?case by (rule hinv_end [OF udp_resolved(7,1) q _ udp_resolved(5)])
qed (auto elim!: hinv_less simp: end_task_def)

lemma hinv_tcp:
  assumes "tcp_step s s'" "srv_reach (sv_cache s)" "hinv s"
  shows "hinv s'"
  using assms
proof (induction rule: tcp_step.induct)
  case (conn_answered s body q env r)
  then show ?case by (intro hinv_replied parsed_reply_ok(1) [OF conn_answered(2) srv_serves])
next
  case (conn_missed s cs1 cs2 body q env)
  have "answers_peer (s\<lparr>sv_conns := cs1 @ Some q # cs2\<rparr>) = answers_peer s"
    by (intro ext) (simp add: answers_peer_def)
  with conn_missed show ?case by (auto simp: hinv_def)
next
  case (conn_resolved s cs1 q cs2 env r c)
  then obtain b where "message_parse b = Inr q" by (auto simp: hinv_def)
  from parsed_reply_ok(2) [OF this, of env "sv_cache s"] conn_resolved(3) have "reply_ok q r" by simp
  moreover have "hinv (s\<lparr>sv_cache := c, sv_conns := cs1 @ None # cs2\<rparr>)"
    using conn_resolved(1,5) by (auto elim!: hinv_less)
  ultimately show ?case by (rule hinv_replied [rotated])
qed (auto elim!: hinv_less)

lemma hinv_reach: "sreach cfg s \<Longrightarrow> hinv s"
proof (induction rule: sreach.induct)
  case (sreach_start h hs rn bu bt s)
  then show ?case using start_Inr [OF sreach_start] by (simp add: hinv_def)
next
  case (sreach_step s s')
  have "srv_reach (sv_cache s)" using sinv_reach [OF sreach_step(1)] by (simp add: sinv_def)
  with sreach_step show ?case
    by (auto simp: sstep_def signal_shutdown_def elim!: reaper_step.cases intro: hinv_udp hinv_tcp hinv_less)
qed

text \<open>A query that nothing interferes with: the steps of its task compute \<open>handle_query\<close>.\<close>

lemma handle_query_steps:
  assumes "sv_tasks s = ts1 @ t # ts2" "qt_query t = None" "iter_order (qe_it env)"
    and "handle_query env (sv_cache s) (qt_data t) = (res, out, c)"
  shows "\<exists>s'. udp_step\<^sup>*\<^sup>* s s' \<and> sv_cache s' = c \<and> sv_tasks s' = ts1 @ ts2 \<and>
    sv_sent s' = sv_sent s @ (case out of None \<Rightarrow> [] | Some b \<Rightarrow> [(qt_peer t, b)])"
proof (cases "message_parse (qt_data t)")
  case (Inl e)
  then show ?thesis
    using assms udp_malformed [OF assms(1,2) Inl] 
    by (intro exI [of _ "end_task (ts1 @ ts2) t None s"]) (auto simp: handle_query_def end_task_def)
next
  case (Inr q)
  show ?thesis
  proof (cases "query_lookup env (sv_cache s) q")
    case (Some r)
    then have "send_response (qe_send env) q r = (res, out)" "c = sv_cache s"
      using assms(4) Inr by (auto simp: handle_query_def process_query_phases split: prod.splits)
    with udp_answered [OF assms(1,2) Inr Some, of res out] show ?thesis
      by (intro exI [of _ "end_task (ts1 @ ts2) t out (replied q r s)"]) (auto simp: end_task_def)
  next
    case None
    obtain r where r: "query_forward env (sv_cache s) q = (r, c)" "send_response (qe_send env) q r = (res, out)"
      using assms(4) Inr None by (auto simp: handle_query_def process_query_phases split: prod.splits)
    let ?t = "t\<lparr>qt_query := Some q\<rparr>"
    let ?s = "s\<lparr>sv_tasks := ts1 @ ?t # ts2\<rparr>"
    have "udp_step s ?s" by (rule udp_missed [OF assms(1,2) Inr None])
    moreover have "udp_step ?s (end_task (ts1 @ ts2) ?t out (replied q r (?s\<lparr>sv_cache := c\<rparr>)))"
      by (rule udp_resolved) (use r assms(3) in simp_all)
    ultimately show ?thesis
      by (intro exI [of _ "end_task (ts1 @ ts2) ?t out (replied q r (?s\<lparr>sv_cache := c\<rparr>))"])
        (auto simp: end_task_def intro: rtranclp.rtrancl_into_rtrancl split: option.split)
  qed
qed

section \<open>Shutting down\<close>

lemma stop_worker:
  assumes "sinv cfg s" "sv_shutdown s" "w < length (sv_workers s)" "sv_workers s ! w \<noteq> Stopped"
  shows "\<exists>s'. sstep\<^sup>*\<^sup>* s s' \<and> sv_shutdown s' \<and> sv_workers s' = (sv_workers s)[w := Stopped]"
proof -
  obtain s1 where s1: "sstep\<^sup>*\<^sup>* s s1" "sv_shutdown s1" "sv_workers s1 = (sv_workers s)[w := Draining]"
  proof (cases "sv_workers s ! w")
    case Running
    with assms(2,3) have "sstep s (s\<lparr>sv_workers := (sv_workers s)[w := Draining]\<rparr>)" by (intro sstep_udp udp_break)
    then show thesis
      using assms(2) by (intro that [of "s\<lparr>sv_workers := (sv_workers s)[w := Draining]\<rparr>"] r_into_rtranclp) simp_all
  next
    case Draining
    then have "sv_workers s = (sv_workers s)[w := Draining]" by (metis list_update_id)
    with assms(2) that [of s] show thesis by blast
  qed (use assms(4) in simp)
  let ?s2 = "s1\<lparr>sv_tasks := filter (\<lambda>t. qt_worker t \<noteq> w) (sv_tasks s1),
               sv_udp_permits := sv_udp_permits s1 + length (tasks_of w s1)\<rparr>"
  let ?s3 = "?s2\<lparr>sv_workers := (sv_workers ?s2)[w := Stopped]\<rparr>"
  have "sstep s1 ?s2" using s1(3) assms(3) by (intro sstep_udp udp_abort) simp_all
  moreover have "sstep ?s2 ?s3"
    using s1(3) assms(3) by (intro sstep_udp udp_stop) (simp_all add: tasks_of_def filter_empty_conv)
  ultimately have "sstep\<^sup>*\<^sup>* s ?s3" using s1(1) by (meson rtranclp.rtrancl_into_rtrancl)
  then show ?thesis using s1(2,3) by (intro exI [of _ ?s3]) simp
qed

lemma filter_update_less:
  "i < length xs \<Longrightarrow> P (xs ! i) \<Longrightarrow> \<not> P y \<Longrightarrow> length (filter P (xs[i := y])) < length (filter P xs)"
proof (induction xs arbitrary: i)
  case (Cons x xs)
  then show ?case by (cases i) auto
qed simp

lemma sinv_steps: "sstep\<^sup>*\<^sup>* s s' \<Longrightarrow> sinv cfg s \<Longrightarrow> sinv cfg s'"
  by (induction rule: rtranclp_induct) (auto intro: sinv_step)

lemma drain:
  assumes "sinv cfg s" "sv_shutdown s"
  shows "\<exists>s'. sstep\<^sup>*\<^sup>* s s' \<and> (\<forall>p \<in> set (sv_workers s'). p = Stopped)"
  using assms
proof (induction "length (filter (\<lambda>p. p \<noteq> Stopped) (sv_workers s))" arbitrary: s rule: less_induct)
  case less
  show ?case
  proof (cases "\<forall>p \<in> set (sv_workers s). p = Stopped")
    case False
    then obtain w where w: "w < length (sv_workers s)" "sv_workers s ! w \<noteq> Stopped"
      by (metis in_set_conv_nth)
    then obtain s1 where s1: "sstep\<^sup>*\<^sup>* s s1" "sv_shutdown s1" "sv_workers s1 = (sv_workers s)[w := Stopped]"
      using stop_worker [OF less.prems] by blast
    have "length (filter (\<lambda>p. p \<noteq> Stopped) (sv_workers s1)) < length (filter (\<lambda>p. p \<noteq> Stopped) (sv_workers s))"
      unfolding s1(3) using w by (intro filter_update_less) simp_all
    from less.hyps [OF this sinv_steps [OF s1(1) less.prems(1)] s1(2)] s1(1) show ?thesis
      by (meson rtranclp_trans)
  qed blast
qed


section \<open>Properties\<close>

definition sx_start :: "config \<Rightarrow> io_error + server_state" where
  "sx_start cfg = start ex_hasher (\<lambda>_. ex_hasher) (\<lambda>_. Inr ()) (\<lambda>_. Inr) Inr cfg"

lemma sx_reach:
  assumes "sx_start cfg = Inr s"
  shows "sreach cfg s"
  using assms unfolding sx_start_def by (rule sreach_start)

lemma sx_default: "\<exists>s. sx_start config_default = Inr s"
  by (simp add: sx_start_def start_def bind_udp_sockets_def config_default_def server_config_default_def)



text \<open>
  C4: replies under concurrency. However the tasks of the server interleave, every query that was answered,
  over UDP or TCP, got a fitting reply; every datagram sent went to a peer that had sent a query, is the
  serialisation of the reply to that query within its size limit, or of the truncated reply to it; and no
  peer is sent more datagrams than it has sent queries.
\<close>

theorem server_replies:
  assumes "sreach cfg s"
  shows "(\<forall>(q, r) \<in> set (sv_replies s). reply_ok q r) \<and>
    (\<forall>(p, b) \<in> set (sv_sent s). \<exists>d q r. (p, d) \<in> set (sv_received s) \<and> message_parse d = Inr q \<and> reply_ok q r \<and>
       (to_bytes r = Inr b \<and> length b \<le> query_udp_limit q \<or> r = build_truncated q \<and> to_bytes r = Inr b)) \<and>
    mset (map fst (sv_sent s)) \<subseteq># mset (map fst (sv_received s))"
proof -
  note inv = hinv_reach [OF assms]
  have "\<exists>d q r. (p, d) \<in> set (sv_received s) \<and> message_parse d = Inr q \<and> reply_ok q r \<and>
      (to_bytes r = Inr b \<and> length b \<le> query_udp_limit q \<or> r = build_truncated q \<and> to_bytes r = Inr b)"
    if "(p, b) \<in> set (sv_sent s)" for p b
  proof -
    have "answers_peer s p b" using inv that by (auto simp: hinv_def)
    then obtain d q r where "(p, d) \<in> set (sv_received s)" "message_parse d = Inr q" "(q, r) \<in> set (sv_replies s)"
        "to_bytes r = Inr b \<and> length b \<le> query_udp_limit q \<or> to_bytes (build_truncated q) = Inr b"
      unfolding answers_peer_def by blast
    moreover from this have "reply_ok q r" "reply_ok q (build_truncated q)"
      using inv by (auto simp: hinv_def intro: reply_ok_built parsed_counts_ok)
    ultimately show ?thesis by blast
  qed
  moreover have "mset (map fst (sv_sent s)) \<subseteq># mset (map fst (sv_received s))"
    using inv unfolding hinv_def by (meson mset_subset_eq_add_left subset_mset.order_trans)
  ultimately show ?thesis using inv by (auto simp: hinv_def)
qed

definition sx_reply :: bytes where
  "sx_reply = [0, 9, 0x81, 2, 0, 1, 0, 0, 0, 0, 0, 0, 1, 97, 0, 0, 1, 0, 1]"

lemma sx_missed: "query_lookup (hx_env [] 0) (server_cache h hs cfg) hx_query = None"
proof -
  have "cache_get (server_cache h hs cfg) \<lparr>q_name = [97], qtype = RT_A, qclass = class_IN\<rparr> 0 = None"
    by (subst rcache.get_view) (simp_all add: server_cache_def MAX_NAME_LEN_def)
  then show ?thesis
    by (simp add: query_lookup_def hx_first(3)) (simp add: cached_reply_def hx_query_def hx_env_def)
qed

lemma sx_handle:
  "handle_query (hx_env [] 0) (server_cache h hs cfg) hx_data = (Inr (), Some sx_reply, server_cache h hs cfg)"
proof -
  let ?c = "server_cache h hs cfg"
  have "resolver_resolve (qe_upstreams (hx_env [] 0)) (qe_attempts (hx_env [] 0)) hx_query = Inl RAllFailed"
    by code_simp
  then have "process_query (hx_env [] 0) ?c hx_query = (build_servfail hx_query, ?c)"
    by (simp add: process_query_phases sx_missed query_forward_def upstream_reply_def)
  moreover have "send_response (Inr ()) hx_query (build_servfail hx_query) = (Inr (), Some sx_reply)" by code_simp
  ultimately show ?thesis by (simp add: handle_query_def hx_parse) (simp add: hx_env_def)
qed

theorem server_replies_witness:
  "\<exists>s p. sreach config_default s \<and> sv_sent s = [(p, sx_reply)] \<and> p \<in> fst ` set (sv_received s)"
proof -
  obtain s0 where s0: "sx_start config_default = Inr s0" using sx_default by blast
  note st = start_Inr [OF s0 [unfolded sx_start_def]]
  let ?p = "listen server_config_default"
  let ?t = "\<lparr>qt_worker = 0, qt_peer = ?p, qt_data = take MAX_UDP_SIZE hx_data, qt_query = None\<rparr>"
  let ?s1 = "s0\<lparr>sv_udp_permits := sv_udp_permits s0 - 1, sv_tasks := ?t # sv_tasks s0,
     sv_received := sv_received s0 @ [(?p, take MAX_UDP_SIZE hx_data)]\<rparr>"
  have w: "sv_workers s0 = [Running]"
    using s0 by (auto simp: sx_start_def start_def bind_udp_sockets_def config_default_def server_config_default_def)
  have "udp_step s0 ?s1"
    using w st by (intro udp_accept) (simp_all add: config_default_def server_config_default_def)
  then have reach: "sreach config_default ?s1" using sreach_step [OF sx_reach [OF s0]] by blast
  have "take MAX_UDP_SIZE hx_data = hx_data" by (simp add: hx_data_def MAX_UDP_SIZE_def)
  then obtain s where s: "udp_step\<^sup>*\<^sup>* ?s1 s" "sv_sent s = [(?p, sx_reply)]"
    using handle_query_steps [of ?s1 "[]" ?t "[]" "hx_env [] 0"] sx_handle st hx_first(2) by (fastforce simp: hx_env_def)
  have "sreach config_default s"
    using s(1) reach by (induction rule: rtranclp_induct) (auto intro: sreach_step)
  with server_replies [OF this] s(2) show ?thesis by (intro exI [of _ s] exI [of _ ?p]) force
qed

text \<open>
  Graceful shutdown. Once the shutdown has been signalled, the UDP workers can always run to their
  end, whatever they are doing: there is a sequence of steps after which every worker has stopped, no
  query is left and every permit has been returned.
\<close>

lemma server_can_shut_down:
  assumes "sreach cfg s" "sv_shutdown s"
  shows "\<exists>s'. sstep\<^sup>*\<^sup>* s s' \<and> (\<forall>p \<in> set (sv_workers s'). p = Stopped) \<and> sv_tasks s' = [] \<and>
    sv_udp_permits s' = unat (udp_max_inflight (server cfg))"
proof -
  obtain s' where s': "sstep\<^sup>*\<^sup>* s s'" "\<forall>p \<in> set (sv_workers s'). p = Stopped"
    using drain [OF sinv_reach [OF assms(1)] assms(2)] by blast
  note inv = sinv_steps [OF s'(1) sinv_reach [OF assms(1)]]
  have "sv_tasks s' = []"
  proof (rule ccontr)
    assume "sv_tasks s' \<noteq> []"
    then obtain t where "t \<in> set (sv_tasks s')" by (cases "sv_tasks s'") auto
    then have "qt_worker t < length (sv_workers s')" "sv_workers s' ! qt_worker t \<noteq> Stopped"
      using inv by (auto simp: sinv_def)
    with s'(2) nth_mem show False by blast
  qed
  moreover from this have "sv_udp_permits s' = unat (udp_max_inflight (server cfg))"
    using inv by (simp add: sinv_def)
  ultimately show ?thesis using s' by blast
qed

text \<open>
  C40: the cap on negative TTLs is cut to 32 bits after validation. A configured cap of \<open>2 ^ 32\<close> seconds
  passes \<open>validate\<close>, but the server's cache gets a cap of zero, and then never stores a negative response.
\<close>

theorem negative_ttl_cap_truncated:
  "\<exists>cfg. validate cfg = (Inr () :: unit config_error + unit) \<and> unat (max_negative_ttl_secs (cache_cfg cfg)) = 2 ^ 32 \<and>
     max_negative_ttl (server_cache h hs cfg) = 0 \<and>
     (\<forall>it m now. answers m = [] \<longrightarrow> cache_insert it (server_cache h hs cfg) m now = server_cache h hs cfg)"
proof -
  let ?cfg = "config_default\<lparr>cache_cfg := cache_config_default\<lparr>max_negative_ttl_secs := 0x100000000\<rparr>\<rparr>"
  have "validate ?cfg = (Inr () :: unit config_error + unit)"
    by (simp add: validate_def config_default_def server_config_default_def cache_config_default_def)
  moreover have zero: "max_negative_ttl (server_cache h hs ?cfg) = 0" for h hs
    by (simp add: server_cache_def cache_new_def)
  moreover have "cacheable 0 m = None" if "answers m = []" for m
    using that by (auto simp: cacheable_def effective_ttl_def split: list.splits sum.splits option.splits rcode.splits)
  then have "cache_insert it (server_cache h hs ?cfg) m now = server_cache h hs ?cfg" if "answers m = []" for it m now
    using that by (intro cache_insert_ignored) (simp add: zero)
  ultimately show ?thesis by (intro exI [of _ ?cfg]) simp
qed

theorem negative_ttl_cap_truncated_witness:
  "\<exists>cfg. validate cfg = (Inr () :: unit config_error + unit) \<and>
     cache_insert (\<lambda>_ s. s) (server_cache ex_hasher (\<lambda>_. ex_hasher) cfg) ex_nxdomain 7 =
       server_cache ex_hasher (\<lambda>_. ex_hasher) cfg"
proof -
  have "answers ex_nxdomain = []" by (simp add: ex_nxdomain_def)
  then show ?thesis using negative_ttl_cap_truncated [of ex_hasher "\<lambda>_. ex_hasher"] by blast
qed

end
