(* ===== verification/Startup.thy ===== *)
theory Startup
  imports Server
begin

text \<open>
  From the command line to the end of the process: opening the sockets (\<open>worker.rs\<close>, \<open>tcp.rs\<close>,
  \<open>UpstreamSocket::new\<close> and \<open>Resolver::new\<close> of \<open>dnser-resolver\<close>), \<open>run\<close> of \<open>dnser-server\<close>, and the
  \<open>main\<close> of the binary with its logging set-up. What the operating system does with a socket is an
  argument (\<open>sock_ops\<close>, \<open>upstream_ops\<close>), as are the runtime and the moment the shutdown signal arrives.
\<close>

section \<open>Listening sockets\<close>

datatype domain = IPV4 | IPV6

definition domain_for_address :: "socket_addr \<Rightarrow> domain" where
  "domain_for_address addr = (case sa_ip addr of V4 _ \<Rightarrow> IPV4 | V6 _ \<Rightarrow> IPV6)"

text \<open>The calls made on a UDP socket and on a TCP listener, each of which may fail.\<close>

record 'sock sock_ops =
  so_new :: "domain \<Rightarrow> io_error + 'sock"
  so_reuse_port :: "'sock \<Rightarrow> io_error + unit"
  so_nonblocking :: "'sock \<Rightarrow> io_error + unit"
  so_bind :: "'sock \<Rightarrow> socket_addr \<Rightarrow> io_error + unit"
  so_from_std :: "'sock \<Rightarrow> io_error + 'sock"
  so_local_addr :: "'sock \<Rightarrow> io_error + socket_addr"
  so_listen :: "socket_addr \<Rightarrow> io_error + 'sock"

definition bind_udp_socket :: "'sock sock_ops \<Rightarrow> socket_addr \<Rightarrow> io_error + 'sock" where
  "bind_udp_socket os addr =
     and_then (so_new os (domain_for_address addr)) (\<lambda>sock.
     and_then (so_reuse_port os sock) (\<lambda>_.
     and_then (so_nonblocking os sock) (\<lambda>_.
     and_then (so_bind os sock addr) (\<lambda>_.
     so_from_std os sock))))"

definition bind_tcp_listener :: "'sock sock_ops \<Rightarrow> socket_addr \<Rightarrow> io_error + 'sock" where
  "bind_tcp_listener os addr =
     and_then (so_listen os addr) (\<lambda>std_listener.
     and_then (so_nonblocking os std_listener) (\<lambda>_.
     so_from_std os std_listener))"

text \<open>
  The binds of \<open>start\<close>, with a socket represented by its address: the first UDP socket is asked for it
  (the port may have been 0), the others are bound to the address it gave.
\<close>

definition udp_bind :: "(nat \<Rightarrow> 'sock sock_ops) \<Rightarrow> nat \<Rightarrow> socket_addr \<Rightarrow> io_error + socket_addr" where
  "udp_bind os n addr =
     and_then (bind_udp_socket (os n) addr) (\<lambda>sock. if n = 0 then so_local_addr (os n) sock else Inr addr)"

definition tcp_bind :: "'sock sock_ops \<Rightarrow> socket_addr \<Rightarrow> io_error + socket_addr" where
  "tcp_bind os addr = and_then (bind_tcp_listener os addr) (so_local_addr os)"

section \<open>Upstream sockets\<close>

record 'sock upstream_ops =
  uo_bind :: "socket_addr \<Rightarrow> io_error + 'sock"
  uo_connect :: "'sock \<Rightarrow> socket_addr \<Rightarrow> io_error + unit"

record 'sock upstream_socket =
  up_addr :: socket_addr
  up_socket :: 'sock
  up_in_flight :: "nat in_flight"

definition unspecified_v4 :: socket_addr where
  "unspecified_v4 = \<lparr>sa_ip = V4 (Ipv4Addr 0 0 0 0), sa_port = 0\<rparr>"

definition upstream_socket_new :: "'sock upstream_ops \<Rightarrow> socket_addr \<Rightarrow> io_error + 'sock upstream_socket" where
  "upstream_socket_new os addr =
     and_then (uo_bind os unspecified_v4) (\<lambda>socket.
     and_then (uo_connect os socket addr) (\<lambda>_.
     Inr \<lparr>up_addr = addr, up_socket = socket, up_in_flight = Map.empty\<rparr>))"

record 'sock forwarder =
  fw_upstreams :: "'sock upstream_socket list"
  fw_timeout_ms :: u64

fun open_upstreams :: "'sock upstream_ops \<Rightarrow> socket_addr list \<Rightarrow> io_error + 'sock upstream_socket list" where
  "open_upstreams os [] = Inr []"
| "open_upstreams os (addr # addrs) =
     and_then (upstream_socket_new os addr) (\<lambda>u.
     and_then (open_upstreams os addrs) (\<lambda>us. Inr (u # us)))"

definition resolver_new :: "'sock upstream_ops \<Rightarrow> resolver_config \<Rightarrow> io_error + 'sock forwarder" where
  "resolver_new os config =
     and_then (open_upstreams os (upstreams config)) (\<lambda>us.
     Inr \<lparr>fw_upstreams = us, fw_timeout_ms = timeout_ms config\<rparr>)"

section \<open>Running the server\<close>

text \<open>The whole of \<open>start\<close> on these sockets.\<close>

definition server_start ::
    "hasher \<Rightarrow> (nat \<Rightarrow> hasher) \<Rightarrow> 'u upstream_ops \<Rightarrow> (nat \<Rightarrow> 'sock sock_ops) \<Rightarrow> 'sock sock_ops \<Rightarrow>
     config \<Rightarrow> io_error + server_state" where
  "server_start h hs uos os tos cfg =
     start h hs (\<lambda>rc. and_then (resolver_new uos rc) (\<lambda>_. Inr ())) (udp_bind os) (tcp_bind tos) cfg"

text \<open>
  The background tasks alive when \<open>start\<close> has returned. Where it fails, the upstream sockets it had opened
  are dropped, which aborts their receive loops; the reaper's handle is dropped too, but that only
  detaches the task.
\<close>

datatype background = Recv_loop socket_addr | Cache_reaper | Udp_worker nat | Tcp_worker

definition start_background ::
    "'u upstream_ops \<Rightarrow> (nat \<Rightarrow> 'sock sock_ops) \<Rightarrow> 'sock sock_ops \<Rightarrow> config \<Rightarrow> background list" where
  "start_background uos os tos cfg =
     (let server_cfg = server cfg; num_workers = unat (workers server_cfg) in
      case resolver_new uos (resolver cfg) of
        Inl _ \<Rightarrow> []
      | Inr fw \<Rightarrow>
          (case bind_udp_sockets (udp_bind os) (listen server_cfg) num_workers of
             Inl _ \<Rightarrow> [Cache_reaper]
           | Inr (udp_addr, udp_sockets) \<Rightarrow>
               (case tcp_bind tos (listen server_cfg) of
                  Inl _ \<Rightarrow> [Cache_reaper]
                | Inr tcp_addr \<Rightarrow>
                    map (\<lambda>u. Recv_loop (up_addr u)) (fw_upstreams fw) @ Cache_reaper #
                      map Udp_worker [0..<length udp_sockets] @ [Tcp_worker])))"

text \<open>
  \<open>shutdown_signal\<close>: it waits for Ctrl-C or SIGTERM on Unix, for Ctrl-C elsewhere. The signals are what the
  operating system has made of them so far: whether SIGTERM could be registered and has arrived, and how
  the wait for Ctrl-C has ended, if it has. On Unix that result is not looked at.
\<close>

record signals =
  sg_unix :: bool
  sg_registered :: "io_error + unit"
  sg_ctrl_c :: "(io_error + unit) option"
  sg_sigterm :: bool

datatype awaited = Pending | Panicked | Ready

definition shutdown_signal :: "signals \<Rightarrow> awaited" where
  "shutdown_signal sg =
     (if sg_unix sg then
        (case sg_registered sg of
           Inl _ \<Rightarrow> Panicked
         | Inr _ \<Rightarrow> if sg_ctrl_c sg \<noteq> None \<or> sg_sigterm sg then Ready else Pending)
      else
        (case sg_ctrl_c sg of
           None \<Rightarrow> Pending
         | Some (Inl _) \<Rightarrow> Panicked
         | Some (Inr _) \<Rightarrow> Ready))"

definition work_step :: "server_state \<Rightarrow> server_state \<Rightarrow> bool" where
  "work_step s s' \<longleftrightarrow> udp_step s s' \<or> tcp_step s s' \<or> reaper_step s s'"

text \<open>The tasks whose handles \<open>ServerHandle::shutdown\<close> awaits have ended.\<close>

definition joined :: "server_state \<Rightarrow> bool" where
  "joined s \<longleftrightarrow> list_all (\<lambda>p. p = Stopped) (sv_workers s) \<and> \<not> sv_tcp_running s"

text \<open>
  \<open>run\<close>: it fails when \<open>start\<close> fails; otherwise the server works until the signal arrives, is told to
  stop, and \<open>run\<close> returns when the awaited tasks have ended. A panic of \<open>shutdown_signal\<close> leaves the server
  as it is at that moment.
\<close>

datatype run_result = Run_err io_error | Run_panic server_state | Run_ok server_state

inductive server_run :: "(config \<Rightarrow> io_error + server_state) \<Rightarrow> signals \<Rightarrow> config \<Rightarrow> run_result \<Rightarrow> bool"
  for st :: "config \<Rightarrow> io_error + server_state" and sg :: signals and cfg :: config where
  run_fails: "st cfg = Inl e \<Longrightarrow> server_run st sg cfg (Run_err e)"
| run_panics: "st cfg = Inr s0 \<Longrightarrow> work_step\<^sup>*\<^sup>* s0 s1 \<Longrightarrow> shutdown_signal sg = Panicked \<Longrightarrow>
    server_run st sg cfg (Run_panic s1)"
| run_returns: "st cfg = Inr s0 \<Longrightarrow> work_step\<^sup>*\<^sup>* s0 s1 \<Longrightarrow> shutdown_signal sg = Ready \<Longrightarrow>
    work_step\<^sup>*\<^sup>* (signal_shutdown s1) s2 \<Longrightarrow> joined s2 \<Longrightarrow> server_run st sg cfg (Run_ok s2)"

inductive_cases server_run_okE: "server_run st sg cfg (Run_ok s)"

section \<open>The binary\<close>

datatype tracing_level = TRACE | DEBUG | INFO | WARN | ERROR

record subscriber =
  max_level :: tracing_level
  json :: bool

definition init_logging :: "logging_config \<Rightarrow> subscriber" where
  "init_logging config =
     (let lvl = (case logging_config.level config of
                   Trace \<Rightarrow> TRACE | Debug \<Rightarrow> DEBUG | Info \<Rightarrow> INFO | Warn \<Rightarrow> WARN | Error \<Rightarrow> ERROR)
      in case format config of
           Pretty \<Rightarrow> \<lparr>max_level = lvl, json = False\<rparr>
         | Json \<Rightarrow> \<lparr>max_level = lvl, json = True\<rparr>)"

text \<open>How \<open>main\<close> ends: through \<open>process::exit\<close>, with an error, or normally; and the subscriber in place.\<close>

datatype 'toml main_result = ProcessExit nat | ConfigInvalid "'toml config_error" | MainIo io_error | MainOk

definition dnser_main ::
    "(string \<Rightarrow> io_error + string) \<Rightarrow> (string \<Rightarrow> 'toml + config) \<Rightarrow> (u64 option \<Rightarrow> io_error + unit) \<Rightarrow>
     (config \<Rightarrow> io_error + unit) \<Rightarrow> string list \<Rightarrow> 'toml main_result \<times> subscriber option" where
  "dnser_main read_to_string from_str build run argv =
     (case startup read_to_string from_str argv of
        Exited n \<Rightarrow> (ProcessExit n, None)
      | Failed e \<Rightarrow> (ConfigInvalid e, None)
      | Started config threads \<Rightarrow>
          let sub = init_logging (logging config)
          in (case and_then (build threads) (\<lambda>_. run config) of
                Inl e \<Rightarrow> (MainIo e, Some sub)
              | Inr _ \<Rightarrow> (MainOk, Some sub)))"

section \<open>Sockets that open\<close>

lemma open_upstreams_ok:
  "open_upstreams os addrs = Inr us \<Longrightarrow>
     map up_addr us = addrs \<and> (\<forall>u \<in> set us. up_in_flight u = Map.empty \<and> uo_bind os unspecified_v4 = Inr (up_socket u))"
  by (induction addrs arbitrary: us) (auto simp: result_simps upstream_socket_new_def)

lemma open_upstreams_refused:
  "a \<in> set addrs \<Longrightarrow> \<forall>s. uo_bind os unspecified_v4 = Inr s \<longrightarrow> (\<exists>e. uo_connect os s a = Inl e) \<Longrightarrow>
     \<exists>e. open_upstreams os addrs = Inl e"
proof (induction addrs)
  case (Cons x addrs)
  show ?case
  proof (cases "upstream_socket_new os x")
    case (Inr u)
    with Cons.prems have "x \<noteq> a" by (auto simp: upstream_socket_new_def result_simps)
    with Cons Inr show ?thesis by auto
  qed simp
qed simp

section \<open>Shutting down\<close>

lemma work_step_shutdown: "work_step s s' \<Longrightarrow> sv_shutdown s' = sv_shutdown s"
  by (auto simp: work_step_def elim: udp_step.cases tcp_step.cases reaper_step.cases)

lemma work_steps_shutdown: "work_step\<^sup>*\<^sup>* s s' \<Longrightarrow> sv_shutdown s' = sv_shutdown s"
  by (induction rule: rtranclp_induct) (simp_all add: work_step_shutdown)

lemma work_is_step: "work_step\<^sup>*\<^sup>* s s' \<Longrightarrow> sstep\<^sup>*\<^sup>* s s'"
  by (erule rtranclp_mono [THEN predicate2D, rotated]) (auto simp: work_step_def sstep_def)

lemma step_is_work: "sstep\<^sup>*\<^sup>* s s' \<Longrightarrow> sv_shutdown s \<Longrightarrow> work_step\<^sup>*\<^sup>* s s'"
proof (induction rule: rtranclp_induct)
  case (step s1 s2)
  then have "sv_shutdown s1" using work_steps_shutdown by blast
  with step have "work_step s1 s2" by (auto simp: work_step_def sstep_def)
  with step show ?case by (meson rtranclp.rtrancl_into_rtrancl)
qed simp

lemma steps_reach: "sstep\<^sup>*\<^sup>* s s' \<Longrightarrow> sreach cfg s \<Longrightarrow> sreach cfg s'"
  by (induction rule: rtranclp_induct) (auto intro: sreach_step)

lemma signalled_reach:
  assumes "server_start h hs uos os tos cfg = Inr s0" "work_step\<^sup>*\<^sup>* s0 s1"
  shows "sreach cfg (signal_shutdown s1)" "sv_shutdown (signal_shutdown s1)"
proof -
  note st = assms(1) [unfolded server_start_def]
  have s0: "sreach cfg s0" "\<not> sv_shutdown s0" by (rule sreach_start [OF st], rule start_Inr [OF st])
  have "sreach cfg s1" by (rule steps_reach [OF work_is_step [OF assms(2)] s0(1)])
  moreover have "sstep s1 (signal_shutdown s1)"
    using work_steps_shutdown [OF assms(2)] s0(2) by (simp add: sstep_def)
  ultimately show "sreach cfg (signal_shutdown s1)" by (rule sreach_step)
qed (simp add: signal_shutdown_def)

lemma joined_drained:
  assumes "sinv cfg s" "joined s"
  shows "sv_tasks s = []" "sv_udp_permits s = unat (udp_max_inflight (server cfg))"
proof -
  have "False" if "t \<in> set (sv_tasks s)" for t
  proof -
    have "qt_worker t < length (sv_workers s)" "sv_workers s ! qt_worker t \<noteq> Stopped"
      using assms(1) that by (auto simp: sinv_def)
    then show False using assms(2) by (simp add: joined_def list_all_length)
  qed
  then show "sv_tasks s = []" by (cases "sv_tasks s") auto
  then show "sv_udp_permits s = unat (udp_max_inflight (server cfg))" using assms(1) by (simp add: sinv_def)
qed

lemma can_join:
  assumes "sinv cfg s" "sv_shutdown s"
  shows "\<exists>s'. work_step\<^sup>*\<^sup>* s s' \<and> joined s'"
proof -
  obtain s1 where s1: "work_step\<^sup>*\<^sup>* s s1" "\<forall>p \<in> set (sv_workers s1). p = Stopped"
    using drain [OF assms] step_is_work assms(2) by blast
  show ?thesis
  proof (cases "sv_tcp_running s1")
    case True
    then have "work_step s1 (s1\<lparr>sv_tcp_running := False\<rparr>)"
      using work_steps_shutdown [OF s1(1)] assms(2) by (auto simp: work_step_def intro: tcp_break)
    with s1 show ?thesis
      by (intro exI [of _ "s1\<lparr>sv_tcp_running := False\<rparr>"]) (auto simp: joined_def list_all_iff)
  qed (use s1 in \<open>auto simp: joined_def list_all_iff\<close>)
qed

text \<open>
  On Unix a Ctrl-C handler that cannot be installed counts as a signal: the server stops at once. A SIGTERM
  handler that cannot be installed is a panic.
\<close>

lemma signal_failures:
  "sg_unix sg \<Longrightarrow> sg_registered sg = Inr () \<Longrightarrow> sg_ctrl_c sg = Some (Inl e) \<Longrightarrow> shutdown_signal sg = Ready"
  "sg_unix sg \<Longrightarrow> sg_registered sg = Inl e \<Longrightarrow> shutdown_signal sg = Panicked"
  "shutdown_signal sg = Ready \<Longrightarrow> sg_ctrl_c sg \<noteq> None \<or> sg_unix sg \<and> sg_sigterm sg"
  by (auto simp: shutdown_signal_def split: sum.splits option.splits if_splits)

lemma returned_drained:
  assumes "server_start h hs uos os tos cfg = Inr s0" "work_step\<^sup>*\<^sup>* s0 s1" "shutdown_signal sg = Ready"
    and "work_step\<^sup>*\<^sup>* (signal_shutdown s1) s2" "joined s2"
  shows "sv_tasks s2 = [] \<and> sv_udp_permits s2 = unat (udp_max_inflight (server cfg)) \<and> \<not> sv_reaper s2"
proof -
  note reach = signalled_reach [OF assms(1,2)]
  have inv: "sinv cfg s2" using sinv_reach [OF steps_reach [OF work_is_step [OF assms(4)] reach(1)]] .
  moreover have "sv_shutdown s2" using work_steps_shutdown [OF assms(4)] reach(2) by simp
  ultimately have "\<not> sv_reaper s2" by (simp add: sinv_def)
  with joined_drained [OF inv assms(5)] show ?thesis by simp
qed

section \<open>Properties\<close>

text \<open>Sockets that always open, except that a socket of one family cannot be connected to the other.\<close>

definition rx_upstreams :: "domain upstream_ops" where
  "rx_upstreams = \<lparr>uo_bind = (\<lambda>a. Inr (domain_for_address a)),
     uo_connect = (\<lambda>s a. if domain_for_address a = s then Inr () else Inl (IoOther 97))\<rparr>"

definition rx_sockets :: "domain sock_ops" where
  "rx_sockets = \<lparr>so_new = Inr, so_reuse_port = (\<lambda>_. Inr ()), so_nonblocking = (\<lambda>_. Inr ()),
     so_bind = (\<lambda>_ _. Inr ()), so_from_std = Inr, so_local_addr = (\<lambda>_. Inr (listen server_config_default)),
     so_listen = (\<lambda>a. Inr (domain_for_address a))\<rparr>"

definition rx_start :: "config \<Rightarrow> io_error + server_state" where
  "rx_start = server_start ex_hasher (\<lambda>_. ex_hasher) rx_upstreams (\<lambda>_. rx_sockets) rx_sockets"

lemma rx_start_default:
  obtains s where "rx_start config_default = Inr s" "sv_workers s = [Running]" "sv_tcp_running s"
    "sv_tcp_permits s = 1000" "sv_tasks s = []" "sv_conns s = []" "\<not> sv_shutdown s"
    "sv_cache s = server_cache ex_hasher (\<lambda>_. ex_hasher) config_default" "sv_replies s = []"
  using that
  by (simp add: rx_start_def server_start_def start_def bind_udp_sockets_def config_default_def server_config_default_def
      resolver_config_default_def resolver_new_def upstream_socket_new_def rx_upstreams_def rx_sockets_def
      udp_bind_def tcp_bind_def bind_udp_socket_def bind_tcp_listener_def domain_for_address_def unspecified_v4_def)


definition rx_sigterm :: signals where
  "rx_sigterm = \<lparr>sg_unix = True, sg_registered = Inr (), sg_ctrl_c = None, sg_sigterm = True\<rparr>"

lemma rx_signal: "shutdown_signal rx_sigterm = Ready"
  by (simp add: shutdown_signal_def rx_sigterm_def)


text \<open>
  C36: TCP is not drained. \<open>run\<close> can return while a TCP connection is still open and a query on it has
  been forwarded and not been answered: the connection tasks are not among those the shutdown awaits.
\<close>

theorem run_leaves_connections:
  "\<exists>s. server_run rx_start rx_sigterm config_default (Run_ok s) \<and> joined s \<and> sv_conns s = [Some hx_query] \<and>
     sv_tcp_permits s = 999 \<and> sv_replies s = []"
proof -
  obtain s0 where s0: "rx_start config_default = Inr s0" "sv_workers s0 = [Running]" "sv_tcp_running s0"
      "sv_tcp_permits s0 = 1000" "sv_tasks s0 = []" "sv_conns s0 = []" "\<not> sv_shutdown s0"
      "sv_cache s0 = server_cache ex_hasher (\<lambda>_. ex_hasher) config_default" "sv_replies s0 = []"
    by (rule rx_start_default)
  let ?s1 = "s0\<lparr>sv_tcp_permits := 999, sv_conns := [None]\<rparr>"
  let ?s2 = "?s1\<lparr>sv_conns := [Some hx_query]\<rparr>"
  let ?s3 = "signal_shutdown ?s2"
  let ?s4 = "?s3\<lparr>sv_workers := [Draining]\<rparr>"
  let ?s5 = "?s4\<lparr>sv_workers := [Stopped]\<rparr>"
  let ?s6 = "?s5\<lparr>sv_tcp_running := False\<rparr>"
  have "work_step s0 ?s1" using s0 tcp_accept [of s0] by (simp add: work_step_def)
  moreover have "query_lookup (hx_env [] 0) (sv_cache ?s1) hx_query = None"
    using s0(8) sx_missed by simp
  then have "work_step ?s1 ?s2"
    using conn_missed [of ?s1 "[]" "[]", OF _ hx_parse] by (simp add: work_step_def)
  moreover have "work_step ?s3 ?s4"
    using s0 udp_break [of 0 ?s3] by (simp add: work_step_def signal_shutdown_def)
  moreover have "work_step ?s4 ?s5"
    using s0 udp_stop [of 0 ?s4] by (simp add: work_step_def signal_shutdown_def tasks_of_def)
  moreover have "work_step ?s5 ?s6"
    using s0 tcp_break [of ?s5] by (simp add: work_step_def signal_shutdown_def)
  ultimately have "work_step\<^sup>*\<^sup>* s0 ?s2" "work_step\<^sup>*\<^sup>* ?s3 ?s6"
    by (blast intro: rtranclp.rtrancl_into_rtrancl)+
  moreover have "joined ?s6" by (simp add: joined_def)
  ultimately have "server_run rx_start rx_sigterm config_default (Run_ok ?s6)"
    using run_returns [where st = rx_start, OF s0(1) _ rx_signal] by blast
  then show ?thesis
    using s0 \<open>joined ?s6\<close> by (intro exI [of _ ?s6]) (simp add: signal_shutdown_def)
qed

text \<open>
  IPv6 upstreams keep the server from starting. \<open>UpstreamSocket::new\<close> binds every upstream socket to
  \<open>0.0.0.0:0\<close>; where such a socket cannot be connected to an IPv6 address, a configuration with an IPv6
  upstream, which \<open>validate\<close> accepts, makes \<open>start\<close> fail.
\<close>

lemma ipv6_upstream_refused:
  assumes "\<And>s a. uo_bind uos unspecified_v4 = Inr s \<Longrightarrow> domain_for_address a = IPV6 \<Longrightarrow> \<exists>e. uo_connect uos s a = Inl e"
    and "a \<in> set (upstreams (resolver cfg))" "domain_for_address a = IPV6"
  shows "\<exists>e. server_start h hs uos os tos cfg = Inl e"
proof -
  obtain e where "open_upstreams uos (upstreams (resolver cfg)) = Inl e"
    using open_upstreams_refused [OF assms(2), of uos] assms(1) [OF _ assms(3)] by auto
  then show ?thesis by (simp add: server_start_def start_def resolver_new_def Let_def)
qed

section \<open>Failures\<close>

text \<open>
  When a listening socket cannot be bound, \<open>start\<close> fails, but the cache reaper it has spawned keeps running,
  with its reference to the cache: nothing can stop it any more.
\<close>

lemma failed_start_leaks_reaper:
  assumes "resolver_new uos (resolver cfg) = Inr fw"
    and "udp_bind os 0 (listen (server cfg)) = Inl e \<or> tcp_bind tos (listen (server cfg)) = Inl e"
  shows "\<exists>e'. server_start h hs uos os tos cfg = Inl e'" "start_background uos os tos cfg = [Cache_reaper]"
  using assms
  by (auto simp: server_start_def start_def start_background_def bind_udp_sockets_def Let_def
      split: sum.split prod.split) (auto simp: and_then_def split: sum.splits prod.splits)

lemma started_background:
  assumes "server_start h hs uos os tos cfg = Inr s"
  shows "length (filter (\<lambda>b. b \<in> range Udp_worker) (start_background uos os tos cfg)) = length (sv_workers s) \<and>
    Cache_reaper \<in> set (start_background uos os tos cfg) \<and> Tcp_worker \<in> set (start_background uos os tos cfg) \<and>
    {a. Recv_loop a \<in> set (start_background uos os tos cfg)} = set (upstreams (resolver cfg))"
proof -
  obtain fw ua us ta where ok: "resolver_new uos (resolver cfg) = Inr fw"
      "bind_udp_sockets (udp_bind os) (listen (server cfg)) (unat (workers (server cfg))) = Inr (ua, us)"
      "tcp_bind tos (listen (server cfg)) = Inr ta" "sv_workers s = map (\<lambda>_. Running) us"
    using assms by (auto simp: server_start_def start_def Let_def result_simps)
  have "map up_addr (fw_upstreams fw) = upstreams (resolver cfg)"
    using ok(1) by (auto simp: resolver_new_def result_simps dest: open_upstreams_ok)
  then have addrs: "set (upstreams (resolver cfg)) = up_addr ` set (fw_upstreams fw)" by (metis set_map)
  have "filter (\<lambda>b. b \<in> range Udp_worker) (map (\<lambda>u. Recv_loop (up_addr u)) (fw_upstreams fw)) = []"
    by (auto simp: filter_empty_conv)
  moreover have "filter (\<lambda>b. b \<in> range Udp_worker) (map Udp_worker [0..<length us]) = map Udp_worker [0..<length us]"
    by (auto simp: filter_id_conv)
  ultimately show ?thesis using addrs by (auto simp: start_background_def ok Let_def)
qed

section \<open>The whole process\<close>

text \<open>
  The binary ends normally only with a valid configuration, once the server has run and returned, and
  its log level is the one configured; a failure to start shows as the error of \<open>main\<close>.
\<close>

lemma main_ok:
  assumes "dnser_main rd fs build run argv = (MainOk, sub)"
  obtains path c where "parse_args argv = Args path" "load rd fs path = Inr c" "config_ok c" "run c = Inr ()"
    "sub = Some (init_logging (logging c))"
proof -
  obtain path c where "parse_args argv = Args path" "load rd fs path = Inr c" "run c = Inr ()"
      "sub = Some (init_logging (logging c))"
    using assms by (auto simp: dnser_main_def startup_def Let_def result_simps
        split: args_outcome.splits sum.splits startup.splits if_splits)
  moreover from this have "config_ok c" using load_Inr_iff [of rd fs path c] by simp
  ultimately show thesis using that by blast
qed

lemma main_start_error:
  "startup rd fs argv = Started c n \<Longrightarrow> build n = Inr () \<Longrightarrow> run c = Inl e \<Longrightarrow>
     dnser_main rd fs build run argv = (MainIo e, Some (init_logging (logging c)))"
  by (simp add: dnser_main_def)

end
