(* ===== verification/Server_Conc.thy ===== *)
theory Server_Conc
  imports Server Cache_Conc_Props
begin

text \<open>
  The request path on threads: \<open>process_query\<close> of many queries, over UDP and TCP, and the cache reaper, on
  the cache of \<open>Cache_Conc\<close>. A lookup reads under the read lock of one shard; an \<open>insert\<close> or a sweep occupies
  a thread of the runtime and is interleaved with the others lock step by lock step. There is no \<open>await\<close>
  between \<open>insert\<close> and the end of \<open>process_query\<close>: the thread goes on with its query, and the query cannot be
  aborted there.

  Shown: replies are right, one per query at most, and no query can be stuck behind a lock.
\<close>

section \<open>What is stored\<close>

text \<open>The entries of the cache, and the entry an insertion carries.\<close>

definition stored :: "cache \<Rightarrow> cache_entry set" where
  "stored c = (\<Union>s \<in> set (shards c). snd ` set s)"

fun carries :: "cpc \<Rightarrow> cache_entry set" where
  "carries (Ins_lock _ _ e _) = {e}"
| "carries (Ins_check _ _ e _) = {e}"
| "carries (Ins_evict _ _ e _) = {e}"
| "carries (Ins_sub _ _ e) = {e}"
| "carries (Ins_scan _ _ _ e _) = {e}"
| "carries (Ins_scan_evict _ _ _ _ e _) = {e}"
| "carries (Ins_sub_other _ _ e) = {e}"
| "carries (Ins_relock _ _ e) = {e}"
| "carries (Ins_put _ _ e) = {e}"
| "carries _ = {}"

lemma stored_clen [simp]: "stored (c\<lparr>clen := n\<rparr>) = stored c"
  by (simp add: stored_def)

lemma stored_update:
  assumes "set s \<subseteq> X \<union> set (shards c ! i)" "i < length (shards c)"
  shows "stored (c\<lparr>shards := (shards c)[i := s]\<rparr>) \<subseteq> snd ` X \<union> stored c"
proof -
  have "snd ` set (shards c ! i) \<subseteq> stored c" using nth_mem [OF assms(2)] unfolding stored_def by blast
  then have "snd ` set s \<subseteq> snd ` X \<union> stored c" using image_mono [OF assms(1), of snd] unfolding image_Un by blast
  moreover have "stored (c\<lparr>shards := (shards c)[i := s]\<rparr>) \<subseteq> snd ` set s \<union> stored c"
    using UN_mono [OF set_update_subset_insert [of "shards c" i s], of "\<lambda>s. snd ` set s" "\<lambda>s. snd ` set s"]
    by (simp add: stored_def)
  ultimately show ?thesis by blast
qed

lemma evict_one_subset: "evict_one it now s = (s', b) \<Longrightarrow> set s' \<subseteq> set s"
  by (auto simp: evict_one_def AList.delete_eq Let_def split: prod.splits option.splits)

text \<open>A step stores at most the entry its thread carries.\<close>

lemma cact_stored:
  assumes "cact it c L p = Some (c', L', p')" "shards_ok c" "pc_ok c p"
  shows "stored c' \<subseteq> carries p \<union> stored c \<and> carries p' \<subseteq> carries p"
proof -
  note len = shards_okD(2) [OF assms(2)]
  have upd: "x \<in> stored c"
    if "x \<in> stored (c\<lparr>shards := (shards c)[i := s]\<rparr>)" "set s \<subseteq> set (shards c ! i)" "i < NUM_SHARDS" for x i s
    using stored_update [of s "{}" c i] that len by auto
  have put: "x = e \<or> x \<in> stored c"
    if "x \<in> stored (c\<lparr>shards := (shards c)[i := AList.update k e (shards c ! i)]\<rparr>)" "i < NUM_SHARDS" for x i k e
    using stored_update [of "AList.update k e (shards c ! i)" "{(k, e)}" c i] that len
      set_alist_update [of k e "shards c ! i"] by auto
  show ?thesis
    using assms
    by (cases "(it, c, L, p)" rule: cact.cases)
      (auto simp: Let_def shard_index_less dest!: evict_one_subset dest: upd put split: if_splits prod.splits)
qed

section \<open>Queries on threads\<close>

text \<open>
  A query that has been parsed, one that waits for its upstreams, and one whose answer a thread is
  storing, with the reply it will give. \<open>cs_asked\<close> and \<open>cs_replies\<close> record the queries and the replies.
\<close>

datatype request = Asked message | Forwarded message | Storing nat message message

fun req_query :: "request \<Rightarrow> message" where
  "req_query (Asked q) = q"
| "req_query (Forwarded q) = q"
| "req_query (Storing _ q _) = q"

fun req_thread :: "request \<Rightarrow> nat option" where
  "req_thread (Storing t _ _) = Some t"
| "req_thread _ = None"

record conc_server =
  cs_conc :: conc
  cs_reqs :: "request list"
  cs_asked :: "message list"
  cs_replies :: "(message \<times> message) list"

text \<open>The lookup of \<open>process_query\<close> takes the read lock of one shard, unless the EDNS version ends it before.\<close>

definition edns_refused :: "message \<Rightarrow> bool" where
  "edns_refused q \<longleftrightarrow> (case message_opt q of Some rr \<Rightarrow> edns_version rr \<noteq> Some 0 | None \<Rightarrow> False)"

definition read_ready :: "conc \<Rightarrow> message \<Rightarrow> bool" where
  "read_ready s q \<longleftrightarrow>
     (case questions q of
        [x] \<Rightarrow> \<not> wlocks s ! shard_index (shared s) (lookup_hash_calls (lookup_from_question x))
      | _ \<Rightarrow> True)"

text \<open>A thread is free when it runs no operation of the cache and belongs to no query.\<close>

definition free_thread :: "conc_server \<Rightarrow> nat \<Rightarrow> bool" where
  "free_thread s t \<longleftrightarrow> t < length (threads (cs_conc s)) \<and> threads (cs_conc s) ! t = C_idle \<and>
     list_all (\<lambda>x. req_thread x \<noteq> Some t) (cs_reqs s)"

definition occupy :: "nat \<Rightarrow> cpc \<Rightarrow> conc_server \<Rightarrow> conc_server" where
  "occupy t p s = s\<lparr>cs_conc := (cs_conc s)\<lparr>threads := (threads (cs_conc s))[t := p]\<rparr>\<rparr>"

definition finish_request :: "request list \<Rightarrow> message \<Rightarrow> message \<Rightarrow> conc_server \<Rightarrow> conc_server" where
  "finish_request rest q r s = s\<lparr>cs_reqs := rest, cs_replies := cs_replies s @ [(q, r)]\<rparr>"

text \<open>
  The steps, with the outcome of the upstreams for each query as the argument \<open>up\<close>: the addresses and
  the attempts of \<open>resolve\<close>.
\<close>

inductive qstep :: "(message \<Rightarrow> socket_addr list \<times> attempt list) \<Rightarrow> conc_server \<Rightarrow> conc_server \<Rightarrow> bool"
  for up :: "message \<Rightarrow> socket_addr list \<times> attempt list" where
  q_asked: "message_parse b = Inr q \<Longrightarrow>
    qstep up s (s\<lparr>cs_reqs := Asked q # cs_reqs s, cs_asked := q # cs_asked s\<rparr>)"
| q_answered: "\<lbrakk>cs_reqs s = xs @ Asked q # ys; edns_refused q \<or> read_ready (cs_conc s) q;
    query_lookup env (shared (cs_conc s)) q = Some r\<rbrakk> \<Longrightarrow> qstep up s (finish_request (xs @ ys) q r s)"
| q_missed: "\<lbrakk>cs_reqs s = xs @ Asked q # ys; edns_refused q \<or> read_ready (cs_conc s) q;
    query_lookup env (shared (cs_conc s)) q = None\<rbrakk> \<Longrightarrow> qstep up s (s\<lparr>cs_reqs := xs @ Forwarded q # ys\<rparr>)"
| q_failed: "\<lbrakk>cs_reqs s = xs @ Forwarded q # ys; resolver_resolve (fst (up q)) (snd (up q)) q = Inl e\<rbrakk> \<Longrightarrow>
    qstep up s (finish_request (xs @ ys) q (build_servfail q) s)"
| q_store: "\<lbrakk>cs_reqs s = xs @ Forwarded q # ys; resolver_resolve (fst (up q)) (snd (up q)) q = Inr msg;
    free_thread s t\<rbrakk> \<Longrightarrow>
    qstep up s (occupy t (insert_begin (shared (cs_conc s)) msg now)
      (s\<lparr>cs_reqs := xs @ Storing t q (if message_opt q \<noteq> None then add_edns_opt msg else msg) # ys\<rparr>))"
| q_stored: "\<lbrakk>cs_reqs s = xs @ Storing t q r # ys; threads (cs_conc s) ! t = C_idle\<rbrakk> \<Longrightarrow>
    qstep up s (finish_request (xs @ ys) q r s)"
| q_abort: "\<lbrakk>cs_reqs s = xs @ x # ys; req_thread x = None\<rbrakk> \<Longrightarrow> qstep up s (s\<lparr>cs_reqs := xs @ ys\<rparr>)"
| q_sweep: "free_thread s t \<Longrightarrow> qstep up s (occupy t (sweep_begin (shared (cs_conc s)) now) s)"
| q_run: "crun (cs_conc s) d k \<Longrightarrow> qstep up s (s\<lparr>cs_conc := k\<rparr>)"

definition conc_server_new :: "nat \<Rightarrow> cache \<Rightarrow> conc_server" where
  "conc_server_new n c = \<lparr>cs_conc = conc_new n c, cs_reqs = [], cs_asked = [], cs_replies = []\<rparr>"

inductive qreach :: "nat \<Rightarrow> u64 \<Rightarrow> conc_server \<Rightarrow> bool" for n :: nat and cap :: u64 where
  q_new: "qreach n cap (conc_server_new n (cache_new h hs cap neg))"
| q_step: "qreach n cap s \<Longrightarrow> qstep up s s' \<Longrightarrow> qreach n cap s'"

section \<open>Invariants\<close>

lemma server_fields [simp]:
  "cs_conc (finish_request xs q r s) = cs_conc s" "cs_reqs (finish_request xs q r s) = xs"
  "cs_asked (finish_request xs q r s) = cs_asked s"
  "cs_replies (finish_request xs q r s) = cs_replies s @ [(q, r)]"
  "cs_reqs (occupy t p s) = cs_reqs s" "cs_asked (occupy t p s) = cs_asked s"
  "cs_replies (occupy t p s) = cs_replies s" "shared (cs_conc (occupy t p s)) = shared (cs_conc s)"
  "wlocks (cs_conc (occupy t p s)) = wlocks (cs_conc s)"
  "threads (cs_conc (occupy t p s)) = (threads (cs_conc s))[t := p]"
  by (simp_all add: finish_request_def occupy_def)

text \<open>The cache component moves as the machine of \<open>Cache_Conc\<close> does, so that its theorems apply.\<close>

lemma qstep_conc: "qstep up s s' \<Longrightarrow> cs_conc s' = cs_conc s \<or> (\<exists>d. cstep (cs_conc s) d (cs_conc s'))"
  by (induction rule: qstep.induct)
    (auto simp: occupy_def free_thread_def intro: cstep.intros)

lemma qreach_creach: "qreach n cap s \<Longrightarrow> \<exists>m. creach n cap (cs_conc s) m"
proof (induction rule: qreach.induct)
  case (q_new h hs neg)
  then show ?case using c_new [of n cap h hs neg] by (auto simp: conc_server_new_def)
next
  case (q_step s up s')
  then show ?case using qstep_conc [OF q_step(2)] c_step by metis
qed

lemma qreach_inv: "qreach n cap s \<Longrightarrow> conc_inv n cap (cs_conc s)"
  using qreach_creach creach_inv by blast

text \<open>Every entry, stored or on its way, holds a response of an upstream.\<close>

definition from_upstream :: "cache_entry \<Rightarrow> bool" where
  "from_upstream e \<longleftrightarrow> is_response (header (ce_response e)) \<and> counts_ok (ce_response e)"

definition entries_ok :: "conc \<Rightarrow> bool" where
  "entries_ok s \<longleftrightarrow> (\<forall>e \<in> stored (shared s) \<union> (\<Union>p \<in> set (threads s). carries p). from_upstream e)"

lemma entries_ok_occupy:
  assumes "entries_ok s" "\<forall>e \<in> carries p. from_upstream e"
  shows "entries_ok (s\<lparr>threads := (threads s)[t := p]\<rparr>)"
  using assms by (auto simp: entries_ok_def dest!: subsetD [OF set_update_subset_insert])

lemma entries_ok_run:
  assumes "crun s d s'" "conc_inv n cap s" "entries_ok s"
  shows "entries_ok s'"
  using assms
proof (induction rule: crun.induct)
  case (crunI t s it c' L' p')
  have ok: "shards_ok (shared s)" using crunI(4) by (simp add: conc_inv_def)
  note st = cact_stored [OF crunI(3) ok conc_inv_pc [OF crunI(4,1)]]
  have old: "\<forall>e \<in> stored (shared s) \<union> carries (threads s ! t). from_upstream e"
    using crunI(5) nth_mem [OF crunI(1)] by (auto simp: entries_ok_def)
  then have "entries_ok (s\<lparr>threads := (threads s)[t := p']\<rparr>)"
    using st crunI(5) by (intro entries_ok_occupy) auto
  with old st show ?case by (auto simp: entries_ok_def)
qed

lemma entries_serve:
  assumes "entries_ok s" "conc_inv n cap s"
  shows "serves_responses (shared s)"
proof -
  have ok: "shards_ok (shared s)" using assms(2) by (simp add: conc_inv_def)
  have "e \<in> stored (shared s)" if "cache_map (shared s) k = Some e" for k e
  proof -
    have "shards (shared s) ! shard_index (shared s) (key_hash_calls k) \<in> set (shards (shared s))"
      using shard_index_less shards_okD(2) [OF ok] by simp
    then show ?thesis using map_of_SomeD [OF that [unfolded cache_map_def]] unfolding stored_def by force
  qed
  then show ?thesis using assms(1) ok by (auto simp: serves_responses_def entries_ok_def from_upstream_def)
qed

lemma resolved_entry:
  assumes "resolver_resolve ups attempts q = Inr msg" "e \<in> carries (insert_begin c msg now)"
  shows "from_upstream e"
proof -
  have "is_response (header msg)" "counts_ok msg"
    using assms(1) fwd.answers [of "(ups, attempts)" q msg] resolved_counts_ok by (auto simp: answers_query_def)
  with assms(2) show ?thesis
    by (auto simp: insert_begin_eq from_upstream_def entry_for_def split: option.splits)
qed

lemma entries_ok_new: "entries_ok (conc_new n (cache_new h hs cap neg))"
  by (auto simp: entries_ok_def conc_new_def stored_def cache_new_def)

lemma qreach_entries: "qreach n cap s \<Longrightarrow> entries_ok (cs_conc s)"
proof (induction rule: qreach.induct)
  case (q_new h hs neg)
  show ?case by (simp add: conc_server_new_def entries_ok_new)
next
  case (q_step s up s')
  from q_step(2,3) qreach_inv [OF q_step(1)] show ?case
    by (induction rule: qstep.induct)
      (auto simp: occupy_def sweep_begin_def intro: entries_ok_run intro!: entries_ok_occupy resolved_entry)
qed

text \<open>The queries in work, with their threads, and the replies given.\<close>

fun req_ok :: "nat \<Rightarrow> request \<Rightarrow> bool" where
  "req_ok n (Storing t q r) \<longleftrightarrow> t < n \<and> reply_ok q r"
| "req_ok n (Asked q) \<longleftrightarrow> (\<exists>b. message_parse b = Inr q)"
| "req_ok n (Forwarded q) \<longleftrightarrow> (\<exists>b. message_parse b = Inr q)"

definition qinv :: "nat \<Rightarrow> conc_server \<Rightarrow> bool" where
  "qinv n s \<longleftrightarrow> (\<forall>x \<in> set (cs_reqs s). req_ok n x) \<and> (\<forall>(q, r) \<in> set (cs_replies s). reply_ok q r) \<and>
     mset (map fst (cs_replies s)) + mset (map req_query (cs_reqs s)) \<subseteq># mset (cs_asked s)"

lemma forwarded_reply_ok:
  assumes "message_parse b = Inr q" "resolver_resolve ups attempts q = Inr msg"
  shows "reply_ok q (if message_opt q \<noteq> None then add_edns_opt msg else msg)"
  using parsed_reply_ok(2) [OF assms(1), of "\<lparr>qe_upstreams = ups, qe_attempts = attempts, qe_now = 0, qe_later = 0,
      qe_it = (\<lambda>_ s. s), qe_send = Inr ()\<rparr>" undefined] assms(2)
  by (simp add: query_forward_def upstream_reply_def Let_def)

lemma qinv_finish:
  assumes "qinv n s" "cs_reqs s = xs @ x # ys" "reply_ok (req_query x) r"
  shows "qinv n (finish_request (xs @ ys) (req_query x) r s)"
  using assms by (auto simp: qinv_def)

lemma qinv_step:
  assumes "qstep up s s'" "serves_responses (shared (cs_conc s))" "length (threads (cs_conc s)) = n" "qinv n s"
  shows "qinv n s'"
  using assms
proof (induction rule: qstep.induct)
  case (q_answered s xs q ys env r)
  then obtain b where "message_parse b = Inr q" by (auto simp: qinv_def)
  from parsed_reply_ok(1) [OF this q_answered(4,3)] qinv_finish [OF q_answered(6,1)] show ?case by simp
next
  case (q_failed s xs q ys e)
  then obtain b where "message_parse b = Inr q" by (auto simp: qinv_def)
  from reply_ok_built(1) [OF parsed_counts_ok [OF this]] qinv_finish [OF q_failed(5,1)] show ?case by simp
next
  case (q_stored s xs t q r ys)
  then have "reply_ok q r" by (auto simp: qinv_def)
  with qinv_finish [OF q_stored(5,1)] show ?case by simp
next
  case (q_store s xs q ys msg t now)
  then obtain b where "message_parse b = Inr q" by (auto simp: qinv_def)
  from forwarded_reply_ok [OF this q_store(2)] q_store(1,3,5,6) show ?case
    by (auto simp: qinv_def free_thread_def)
next
  case (q_abort s xs x ys)
  then have "mset (map fst (cs_replies s)) + mset (map req_query (xs @ ys)) \<subseteq># mset (cs_asked s)"
    by (auto simp: qinv_def elim!: subset_mset.order_trans [rotated])
  with q_abort show ?case by (auto simp: qinv_def)
qed (auto simp: qinv_def)

lemma qreach_qinv: "qreach n cap s \<Longrightarrow> qinv n s"
proof (induction rule: qreach.induct)
  case (q_new h hs neg)
  show ?case by (simp add: qinv_def conc_server_new_def)
next
  case (q_step s up s')
  note inv = qreach_inv [OF q_step(1)]
  from qinv_step [OF q_step(2) entries_serve [OF qreach_entries [OF q_step(1)] inv] _ q_step(3)] inv show ?case
    by (simp add: conc_inv_def)
qed

section \<open>Progress\<close>

text \<open>The queries answered and in work, which no step but a new query or an abort changes.\<close>

definition owed :: "conc_server \<Rightarrow> message multiset" where
  "owed s = mset (map fst (cs_replies s)) + mset (map req_query (cs_reqs s))"

lemma qsteps_reach: "(qstep up)\<^sup>*\<^sup>* s s' \<Longrightarrow> qreach n cap s \<Longrightarrow> qreach n cap s'"
  by (induction rule: rtranclp_induct) (auto intro: q_step)

lemma qsteps_run: "runs\<^sup>*\<^sup>* (cs_conc s) k \<Longrightarrow> (qstep up)\<^sup>*\<^sup>* s (s\<lparr>cs_conc := k\<rparr>)"
proof (induction rule: rtranclp_induct)
  case (step k k')
  then obtain d where "crun k d k'" by (auto simp: runs_def)
  then have "qstep up (s\<lparr>cs_conc := k\<rparr>) (s\<lparr>cs_conc := k'\<rparr>)" using q_run [of "s\<lparr>cs_conc := k\<rparr>" d k' up] by simp
  with step show ?case by (meson rtranclp.rtrancl_into_rtrancl)
qed simp

lemma qsteps_quiet:
  assumes "qreach n cap s"
  obtains k where "(qstep up)\<^sup>*\<^sup>* s (s\<lparr>cs_conc := k\<rparr>)" "quiet k"
  using runs_to_quiet [OF qreach_inv [OF assms]] qsteps_run by blast

lemma quiet_idle: "quiet k \<Longrightarrow> t < length (threads k) \<Longrightarrow> threads k ! t = C_idle"
  by (simp add: quiet_def list_all_length)

lemma quiet_readable:
  assumes "quiet (cs_conc s)" "qreach n cap s"
  shows "read_ready (cs_conc s) q"
  using quiet_sums(2) [OF qreach_inv [OF assms(2)] assms(1)]
  by (simp add: read_ready_def shard_index_less split: list.split)

text \<open>A query in work that can be answered: there is a run after which one query less is in work, and none lost.\<close>

definition answerable :: "(message \<Rightarrow> socket_addr list \<times> attempt list) \<Rightarrow> conc_server \<Rightarrow> bool" where
  "answerable up s \<longleftrightarrow> (\<exists>s'. (qstep up)\<^sup>*\<^sup>* s s' \<and> length (cs_reqs s') < length (cs_reqs s) \<and> owed s' = owed s)"

lemma answerable_steps:
  assumes "(qstep up)\<^sup>*\<^sup>* s s1" "length (cs_reqs s1) \<le> length (cs_reqs s)" "owed s1 = owed s" "answerable up s1"
  shows "answerable up s"
  using assms unfolding answerable_def by (metis (no_types, lifting) order_less_le_trans rtranclp_trans)

lemma answerable_finish:
  assumes "qstep up s (finish_request (xs @ ys) (req_query x) r s)" "cs_reqs s = xs @ x # ys"
  shows "answerable up s"
  unfolding answerable_def
  by (rule exI [of _ "finish_request (xs @ ys) (req_query x) r s"]) (use assms in \<open>auto simp: owed_def\<close>)

lemma storing_answerable:
  assumes "qreach n cap s" "cs_reqs s = xs @ Storing t q r # ys"
  shows "answerable up s"
proof -
  obtain k where k: "(qstep up)\<^sup>*\<^sup>* s (s\<lparr>cs_conc := k\<rparr>)" "quiet k" using qsteps_quiet [OF assms(1)] .
  let ?s = "s\<lparr>cs_conc := k\<rparr>"
  have reach: "qreach n cap ?s" by (rule qsteps_reach [OF k(1) assms(1)])
  have "t < length (threads k)"
    using qreach_qinv [OF reach] qreach_inv [OF reach] assms(2) by (simp add: qinv_def conc_inv_def)
  then have "threads (cs_conc ?s) ! t = C_idle" using quiet_idle [OF k(2)] by simp
  then have "qstep up ?s (finish_request (xs @ ys) q r ?s)" by (intro q_stored) (simp_all add: assms(2))
  then have "answerable up ?s"
    using answerable_finish [of up ?s xs ys "Storing t q r"] assms(2) by simp
  from answerable_steps [OF k(1) _ _ this] show ?thesis by (simp add: owed_def)
qed

lemma forwarded_answerable:
  assumes "qreach n cap s" "cs_reqs s = xs @ Forwarded q # ys" "quiet (cs_conc s)" "0 < n"
    and "list_all (\<lambda>x. req_thread x = None) (cs_reqs s)"
  shows "answerable up s"
proof (cases "resolver_resolve (fst (up q)) (snd (up q)) q")
  case (Inl e)
  from q_failed [where up = up, OF assms(2) Inl] show ?thesis
    using answerable_finish [of up s xs ys "Forwarded q"] assms(2) by simp
next
  case (Inr msg)
  have "0 < length (threads (cs_conc s))" using qreach_inv [OF assms(1)] assms(4) by (simp add: conc_inv_def)
  then have "free_thread s 0" using assms(3,5) by (auto simp: free_thread_def quiet_idle list_all_iff)
  note st = q_store [where up = up and now = 0, OF assms(2) Inr this]
  show ?thesis
    by (rule answerable_steps [OF r_into_rtranclp [of "qstep up", OF st] _ _ storing_answerable [OF q_step [OF assms(1) st]]])
      (simp_all add: assms(2) owed_def)
qed

lemma asked_answerable:
  assumes "qreach n cap s" "cs_reqs s = xs @ Asked q # ys" "quiet (cs_conc s)" "0 < n"
    and "list_all (\<lambda>x. req_thread x = None) (cs_reqs s)"
  shows "answerable up s"
proof -
  note ready = quiet_readable [OF assms(3,1), of q]
  define env where "env = hx_env [] 0"
  show ?thesis
  proof (cases "query_lookup env (shared (cs_conc s)) q")
    case (Some r)
    have "qstep up s (finish_request (xs @ ys) q r s)" using q_answered [OF assms(2) _ Some] ready by blast
    then show ?thesis using answerable_finish [of up s xs ys "Asked q"] assms(2) by simp
  next
    case None
    then have st: "qstep up s (s\<lparr>cs_reqs := xs @ Forwarded q # ys\<rparr>)" (is "qstep up s ?s")
      using q_missed [OF assms(2) _ None] ready by simp
    have "answerable up ?s"
      using forwarded_answerable [OF q_step [OF assms(1) st], of xs q ys] assms(2-5) by simp
    from answerable_steps [OF r_into_rtranclp [of "qstep up", OF st] _ _ this] assms(2) show ?thesis by (simp add: owed_def)
  qed
qed

lemma request_answerable:
  assumes "qreach n cap s" "cs_reqs s \<noteq> []" "0 < n"
  shows "answerable up s"
proof (cases "list_all (\<lambda>x. req_thread x = None) (cs_reqs s)")
  case True
  obtain k where k: "(qstep up)\<^sup>*\<^sup>* s (s\<lparr>cs_conc := k\<rparr>)" "quiet k" using qsteps_quiet [OF assms(1)] .
  let ?s = "s\<lparr>cs_conc := k\<rparr>"
  have reach: "qreach n cap ?s" by (rule qsteps_reach [OF k(1) assms(1)])
  obtain x ys where x: "cs_reqs s = x # ys" using assms(2) by (cases "cs_reqs s") auto
  have "answerable up ?s"
  proof (cases x)
    case (Asked q)
    with asked_answerable [OF reach, of "[]" q ys] x k(2) True assms(3) show ?thesis by simp
  next
    case (Forwarded q)
    with forwarded_answerable [OF reach, of "[]" q ys] x k(2) True assms(3) show ?thesis by simp
  qed (use x True in simp)
  from answerable_steps [OF k(1) _ _ this] show ?thesis by (simp add: owed_def)
next
  case False
  then obtain x where x: "x \<in> set (cs_reqs s)" "req_thread x \<noteq> None" by (auto simp: list_all_iff)
  from x(2) obtain t q r where "x = Storing t q r" by (cases x) auto
  with x(1) obtain xs ys where "cs_reqs s = xs @ Storing t q r # ys" by (metis split_list)
  with assms(1) show ?thesis by (rule storing_answerable)
qed

lemma all_answered:
  "qreach n cap s \<Longrightarrow> 0 < n \<Longrightarrow> \<exists>s'. (qstep up)\<^sup>*\<^sup>* s s' \<and> cs_reqs s' = [] \<and> owed s' = owed s"
proof (induction "length (cs_reqs s)" arbitrary: s rule: less_induct)
  case less
  show ?case
  proof (cases "cs_reqs s = []")
    case False
    then obtain s1 where s1: "(qstep up)\<^sup>*\<^sup>* s s1" "length (cs_reqs s1) < length (cs_reqs s)" "owed s1 = owed s"
      using request_answerable [OF less.prems(1) _ less.prems(2)] unfolding answerable_def by blast
    from less.hyps [OF s1(2) qsteps_reach [OF s1(1) less.prems(1)] less.prems(2)] s1 show ?thesis
      by (metis rtranclp_trans)
  qed blast
qed

section \<open>Properties\<close>


definition qx_server :: "nat \<Rightarrow> conc_server" where
  "qx_server n = conc_server_new n (cache_new cx_hasher (\<lambda>_. cx_hasher) 1 60)"

definition qx_up :: "message \<Rightarrow> socket_addr list \<times> attempt list" where
  "qx_up q = (one_upstream, [Waited (Received hx_answer) idle_tcp])"

definition qx_asked :: conc_server where
  "qx_asked = (qx_server 2)\<lparr>cs_reqs := [Asked hx_query], cs_asked := [hx_query]\<rparr>"

lemma qx_reach: "qreach 2 1 qx_asked"
proof -
  have "qreach 2 1 (qx_server 2)" unfolding qx_server_def by (rule q_new)
  from q_step [OF this q_asked [OF hx_parse]] show ?thesis
    by (simp add: qx_asked_def qx_server_def conc_server_new_def)
qed


text \<open>
  C6: no query is stuck. From every state the threads and queries can reach, and whatever the upstreams
  answer to each query, all queries in work can be answered, every one of them exactly once: no lock, no
  occupied thread and no sweep keeps them from it, as long as the runtime has a thread at all.
\<close>

theorem threaded_queries_finish:
  assumes "qreach n cap s" "0 < n"
  shows "\<exists>s'. (qstep up)\<^sup>*\<^sup>* s s' \<and> cs_reqs s' = [] \<and>
    mset (map fst (cs_replies s')) = mset (map fst (cs_replies s)) + mset (map req_query (cs_reqs s))"
  using all_answered [OF assms, of up] by (auto simp: owed_def)

theorem threaded_queries_finish_witness:
  "\<exists>s'. (qstep qx_up)\<^sup>*\<^sup>* qx_asked s' \<and> cs_reqs s' = [] \<and> mset (map fst (cs_replies s')) = {#hx_query#}"
  using threaded_queries_finish [OF qx_reach, of qx_up]
  by (simp add: qx_asked_def qx_server_def conc_server_new_def)

end
