(* ===== verification/Error_Text.thy ===== *)
theory Error_Text
  imports Handler
begin

text \<open>
  The \<open>Display\<close> texts and the \<open>source\<close> of the error types (\<open>error.rs\<close> of \<open>dnser-proto\<close>,
  \<open>dnser-resolver\<close>, \<open>dnser-server\<close> and \<open>dnser-config\<close>), as they appear in the log lines of the workers
  and in the error of \<open>main\<close>. The text of an I/O error belongs to the standard library's error kinds and
  is an argument. The texts identify the error: two different errors never print the same.
\<close>

section \<open>Numbers\<close>

text \<open>\<open>Display\<close> of the unsigned integers: decimal, without leading zeros.\<close>

definition digit :: "nat \<Rightarrow> char" where
  "digit d = char_of (48 + d)"

fun dec :: "nat \<Rightarrow> string" where
  "dec n = (if n < 10 then [digit n] else dec (n div 10) @ [digit (n mod 10)])"

declare dec.simps [simp del]

definition is_digit :: "char \<Rightarrow> bool" where
  "is_digit c \<longleftrightarrow> 48 \<le> (of_char c :: nat) \<and> (of_char c :: nat) < 58"

lemma of_char_digit: "d < 10 \<Longrightarrow> (of_char (digit d) :: nat) = 48 + d"
  by (simp add: digit_def)

lemma digit_inject: "a < 10 \<Longrightarrow> b < 10 \<Longrightarrow> digit a = digit b \<longleftrightarrow> a = b"
  by (metis add_left_cancel of_char_digit)

lemma dec_digits: "c \<in> set (dec n) \<Longrightarrow> is_digit c"
proof (induction n rule: dec.induct)
  case (1 n)
  then show ?case by (subst (asm) (2) dec.simps) (auto simp: is_digit_def of_char_digit split: if_splits)
qed

lemma dec_not_Nil [simp]: "dec n \<noteq> []"
  by (subst dec.simps) simp

lemma dec_inject [simp]: "dec a = dec b \<longleftrightarrow> a = b"
proof (induction a arbitrary: b rule: dec.induct)
  case (1 a)
  have single: "dec n = [digit (n mod 10)] \<longleftrightarrow> n < 10" for n
    by (subst dec.simps) simp
  show ?case
  proof (cases "a < 10 \<or> b < 10")
    case True
    then show ?thesis
      using single [of a] single [of b] digit_inject [of a b] dec.simps [of a] dec.simps [of b] by auto
  next
    case False
    then have "dec a = dec b \<longleftrightarrow> a div 10 = b div 10 \<and> a mod 10 = b mod 10"
      using 1 digit_inject [of "a mod 10" "b mod 10"] dec.simps [of a] dec.simps [of b] by simp
    then show ?thesis by (metis div_mult_mod_eq)
  qed
qed

text \<open>Two numbers with a text between them that is not a digit.\<close>

lemma dec_append_inject:
  assumes "dec a @ c # s = dec a' @ c # s'" "\<not> is_digit c"
  shows "a = a' \<and> s = s'"
proof -
  have "takeWhile is_digit (dec n @ c # t) = dec n" for n t
    using dec_digits assms(2) by (subst takeWhile_append2) (auto simp: takeWhile_eq_all_conv)
  then have "dec a = dec a'" using assms(1) by metis
  with assms(1) show ?thesis by simp
qed

lemma dec_pair_inject:
  assumes "\<not> is_digit c"
  shows "dec a @ c # s @ dec n = dec a' @ c # s @ dec n' \<longleftrightarrow> a = a' \<and> n = n'"
proof
  assume "dec a @ c # s @ dec n = dec a' @ c # s @ dec n'"
  from dec_append_inject [OF this assms] show "a = a' \<and> n = n'" by simp
qed simp

section \<open>Texts\<close>

text \<open>\<open>std::str::Utf8Error\<close>.\<close>

fun utf8_error_display :: "utf8_error \<Rightarrow> string" where
  "utf8_error_display \<lparr>valid_up_to = n, error_len = Some l\<rparr> =
     ''invalid utf-8 sequence of '' @ dec (unat l) @ '' bytes from index '' @ dec n"
| "utf8_error_display \<lparr>valid_up_to = n, error_len = None\<rparr> = ''incomplete utf-8 byte sequence from index '' @ dec n"

fun parse_error_display :: "parse_error \<Rightarrow> string" where
  "parse_error_display UnexpectedEof = ''unexpected end of buffer''"
| "parse_error_display InvalidPointer = ''compression pointer out of bounds''"
| "parse_error_display PointerLoop = ''compression pointer loop detected''"
| "parse_error_display LabelTooLong = ''label exceeds 63 bytes''"
| "parse_error_display NameTooLong = ''name exceeds 253 bytes''"
| "parse_error_display RdataLengthMismatch = ''rdata length mismatch''"
| "parse_error_display (UnknownRecordType t) = ''unknown record type: '' @ dec (unat t)"
| "parse_error_display (UnknownClass c) = ''unknown class: '' @ dec (unat c)"
| "parse_error_display (InvalidUtf8 e) = ''invalid UTF-8 in label: '' @ utf8_error_display e"
| "parse_error_display ReservedBitSet = ''reserved Z bit is set''"

fun write_error_display :: "write_error \<Rightarrow> string" where
  "write_error_display WLabelTooLong = ''label exceeds 63 bytes''"
| "write_error_display WEmptyLabel = ''domain name contains an empty label''"
| "write_error_display WTxtChunkTooLong = ''TXT chunk exceeds 255 bytes''"

fun resolve_error_display :: "(io_error \<Rightarrow> string) \<Rightarrow> resolve_error \<Rightarrow> string" where
  "resolve_error_display io (RWrite e) = ''write: '' @ write_error_display e"
| "resolve_error_display io (RParse e) = ''parse: '' @ parse_error_display e"
| "resolve_error_display io (RIo e) = ''io: '' @ io e"
| "resolve_error_display io RTimeout = ''upstream timed out''"
| "resolve_error_display io RNoUpstreams = ''no upstreams configured''"
| "resolve_error_display io RAllFailed = ''all upstreams failed''"
| "resolve_error_display io RInvalidResponse = ''invalid response from upstream''"
| "resolve_error_display io RIdSpaceExhausted = ''all 65536 query IDs in use''"

fun query_error_display :: "(io_error \<Rightarrow> string) \<Rightarrow> query_error \<Rightarrow> string" where
  "query_error_display io (QParse e) = ''parse: '' @ parse_error_display e"
| "query_error_display io (QWrite e) = ''write: '' @ write_error_display e"
| "query_error_display io (QIo e) = ''io: '' @ io e"

section \<open>Sources and conversions\<close>

text \<open>What \<open>Error::source\<close> returns: the wrapped error, if there is one.\<close>

datatype 'toml wrapped = OfParse parse_error | OfWrite write_error | OfIo io_error | OfToml 'toml

fun resolve_error_source :: "resolve_error \<Rightarrow> 'toml wrapped option" where
  "resolve_error_source (RWrite e) = Some (OfWrite e)"
| "resolve_error_source (RParse e) = Some (OfParse e)"
| "resolve_error_source (RIo e) = Some (OfIo e)"
| "resolve_error_source _ = None"

fun query_error_source :: "query_error \<Rightarrow> 'toml wrapped option" where
  "query_error_source (QParse e) = Some (OfParse e)"
| "query_error_source (QWrite e) = Some (OfWrite e)"
| "query_error_source (QIo e) = Some (OfIo e)"

fun config_error_source :: "'toml config_error \<Rightarrow> 'toml wrapped option" where
  "config_error_source (ConfigIo _ e) = Some (OfIo e)"
| "config_error_source (ConfigParse e) = Some (OfToml e)"
| "config_error_source _ = None"

text \<open>The \<open>From\<close> conversions behind the \<open>?\<close> of the resolver and of the request path.\<close>

fun resolve_error_from :: "'toml wrapped \<Rightarrow> resolve_error option" where
  "resolve_error_from (OfWrite e) = Some (RWrite e)"
| "resolve_error_from (OfParse e) = Some (RParse e)"
| "resolve_error_from (OfIo e) = Some (RIo e)"
| "resolve_error_from (OfToml _) = None"

fun query_error_from :: "'toml wrapped \<Rightarrow> query_error option" where
  "query_error_from (OfParse e) = Some (QParse e)"
| "query_error_from (OfWrite e) = Some (QWrite e)"
| "query_error_from (OfIo e) = Some (QIo e)"
| "query_error_from (OfToml _) = None"

lemma source_of_from:
  "resolve_error_from w = Some e \<Longrightarrow> resolve_error_source e = Some w"
  "query_error_from w = Some q \<Longrightarrow> query_error_source q = Some w"
  by (cases w; auto)+

lemma from_of_source:
  "resolve_error_source e = Some w \<Longrightarrow> resolve_error_from w = Some e"
  "query_error_source q = Some w \<Longrightarrow> query_error_from w = Some q"
  by (cases e; auto) (cases q; auto)

section \<open>Texts identify errors\<close>

lemma utf8_error_display_inject: "utf8_error_display a = utf8_error_display b \<longleftrightarrow> a = b"
proof -
  have "\<not> is_digit CHR '' ''" by (simp add: is_digit_def)
  note pair = dec_pair_inject [OF this, of _ "''bytes from index ''", simplified]
  show ?thesis
    by (cases a rule: utf8_error_display.cases; cases b rule: utf8_error_display.cases)
       (auto simp: pair word_unat_eq_iff)
qed

lemma parse_error_display_inject: "parse_error_display a = parse_error_display b \<longleftrightarrow> a = b"
  by (cases a; cases b) (auto simp: utf8_error_display_inject word_unat_eq_iff)

lemma write_error_display_inject: "write_error_display a = write_error_display b \<longleftrightarrow> a = b"
  by (cases a; cases b) auto

text \<open>
  The text of an error identifies it. Two errors of the resolver, or of the request path, that print
  the same text are the same error, with the same contents, provided that I/O errors can be told apart
  by their texts; so the log line of a failed query says exactly what failed.
\<close>

lemma error_texts_identify:
  assumes "inj io"
  shows "inj (resolve_error_display io) \<and> inj (query_error_display io)"
proof -
  note inject = parse_error_display_inject write_error_display_inject inj_eq [OF assms]
  have "resolve_error_display io a = resolve_error_display io b \<Longrightarrow> a = b" for a b
    by (cases a; cases b) (simp_all add: inject)
  moreover have "query_error_display io a = query_error_display io b \<Longrightarrow> a = b" for a b
    by (cases a; cases b) (simp_all add: inject)
  ultimately show ?thesis by (auto intro: injI)
qed

fun sx_io_text :: "io_error \<Rightarrow> string" where
  "sx_io_text IoUnexpectedEof = ''a''"
| "sx_io_text IoInvalidData = ''b''"
| "sx_io_text IoConnectionRefused = ''c''"
| "sx_io_text (IoOther n) = CHR ''d'' # dec n"

end
